(* ===== verification/Prelude.thy ===== *)
theory Prelude
  imports Main "HOL-Library.Word"
begin

text \<open>
  Shared vocabulary of the kdbOS development: the fixed-width integer types of
  \<^verbatim>\<open>src/include/types.h\<close>, the faults a kernel routine can run into, the alignment
  predicate and the arithmetic facts on words that the component theories use.
\<close>

unbundle bit_operations_syntax

section \<open>Machine integers\<close>

type_synonym u8 = "8 word"
type_synonym u16 = "16 word"
type_synonym u32 = "32 word"
type_synonym u64 = "64 word"

text \<open>
  A routine that dereferences an unmapped page takes a page fault; a routine that indexes
  past the end of an array, or shifts by the width of the type or more, has no defined
  behaviour.  All of these are values here.
\<close>

datatype fault = PageFault u32 | OutOfBounds | UndefinedShift

type_synonym 'a result = "fault + 'a"

named_theorems word_arith_simps \<open>reading word arithmetic as arithmetic on naturals\<close>
named_theorems mem_frame \<open>what a store leaves unchanged\<close>

section \<open>Naturals and words\<close>

abbreviation (input) U32 :: "nat \<Rightarrow> u32" where
  "U32 n \<equiv> of_nat n"

lemma unat_u32_bound: "unat (x :: u32) < 4294967296"
  using unsigned_less [of x] by simp

lemma unat_u16_bound: "unat (x :: u16) < 65536"
  using unsigned_less [of x] by simp

lemma unat_of_nat_u32 [word_arith_simps]: "n < 4294967296 \<Longrightarrow> unat (U32 n) = n"
  by (simp add: unat_of_nat take_bit_eq_mod)

lemma unat_add_u32 [word_arith_simps]:
  "unat (a :: u32) + unat b < 4294967296 \<Longrightarrow> unat (a + b) = unat a + unat b"
  by (simp add: unat_word_ariths)

lemma unat_diff_u32 [word_arith_simps]: "b \<le> a \<Longrightarrow> unat (a - b :: u32) = unat a - unat b"
  by (simp add: unat_sub)

lemma unat_mult_u32 [word_arith_simps]:
  "unat (a :: u32) * unat b < 4294967296 \<Longrightarrow> unat (a * b) = unat a * unat b"
  by (simp add: unat_word_ariths)

lemma of_nat_unat_u32 [simp]: "U32 (unat x) = x"
  by simp

lemma of_nat_inj_u32:
  "i < 4294967296 \<Longrightarrow> j < 4294967296 \<Longrightarrow> U32 i = U32 j \<longleftrightarrow> i = j"
  by (metis unat_of_nat_u32)

lemma add_of_nat_inj_u32:
  "i < 4294967296 \<Longrightarrow> j < 4294967296 \<Longrightarrow> (a :: u32) + U32 i = a + U32 j \<longleftrightarrow> i = j"
  using of_nat_inj_u32 by simp

section \<open>Alignment\<close>

definition aligned4 :: "u32 \<Rightarrow> bool" where
  "aligned4 a \<longleftrightarrow> unat a mod 4 = 0"

lemma unat_add_mod4: "unat (a + b :: u32) mod 4 = (unat a + unat b) mod 4"
  by (simp add: unat_word_ariths mod_mod_cancel)

lemma aligned4_add [simp, intro]: "aligned4 a \<Longrightarrow> aligned4 b \<Longrightarrow> aligned4 (a + b)"
  unfolding aligned4_def unat_add_mod4 by presburger

lemma aligned4_add_iff: "aligned4 b \<Longrightarrow> aligned4 (a + b) \<longleftrightarrow> aligned4 a"
  unfolding aligned4_def unat_add_mod4 by presburger

lemma aligned4_mult4 [simp]: "aligned4 (4 * n)"
  by (simp add: aligned4_def unat_word_ariths mod_mod_cancel)

lemma aligned4_room: "aligned4 a \<Longrightarrow> unat a \<le> 4294967292"
  using unat_u32_bound [of a] unfolding aligned4_def by presburger

lemma aligned4_apart:
  "aligned4 a \<Longrightarrow> aligned4 b \<Longrightarrow> a \<noteq> b \<Longrightarrow> unat a + 4 \<le> unat b \<or> unat b + 4 \<le> unat a"
  unfolding aligned4_def word_unat_eq_iff by presburger

end
