(* ===== verification/Memory.thy ===== *)
theory Memory
  imports Prelude
begin

text \<open>
  Physical memory: a byte per 32-bit address.  A \<^verbatim>\<open>uint32_t\<close> access through a
  pointer is a little-endian read or write of four bytes, as on the i386 the kernel is
  compiled for.  Structures are laid out by hand at the offsets the compiler gives them.
\<close>

type_synonym mem = "u32 \<Rightarrow> u8"

section \<open>Accesses\<close>

definition load32 :: "mem \<Rightarrow> u32 \<Rightarrow> u32" where
  "load32 m a =
     ucast (m a) OR push_bit 8 (ucast (m (a + 1)))
     OR push_bit 16 (ucast (m (a + 2))) OR push_bit 24 (ucast (m (a + 3)))"

definition store32 :: "u32 \<Rightarrow> u32 \<Rightarrow> mem \<Rightarrow> mem" where
  "store32 a v m =
     m(a := ucast v, a + 1 := ucast (drop_bit 8 v),
       a + 2 := ucast (drop_bit 16 v), a + 3 := ucast (drop_bit 24 v))"

definition load8 :: "mem \<Rightarrow> u32 \<Rightarrow> u8" where
  "load8 m a = m a"

definition store8 :: "u32 \<Rightarrow> u8 \<Rightarrow> mem \<Rightarrow> mem" where
  "store8 a v m = m(a := v)"

text \<open>The bytes \<open>[a, a + n)\<close> do not run past the end of the address space.\<close>

definition fits :: "u32 \<Rightarrow> nat \<Rightarrow> bool" where
  "fits a n \<longleftrightarrow> unat a + n \<le> 4294967296"

definition in_range :: "u32 \<Rightarrow> u32 \<Rightarrow> nat \<Rightarrow> bool" where
  "in_range x a n \<longleftrightarrow> unat a \<le> unat x \<and> unat x < unat a + n"

text \<open>Two ranges are apart when one ends before the other starts.\<close>

definition apart :: "u32 \<Rightarrow> nat \<Rightarrow> u32 \<Rightarrow> nat \<Rightarrow> bool" where
  "apart a n b k \<longleftrightarrow> unat a + n \<le> unat b \<or> unat b + k \<le> unat a"

section \<open>Laws\<close>

lemma small_offsets_distinct [simp]:
  "(a :: u32) + 1 \<noteq> a" "a + 2 \<noteq> a" "a + 3 \<noteq> a"
  "a \<noteq> a + 1" "a \<noteq> a + 2" "a \<noteq> a + 3"
  "a + 1 \<noteq> a + 2" "a + 1 \<noteq> a + 3" "a + 2 \<noteq> a + 3"
  "a + 2 \<noteq> a + 1" "a + 3 \<noteq> a + 1" "a + 3 \<noteq> a + 2"
  by simp_all

lemma word32_of_bytes:
  "(ucast (ucast v :: u8) :: u32) OR push_bit 8 (ucast (ucast (drop_bit 8 v) :: u8))
     OR push_bit 16 (ucast (ucast (drop_bit 16 v) :: u8))
     OR push_bit 24 (ucast (ucast (drop_bit 24 v) :: u8)) = v"
proof (rule bit_word_eqI)
  fix n assume "n < LENGTH(32)"
  then consider "n < 8" | "8 \<le> n" "n < 16" | "16 \<le> n" "n < 24" | "24 \<le> n" "n < 32"
    by fastforce
  then show "bit ((ucast (ucast v :: u8) :: u32) OR push_bit 8 (ucast (ucast (drop_bit 8 v) :: u8))
     OR push_bit 16 (ucast (ucast (drop_bit 16 v) :: u8))
     OR push_bit 24 (ucast (ucast (drop_bit 24 v) :: u8))) n \<longleftrightarrow> bit v n"
    by cases (auto simp: bit_simps)
qed

lemma load32_store32_same [simp]: "load32 (store32 a v m) a = v"
  using word32_of_bytes [of v] by (simp add: load32_def store32_def)

lemma load32_cong:
  assumes "\<And>i. i < 4 \<Longrightarrow> m (a + U32 i) = m' (a + U32 i)"
  shows "load32 m a = load32 m' a"
  using assms [of 0] assms [of 1] assms [of 2] assms [of 3] by (simp add: load32_def)

lemma store32_outside:
  assumes "\<And>i. i < 4 \<Longrightarrow> x \<noteq> a + U32 i"
  shows "store32 a v m x = m x"
  using assms [of 0] assms [of 1] assms [of 2] assms [of 3] by (simp add: store32_def)

lemma unat_offset: "fits a n \<Longrightarrow> i < n \<Longrightarrow> unat (a + U32 i) = unat a + i"
  unfolding fits_def by (subst unat_add_u32) (auto simp: unat_of_nat_u32)

lemma fits_mono: "fits a n \<Longrightarrow> k \<le> n \<Longrightarrow> fits a k"
  by (simp add: fits_def)

lemma aligned4_fits [simp, intro]: "aligned4 a \<Longrightarrow> fits a 4"
  using aligned4_room by (simp add: fits_def)

lemma store32_frame [mem_frame]:
  assumes "fits a 4" and "\<not> in_range x a 4"
  shows "store32 a v m x = m x"
proof (rule store32_outside)
  fix i :: nat assume "i < 4"
  with assms(1) have "unat (a + U32 i) = unat a + i" by (rule unat_offset)
  with \<open>i < 4\<close> assms(2) show "x \<noteq> a + U32 i" by (auto simp: in_range_def)
qed

lemma load32_store32_apart [mem_frame]:
  assumes "fits a 4" "fits b 4" "apart a 4 b 4"
  shows "load32 (store32 a v m) b = load32 m b"
proof (rule load32_cong)
  fix i :: nat assume i: "i < 4"
  with assms(2) have "unat (b + U32 i) = unat b + i" by (rule unat_offset)
  with i assms(3) have "\<not> in_range (b + U32 i) a 4" by (auto simp: in_range_def apart_def)
  with assms(1) show "store32 a v m (b + U32 i) = m (b + U32 i)" by (rule store32_frame)
qed

lemma load32_store32_aligned [mem_frame]:
  "aligned4 a \<Longrightarrow> aligned4 b \<Longrightarrow> load32 (store32 a v m) b = (if a = b then v else load32 m b)"
  using aligned4_apart [of a b] by (auto simp: apart_def intro!: load32_store32_apart)

lemma load32_store8_apart [mem_frame]:
  assumes "fits b 4" "\<not> in_range a b 4"
  shows "load32 (store8 a v m) b = load32 m b"
proof (rule load32_cong)
  fix i :: nat assume i: "i < 4"
  with assms(1) have "unat (b + U32 i) = unat b + i" by (rule unat_offset)
  with i assms(2) show "store8 a v m (b + U32 i) = m (b + U32 i)"
    by (auto simp: in_range_def store8_def)
qed

lemma store8_apply: "store8 a v m x = (if x = a then v else m x)"
  by (simp add: store8_def)

lemma load8_store8 [simp]: "load8 (store8 a v m) b = (if a = b then v else load8 m b)"
  by (simp add: load8_def store8_def)

lemma load8_store32_apart [mem_frame]:
  "fits a 4 \<Longrightarrow> \<not> in_range b a 4 \<Longrightarrow> load8 (store32 a v m) b = load8 m b"
  by (simp add: load8_def store32_frame)

section \<open>Writes confined to a range\<close>

definition changed_only_in :: "nat \<Rightarrow> nat \<Rightarrow> mem \<Rightarrow> mem \<Rightarrow> bool" where
  "changed_only_in lo hi m m' \<longleftrightarrow> (\<forall>x. unat x < lo \<or> hi \<le> unat x \<longrightarrow> m' x = m x)"

lemma changed_only_in_refl [simp]: "changed_only_in lo hi m m"
  by (simp add: changed_only_in_def)

lemma changed_only_in_trans:
  "changed_only_in lo hi m m1 \<Longrightarrow> changed_only_in lo hi m1 m2 \<Longrightarrow> changed_only_in lo hi m m2"
  by (simp add: changed_only_in_def)

lemma changed_only_in_mono:
  "changed_only_in lo hi m m' \<Longrightarrow> lo' \<le> lo \<Longrightarrow> hi \<le> hi' \<Longrightarrow> changed_only_in lo' hi' m m'"
  by (auto simp: changed_only_in_def)

lemma changed_only_in_store32:
  "fits a 4 \<Longrightarrow> lo \<le> unat a \<Longrightarrow> unat a + 4 \<le> hi \<Longrightarrow> changed_only_in lo hi m (store32 a v m)"
  unfolding changed_only_in_def by (auto intro!: store32_frame simp: in_range_def)

lemma changed_only_in_store8:
  "lo \<le> unat a \<Longrightarrow> unat a < hi \<Longrightarrow> changed_only_in lo hi m (store8 a v m)"
  by (auto simp: changed_only_in_def store8_def)

lemma load8_changed:
  "changed_only_in lo hi m m' \<Longrightarrow> unat a < lo \<or> hi \<le> unat a \<Longrightarrow> load8 m' a = load8 m a"
  by (auto simp: changed_only_in_def load8_def)

lemma load32_changed:
  assumes "changed_only_in lo hi m m'" "fits a 4" "unat a + 4 \<le> lo \<or> hi \<le> unat a"
  shows "load32 m' a = load32 m a"
proof (rule load32_cong)
  fix i :: nat assume "i < 4"
  with assms show "m' (a + U32 i) = m (a + U32 i)"
    by (auto simp: changed_only_in_def unat_offset)
qed

section \<open>Footprints\<close>

text \<open>The bytes of an object, and memories that agree on, or off, a set of bytes.\<close>

definition bytes :: "u32 \<Rightarrow> nat \<Rightarrow> u32 set" where
  "bytes a n = {x. in_range x a n}"

definition same_on :: "u32 set \<Rightarrow> mem \<Rightarrow> mem \<Rightarrow> bool" where
  "same_on S m m' \<longleftrightarrow> (\<forall>x \<in> S. m' x = m x)"

definition same_off :: "u32 set \<Rightarrow> mem \<Rightarrow> mem \<Rightarrow> bool" where
  "same_off S m m' \<longleftrightarrow> (\<forall>x. x \<notin> S \<longrightarrow> m' x = m x)"

lemma bytes_mono: "n \<le> k \<Longrightarrow> bytes a n \<subseteq> bytes a k"
  by (auto simp: bytes_def in_range_def)

lemma bytes_offset: "fits a n \<Longrightarrow> i + k \<le> n \<Longrightarrow> i < n \<Longrightarrow> bytes (a + U32 i) k \<subseteq> bytes a n"
  by (auto simp: bytes_def in_range_def unat_offset)

lemma bytes_disjoint_iff:
  assumes "0 < n" "0 < k" "fits a n" "fits b k"
  shows "bytes a n \<inter> bytes b k = {} \<longleftrightarrow> apart a n b k"
proof
  assume disj: "bytes a n \<inter> bytes b k = {}"
  have "a \<in> bytes a n" "b \<in> bytes b k" using assms by (auto simp: bytes_def in_range_def)
  with disj have "a \<notin> bytes b k" "b \<notin> bytes a n" by auto
  then show "apart a n b k" by (auto simp: bytes_def in_range_def apart_def)
qed (auto simp: bytes_def in_range_def apart_def)

lemma same_on_refl [simp]: "same_on S m m"
  by (simp add: same_on_def)

lemma same_off_refl [simp]: "same_off S m m"
  by (simp add: same_off_def)

lemma same_off_trans: "same_off S m m1 \<Longrightarrow> same_off S m1 m2 \<Longrightarrow> same_off S m m2"
  by (simp add: same_off_def)

lemma same_off_mono: "same_off S m m' \<Longrightarrow> S \<subseteq> T \<Longrightarrow> same_off T m m'"
  by (auto simp: same_off_def)

lemma same_off_on: "same_off S m m' \<Longrightarrow> S \<inter> T = {} \<Longrightarrow> same_on T m m'"
  by (auto simp: same_off_def same_on_def)

lemma same_on_mono: "same_on T m m' \<Longrightarrow> S \<subseteq> T \<Longrightarrow> same_on S m m'"
  by (auto simp: same_on_def)

lemma same_off_store32: "fits a 4 \<Longrightarrow> bytes a 4 \<subseteq> S \<Longrightarrow> same_off S m (store32 a v m)"
  by (auto simp: same_off_def bytes_def intro!: store32_frame)

lemma load32_same_on:
  assumes "same_on S m m'" "fits a 4" "bytes a 4 \<subseteq> S"
  shows "load32 m' a = load32 m a"
proof (rule load32_cong)
  fix i :: nat assume "i < 4"
  then have "a + U32 i \<in> bytes a 4"
    using unat_offset [OF assms(2)] by (simp add: bytes_def in_range_def)
  with assms(1,3) show "m' (a + U32 i) = m (a + U32 i)" by (auto simp: same_on_def)
qed

lemma offset_outside:
  assumes "fits a n" "x \<notin> bytes a n"
  shows "n \<le> unat (x - a)"
  using assms unat_u32_bound [of x]
  by (auto simp: unat_sub_if' fits_def bytes_def in_range_def split: if_splits)

lemma apart_bytes: "apart a n b k \<Longrightarrow> bytes a n \<inter> bytes b k = {}"
  by (auto simp: bytes_def in_range_def apart_def)

end
