(* ===== verification/Bitmap.thy ===== *)
theory Bitmap
  imports Memory
begin

text \<open>
  \<^verbatim>\<open>src/kernel/ds/bitmap.c\<close>: a bitmap over an array of 32-bit words in memory.
  The operations work on the words \<open>storage[i / 32]\<close>; the theory shows that they
  implement a set of bit indices below \<open>total_bits\<close>, states that contract as the
  locale \<open>bit_store\<close> and interprets it on the operations.
\<close>

section \<open>Operations\<close>

record Bitmap =
  storage :: u32
  total_bits :: u32

definition bitmap_clear_all :: "Bitmap \<Rightarrow> mem \<Rightarrow> mem" where
  "bitmap_clear_all b m =
     (let words = total_bits b div 32;
          words = (if total_bits b mod 32 \<noteq> 0 then words + 1 else words)
      in fold (\<lambda>i. store32 (storage b + 4 * U32 i) 0) [0..<unat words] m)"

definition bitmap_set :: "Bitmap \<Rightarrow> u32 \<Rightarrow> mem \<Rightarrow> mem" where
  "bitmap_set b bit_index m =
     (if total_bits b \<le> bit_index then m
      else let a = storage b + 4 * (bit_index div 32)
           in store32 a (load32 m a OR push_bit (unat (bit_index mod 32)) 1) m)"

definition bitmap_clear :: "Bitmap \<Rightarrow> u32 \<Rightarrow> mem \<Rightarrow> mem" where
  "bitmap_clear b bit_index m =
     (if total_bits b \<le> bit_index then m
      else let a = storage b + 4 * (bit_index div 32)
           in store32 a (load32 m a AND NOT (push_bit (unat (bit_index mod 32)) 1)) m)"

definition bitmap_test :: "Bitmap \<Rightarrow> u32 \<Rightarrow> mem \<Rightarrow> bool" where
  "bitmap_test b bit_index m =
     (if total_bits b \<le> bit_index then False
      else load32 m (storage b + 4 * (bit_index div 32))
             AND push_bit (unat (bit_index mod 32)) 1 \<noteq> 0)"

section \<open>The contract of a bit store\<close>

text \<open>
  What a client of the bitmap relies on: marking and unmarking a bit below the capacity
  changes that bit only, and an index past the capacity is ignored and reads as clear.
\<close>

locale bit_store =
  fixes test :: "u32 \<Rightarrow> 's \<Rightarrow> bool"
    and mark :: "u32 \<Rightarrow> 's \<Rightarrow> 's"
    and unmark :: "u32 \<Rightarrow> 's \<Rightarrow> 's"
    and capacity :: u32
    and wf :: bool
  assumes test_mark: "wf \<Longrightarrow> test j (mark i s) \<longleftrightarrow> (j = i \<and> i < capacity) \<or> test j s"
    and test_unmark: "wf \<Longrightarrow> test j (unmark i s) \<longleftrightarrow> j \<noteq> i \<and> test j s"
    and test_beyond: "capacity \<le> j \<Longrightarrow> \<not> test j s"
begin

definition members :: "'s \<Rightarrow> u32 set" where
  "members s = {j. test j s}"

lemma members_mark: "wf \<Longrightarrow> members (mark i s) = members s \<union> ({i} \<inter> {j. j < capacity})"
  by (auto simp: members_def test_mark)

lemma members_unmark: "wf \<Longrightarrow> members (unmark i s) = members s - {i}"
  by (auto simp: members_def test_unmark)

lemma test_fold_mark:
  "wf \<Longrightarrow> test j (fold mark is s) \<longleftrightarrow> (j \<in> set is \<and> j < capacity) \<or> test j s"
  by (induction "is" arbitrary: s) (auto simp: test_mark)

lemma unmark_mark: "wf \<Longrightarrow> \<not> test i s \<Longrightarrow> test j (unmark i (mark i s)) \<longleftrightarrow> test j s"
  by (auto simp: test_mark test_unmark)

lemma members_below: "members s \<subseteq> {j. j < capacity}"
  using test_beyond by (fastforce simp: members_def not_le)

end

section \<open>The bitmap implements it\<close>

definition bitmap_words :: "Bitmap \<Rightarrow> nat" where
  "bitmap_words b = (unat (total_bits b) + 31) div 32"

definition bitmap_ok :: "Bitmap \<Rightarrow> bool" where
  "bitmap_ok b \<longleftrightarrow> aligned4 (storage b) \<and> fits (storage b) (4 * bitmap_words b)"

definition word_addr :: "Bitmap \<Rightarrow> u32 \<Rightarrow> u32" where
  "word_addr b i = storage b + 4 * (i div 32)"

lemma aligned4_word_addr [simp]: "bitmap_ok b \<Longrightarrow> aligned4 (word_addr b i)"
  by (auto simp: bitmap_ok_def word_addr_def)

lemma unat_div32: "unat (i div 32 :: u32) = unat i div 32"
  by (simp add: unat_div)

lemma unat_mod32: "unat (i mod 32 :: u32) = unat i mod 32"
  by (simp add: unat_mod)

lemma div_mod_32_eq: "i = j \<longleftrightarrow> i div 32 = j div 32 \<and> i mod 32 = (j mod 32 :: u32)"
  by (metis div_mult_mod_eq)

lemma four_times_div32_inj: "4 * (i div 32) = 4 * (j div 32 :: u32) \<longleftrightarrow> i div 32 = j div 32"
proof -
  have *: "unat (4 * (k div 32) :: u32) = 4 * (unat k div 32)" for k :: u32
    using unat_u32_bound [of k] by (subst unat_mult_u32) (auto simp: unat_div32 less_mult_imp_div_less)
  show ?thesis
    by (metis * mult_cancel_left unat_div32 word_unat_eq_iff zero_neq_numeral)
qed

lemma word_addr_eq: "word_addr b i = word_addr b j \<longleftrightarrow> i div 32 = j div 32"
  by (simp add: word_addr_def four_times_div32_inj)

lemma bitmap_test_bit:
  "bitmap_test b i m \<longleftrightarrow> i < total_bits b \<and> bit (load32 m (word_addr b i)) (unat (i mod 32))"
  by (auto simp: bitmap_test_def word_addr_def bit_iff_and_push_bit_not_eq_0 not_le)

lemma bitmap_set_store:
  "bitmap_set b i m =
     (if i < total_bits b
      then store32 (word_addr b i) (load32 m (word_addr b i) OR push_bit (unat (i mod 32)) 1) m
      else m)"
  by (auto simp: bitmap_set_def word_addr_def Let_def)

lemma bitmap_clear_store:
  "bitmap_clear b i m =
     (if i < total_bits b
      then store32 (word_addr b i)
             (load32 m (word_addr b i) AND NOT (push_bit (unat (i mod 32)) 1)) m
      else m)"
  by (auto simp: bitmap_clear_def word_addr_def Let_def)

lemma bitmap_test_beyond: "total_bits b \<le> j \<Longrightarrow> \<not> bitmap_test b j m"
  by (simp add: bitmap_test_def)

lemma bitmap_test_store:
  assumes "bitmap_ok b"
  shows "bitmap_test b j (store32 (word_addr b i) v m) \<longleftrightarrow>
    j < total_bits b \<and>
    (if i div 32 = j div 32 then bit v (unat (j mod 32)) else bitmap_test b j m)"
  using assms by (auto simp: bitmap_test_bit load32_store32_aligned word_addr_eq)

lemma unat_mod32_less: "unat (i mod 32 :: u32) < 32"
  by (simp add: unat_mod32)

lemma bitmap_test_set:
  assumes "bitmap_ok b"
  shows "bitmap_test b j (bitmap_set b i m) \<longleftrightarrow> (j = i \<and> i < total_bits b) \<or> bitmap_test b j m"
proof (cases "i < total_bits b")
  case True
  then have set_eq: "bitmap_set b i m = store32 (word_addr b i)
      (load32 m (word_addr b i) OR push_bit (unat (i mod 32)) 1) m"
    by (simp add: bitmap_set_store)
  have "word_addr b i = word_addr b j" if "i div 32 = j div 32"
    using that by (simp add: word_addr_eq)
  then show ?thesis
    unfolding set_eq bitmap_test_store [OF assms]
    using True unat_mod32_less [of j] div_mod_32_eq [of i j]
    by (auto simp: bitmap_test_bit bit_simps word_unat_eq_iff [of "i mod 32"])
qed (simp add: bitmap_set_store)

lemma bitmap_test_clear:
  assumes "bitmap_ok b"
  shows "bitmap_test b j (bitmap_clear b i m) \<longleftrightarrow> j \<noteq> i \<and> bitmap_test b j m"
proof (cases "i < total_bits b")
  case True
  then have clear_eq: "bitmap_clear b i m = store32 (word_addr b i)
      (load32 m (word_addr b i) AND NOT (push_bit (unat (i mod 32)) 1)) m"
    by (simp add: bitmap_clear_store)
  have "word_addr b i = word_addr b j" if "i div 32 = j div 32"
    using that by (simp add: word_addr_eq)
  then show ?thesis
    unfolding clear_eq bitmap_test_store [OF assms]
    using True unat_mod32_less [of j] div_mod_32_eq [of i j]
    by (auto simp: bitmap_test_bit bit_simps word_unat_eq_iff [of "i mod 32"])
qed (auto simp: bitmap_clear_store bitmap_test_beyond not_less)

interpretation bm: bit_store "bitmap_test b" "bitmap_set b" "bitmap_clear b" "total_bits b"
    "bitmap_ok b" for b
  by unfold_locales (simp_all add: bitmap_test_set bitmap_test_clear bitmap_test_beyond)

section \<open>Clearing, and what the operations leave alone\<close>

definition in_storage :: "Bitmap \<Rightarrow> u32 \<Rightarrow> bool" where
  "in_storage b x \<longleftrightarrow> in_range x (storage b) (4 * bitmap_words b)"

lemma clear_all_words:
  "unat (if total_bits b mod 32 \<noteq> 0 then total_bits b div 32 + 1 else total_bits b div 32)
     = bitmap_words b"
proof -
  have mod0: "(total_bits b mod 32 = 0) = (unat (total_bits b) mod 32 = 0)"
    by (simp add: word_unat_eq_iff unat_mod32)
  have "unat (total_bits b div 32 + 1) = unat (total_bits b) div 32 + 1"
    using unat_u32_bound [of "total_bits b"] by (subst unat_add_u32) (simp_all add: unat_div32)
  moreover have "(n + 31) div 32 = (if n mod 32 \<noteq> 0 then n div 32 + 1 else n div 32)" for n :: nat
  proof -
    obtain q r where "n = 32 * q + r" "r < 32"
      by (metis mult_div_mod_eq mod_less_divisor zero_less_numeral)
    then show ?thesis by (cases "r = 0") (auto intro!: div_nat_eqI)
  qed
  ultimately show ?thesis
    unfolding bitmap_words_def mod0 by (simp add: unat_div32 if_distrib [of unat])
qed

lemma bitmap_words_bound: "bitmap_words b \<le> 134217728"
  using unat_u32_bound [of "total_bits b"] unfolding bitmap_words_def by linarith

lemma unat_4_times: "i < 1073741824 \<Longrightarrow> unat (4 * U32 i) = 4 * i"
  by (subst unat_mult_u32) (simp_all add: unat_of_nat_u32)

lemma load32_fold_store32:
  assumes "aligned4 a" "n < 1073741824" "j < 1073741824"
  shows "load32 (fold (\<lambda>i. store32 (a + 4 * U32 i) v) [0..<n] m) (a + 4 * U32 j) =
    (if j < n then v else load32 m (a + 4 * U32 j))"
  using assms(2)
proof (induction n)
  case (Suc n)
  have "4 * U32 n = 4 * U32 j \<longleftrightarrow> n = j"
    using Suc.prems assms(3) unat_4_times by (metis Suc_lessD mult_cancel_left zero_neq_numeral)
  with Suc assms(1) show ?case by (auto simp: load32_store32_aligned)
qed simp

lemma word_addr_index: "word_addr b i = storage b + 4 * U32 (unat i div 32)"
  by (metis of_nat_unat_u32 unat_div32 word_addr_def)

lemma bitmap_clear_all_empty:
  assumes "bitmap_ok b"
  shows "\<not> bitmap_test b j (bitmap_clear_all b m)"
proof (cases "j < total_bits b")
  case True
  then have "unat j div 32 < bitmap_words b"
    unfolding bitmap_words_def word_less_nat_alt by linarith
  moreover have "load32 (bitmap_clear_all b m) (word_addr b j) =
      (if unat j div 32 < bitmap_words b then 0 else load32 m (word_addr b j))"
    unfolding bitmap_clear_all_def Let_def clear_all_words word_addr_index
    using assms bitmap_words_bound [of b] unat_u32_bound [of j]
    by (intro load32_fold_store32) (simp_all add: bitmap_ok_def less_mult_imp_div_less)
  ultimately show ?thesis by (simp add: bitmap_test_bit)
qed (simp add: bitmap_test_bit)

lemma word_addr_storage:
  assumes "bitmap_ok b" "k < bitmap_words b" "in_range x (storage b + 4 * U32 k) 4"
  shows "in_storage b x"
proof -
  have "unat (storage b + 4 * U32 k) = unat (storage b) + 4 * k"
    using assms(1,2) bitmap_words_bound [of b]
    by (subst unat_add_u32) (simp_all add: unat_4_times bitmap_ok_def fits_def)
  with assms(2,3) show ?thesis by (auto simp: in_storage_def in_range_def)
qed

lemma store32_word_frame:
  assumes "bitmap_ok b" "k < bitmap_words b" "\<not> in_storage b x"
  shows "store32 (storage b + 4 * U32 k) v m x = m x"
  using assms word_addr_storage by (blast intro: store32_frame aligned4_fits aligned4_add
      aligned4_mult4 dest: bitmap_ok_def [THEN iffD1])

lemma bit_word_index: "i < total_bits b \<Longrightarrow> unat i div 32 < bitmap_words b"
  unfolding bitmap_words_def word_less_nat_alt by linarith

lemma bitmap_set_frame: "bitmap_ok b \<Longrightarrow> \<not> in_storage b x \<Longrightarrow> bitmap_set b i m x = m x"
  by (simp add: bitmap_set_store word_addr_index store32_word_frame bit_word_index)

lemma bitmap_clear_frame: "bitmap_ok b \<Longrightarrow> \<not> in_storage b x \<Longrightarrow> bitmap_clear b i m x = m x"
  by (simp add: bitmap_clear_store word_addr_index store32_word_frame bit_word_index)

lemma fold_store32_word_frame:
  "bitmap_ok b \<Longrightarrow> n \<le> bitmap_words b \<Longrightarrow> \<not> in_storage b x \<Longrightarrow>
    fold (\<lambda>i. store32 (storage b + 4 * U32 i) v) [0..<n] m x = m x"
  by (induction n) (simp_all add: store32_word_frame)

lemma bitmap_clear_all_frame:
  "bitmap_ok b \<Longrightarrow> \<not> in_storage b x \<Longrightarrow> bitmap_clear_all b m x = m x"
  unfolding bitmap_clear_all_def Let_def clear_all_words
  by (rule fold_store32_word_frame) simp_all

section \<open>Properties\<close>

text \<open>C18: the bitmap implements a set of indices below \<open>total_bits\<close>: setting an index
  adds it (an index past the end is ignored), clearing removes it, clearing all empties it,
  and no operation writes outside the words of the bitmap.\<close>

theorem bitmap_implements_set:
  assumes "bitmap_ok b"
  shows "{j. bitmap_test b j (bitmap_set b i m)} =
      {j. bitmap_test b j m} \<union> (if i < total_bits b then {i} else {}) \<and>
    {j. bitmap_test b j (bitmap_clear b i m)} = {j. bitmap_test b j m} - {i} \<and>
    {j. bitmap_test b j (bitmap_clear_all b m)} = {} \<and>
    (\<forall>x. \<not> in_storage b x \<longrightarrow> bitmap_set b i m x = m x \<and> bitmap_clear b i m x = m x \<and>
      bitmap_clear_all b m x = m x)"
  using assms bm.members_mark [of b i m] bm.members_unmark [of b i m]
  by (auto simp: bm.members_def bitmap_clear_all_empty bitmap_set_frame bitmap_clear_frame
      bitmap_clear_all_frame split: if_splits)

theorem bitmap_implements_set_witness:
  "bitmap_ok \<lparr>storage = 0x400000, total_bits = 40\<rparr> \<and>
   {j. bitmap_test \<lparr>storage = 0x400000, total_bits = 40\<rparr> j
         (bitmap_set \<lparr>storage = 0x400000, total_bits = 40\<rparr> 33 (\<lambda>_. 0))} = {33}"
proof -
  let ?b = "\<lparr>storage = 0x400000, total_bits = 40\<rparr>"
  have ok: "bitmap_ok ?b" by (simp add: bitmap_ok_def aligned4_def fits_def bitmap_words_def)
  have "{j. bitmap_test ?b j (\<lambda>_. 0)} = {}" by (simp add: bitmap_test_def load32_def)
  with ok bitmap_implements_set [OF ok, of 33 "\<lambda>_. 0"] show ?thesis by simp
qed

end
