(* ===== verification/Pmm.thy ===== *)
theory Pmm
  imports Bitmap
begin

text \<open>
  \<^verbatim>\<open>src/kernel/memory/pmm.c\<close>: the physical memory manager, a first-fit allocator of
  4 KB frames over the bitmap.  The module's two static variables are the record
  \<open>pmm\<close>; the bitmap's words live in memory.  The locale \<open>frame_source\<close> is what
  the paging code and the virtual memory manager rely on.
\<close>

section \<open>Operations\<close>

record pmm =
  frame_bitmap :: Bitmap
  total_frames :: u32

definition PMM_FRAME_SIZE :: u32 where
  "PMM_FRAME_SIZE = 4096"

definition pmm_init :: "u32 \<Rightarrow> u32 \<Rightarrow> mem \<Rightarrow> u32 \<times> pmm \<times> mem" where
  "pmm_init total_ram_bytes bitmap_start_addr m =
     (let frames = total_ram_bytes div PMM_FRAME_SIZE;
          b = \<lparr>storage = bitmap_start_addr, total_bits = frames\<rparr>;
          bitmap_size_uint32s = frames div 32;
          bitmap_size_uint32s =
            (if frames mod 32 \<noteq> 0 then bitmap_size_uint32s + 1 else bitmap_size_uint32s);
          total_bitmap_bytes = bitmap_size_uint32s * 4;
          m = bitmap_clear_all b m;
          next_free_address = bitmap_start_addr + total_bitmap_bytes;
          frames_to_reserve = next_free_address div PMM_FRAME_SIZE;
          m = fold (bitmap_set b) (map U32 [0..<unat frames_to_reserve]) m
      in (next_free_address, \<lparr>frame_bitmap = b, total_frames = frames\<rparr>, m))"

fun pmm_allocate_loop :: "Bitmap \<Rightarrow> u32 list \<Rightarrow> mem \<Rightarrow> u32 \<times> mem" where
  "pmm_allocate_loop b [] m = (0, m)"
| "pmm_allocate_loop b (bit_index # rest) m =
     (if \<not> bitmap_test b bit_index m
      then (bit_index * PMM_FRAME_SIZE, bitmap_set b bit_index m)
      else pmm_allocate_loop b rest m)"

definition pmm_allocate_frame :: "pmm \<Rightarrow> mem \<Rightarrow> u32 \<times> mem" where
  "pmm_allocate_frame p m =
     pmm_allocate_loop (frame_bitmap p)
       (map U32 [0..<unat (total_bits (frame_bitmap p))]) m"

definition pmm_free_frame :: "pmm \<Rightarrow> u32 \<Rightarrow> mem \<Rightarrow> mem" where
  "pmm_free_frame p frame_physical_addr m =
     bitmap_clear (frame_bitmap p) (frame_physical_addr div PMM_FRAME_SIZE) m"

section \<open>The contract of a frame source\<close>

locale frame_source =
  fixes alloc :: "'s \<Rightarrow> u32 \<times> 's"
    and release :: "u32 \<Rightarrow> 's \<Rightarrow> 's"
    and used :: "u32 \<Rightarrow> 's \<Rightarrow> bool"
    and wf :: bool
  assumes alloc_grants:
      "wf \<Longrightarrow> alloc s = (a, s') \<Longrightarrow> a \<noteq> 0 \<Longrightarrow>
        a mod 4096 = 0 \<and> \<not> used (a div 4096) s \<and>
        (\<forall>f. used f s' \<longleftrightarrow> f = a div 4096 \<or> used f s)"
    and alloc_refuses: "wf \<Longrightarrow> used 0 s \<Longrightarrow> alloc s = (0, s') \<Longrightarrow> s' = s"
    and release_frees: "wf \<Longrightarrow> used f (release a s) \<longleftrightarrow> f \<noteq> a div 4096 \<and> used f s"
begin

primrec alloc_many :: "nat \<Rightarrow> 's \<Rightarrow> u32 list \<times> 's" where
  "alloc_many 0 s = ([], s)"
| "alloc_many (Suc n) s =
     (let (a, s) = alloc s; (as, s) = alloc_many n s in (a # as, s))"

lemma alloc_many_fresh:
  assumes "wf" "alloc_many n s = (as, s')" "0 \<notin> set as"
  shows "distinct as \<and> (\<forall>a \<in> set as. \<not> used (a div 4096) s \<and> used (a div 4096) s')
    \<and> (\<forall>f. used f s \<longrightarrow> used f s')"
  using assms(2,3)
proof (induction n arbitrary: s as)
  case (Suc n)
  obtain a s1 where a: "alloc s = (a, s1)" by fastforce
  obtain bs s2 where bs: "alloc_many n s1 = (bs, s2)" by fastforce
  from a bs Suc.prems have eqs: "as = a # bs" "s' = s2" "a \<noteq> 0" "0 \<notin> set bs" by auto
  from alloc_grants [OF assms(1) a \<open>a \<noteq> 0\<close>] Suc.IH [OF bs [folded eqs(2)] eqs(4)]
  show ?case unfolding eqs by fastforce
qed simp

lemma release_alloc:
  assumes "wf" "alloc s = (a, s')" "a \<noteq> 0"
  shows "used f (release a s') \<longleftrightarrow> used f s"
  using alloc_grants [OF assms] release_frees [OF assms(1)] by auto

end

section \<open>The physical memory manager implements it\<close>

definition pmm_ok :: "pmm \<Rightarrow> bool" where
  "pmm_ok p \<longleftrightarrow> bitmap_ok (frame_bitmap p) \<and> unat (total_bits (frame_bitmap p)) \<le> 1048576"

definition frame_used :: "pmm \<Rightarrow> u32 \<Rightarrow> mem \<Rightarrow> bool" where
  "frame_used p f m = bitmap_test (frame_bitmap p) f m"

text \<open>The frames of the machine: the frame numbers below the number of frames.\<close>

definition frame_exists :: "pmm \<Rightarrow> u32 \<Rightarrow> bool" where
  "frame_exists p f \<longleftrightarrow> f < total_bits (frame_bitmap p)"

lemma frame_used_exists: "frame_used p f m \<Longrightarrow> frame_exists p f"
  by (auto simp: frame_used_def frame_exists_def bitmap_test_bit)

lemma allocate_loop_takes:
  "pmm_allocate_loop b (xs @ i # ys) m = (i * PMM_FRAME_SIZE, bitmap_set b i m)"
  if "\<forall>j \<in> set xs. bitmap_test b j m" and "\<not> bitmap_test b i m"
  using that by (induction xs) auto

lemma allocate_loop_full:
  "\<forall>j \<in> set is. bitmap_test b j m \<Longrightarrow> pmm_allocate_loop b is m = (0, m)"
  by (induction "is") auto

lemma frame_list_split:
  assumes "f < n"
  shows "map U32 [0..<unat n] =
    map U32 [0..<unat f] @ f # map U32 [Suc (unat f)..<unat n]"
proof -
  from assms have "unat f < unat n" by (simp add: word_less_nat_alt)
  then have "[0..<unat n] = [0..<unat f] @ unat f # [Suc (unat f)..<unat n]"
    by (metis le_add1 less_imp_le_nat less_imp_add_positive upt_add_eq_append
        upt_conv_Cons add_0)
  then show ?thesis by simp
qed

lemma in_frame_list: "j \<in> set (map U32 [0..<unat n]) \<longleftrightarrow> j < n"
proof -
  have "j < n \<Longrightarrow> j = U32 (unat j) \<and> unat j < unat n" by (simp add: word_less_nat_alt)
  moreover have "U32 i < n" if "i < unat n" for i
    using that unat_u32_bound [of n] by (simp add: word_less_nat_alt unat_of_nat_u32)
  ultimately show ?thesis by (auto simp: image_iff intro!: bexI [of _ "unat j"])
qed

lemma pmm_allocate_first:
  assumes "frame_exists p f" "\<not> frame_used p f m" "\<forall>g<f. frame_used p g m"
  shows "pmm_allocate_frame p m = (f * 4096, bitmap_set (frame_bitmap p) f m)"
  unfolding pmm_allocate_frame_def frame_list_split [OF assms(1) [unfolded frame_exists_def]]
  using assms in_frame_list [of _ f]
  by (subst allocate_loop_takes) (auto simp: frame_used_def PMM_FRAME_SIZE_def)

lemma pmm_allocate_full:
  assumes "\<And>f. frame_exists p f \<Longrightarrow> frame_used p f m"
  shows "pmm_allocate_frame p m = (0, m)"
  unfolding pmm_allocate_frame_def
  using assms in_frame_list [of _ "total_bits (frame_bitmap p)"]
  by (intro allocate_loop_full) (auto simp: frame_used_def frame_exists_def)

lemma first_free_frame:
  assumes "frame_exists p g" "\<not> frame_used p g m"
  obtains f where "frame_exists p f" "\<not> frame_used p f m" "\<forall>h<f. frame_used p h m"
    "f \<le> g"
proof -
  define f where "f = (LEAST f. \<not> frame_used p f m)"
  have "\<not> frame_used p f m"
    using LeastI [of "\<lambda>f. \<not> frame_used p f m", OF assms(2)] by (simp add: f_def)
  moreover have "f \<le> g"
    using assms(2) by (auto simp: f_def intro: Least_le)
  moreover have "\<forall>h<f. frame_used p h m"
    using not_less_Least [of _ "\<lambda>f. \<not> frame_used p f m"] by (auto simp: f_def)
  moreover from \<open>f \<le> g\<close> have "frame_exists p f"
    using assms(1) \<open>f \<le> g\<close> by (auto simp: frame_exists_def)
  ultimately show ?thesis using that by blast
qed

lemma frame_address:
  assumes "pmm_ok p" "frame_exists p f"
  shows "f * 4096 div 4096 = f" "f * 4096 mod 4096 = 0" "f \<noteq> 0 \<Longrightarrow> f * 4096 \<noteq> 0"
proof -
  have "unat f < 1048576"
    using assms by (auto simp: pmm_ok_def frame_exists_def word_less_nat_alt)
  then have *: "unat (f * 4096) = unat f * 4096"
    by (subst unat_mult_u32) simp_all
  then show "f * 4096 div 4096 = f" "f * 4096 mod 4096 = 0"
    by (simp_all add: word_unat_eq_iff unat_div unat_mod)
  show "f \<noteq> 0 \<Longrightarrow> f * 4096 \<noteq> 0"
    using * by (auto simp: word_unat_eq_iff)
qed

lemma pmm_allocate_cases:
  assumes "pmm_ok p"
  obtains (full) "\<And>f. frame_exists p f \<Longrightarrow> frame_used p f m" "pmm_allocate_frame p m = (0, m)"
  | (grant) f where "frame_exists p f" "\<not> frame_used p f m" "\<forall>h<f. frame_used p h m"
      "pmm_allocate_frame p m = (f * 4096, bitmap_set (frame_bitmap p) f m)"
proof (cases "\<exists>g. frame_exists p g \<and> \<not> frame_used p g m")
  case True
  then obtain g where "frame_exists p g" "\<not> frame_used p g m" by blast
  then obtain f where "frame_exists p f" "\<not> frame_used p f m" "\<forall>h<f. frame_used p h m"
    by (rule first_free_frame)
  then show ?thesis using grant pmm_allocate_first by blast
next
  case False
  then show ?thesis using full pmm_allocate_full by blast
qed

lemma frame_used_set:
  "pmm_ok p \<Longrightarrow> frame_exists p f \<Longrightarrow>
    frame_used p g (bitmap_set (frame_bitmap p) f m) \<longleftrightarrow> g = f \<or> frame_used p g m"
  by (auto simp: frame_used_def pmm_ok_def frame_exists_def bm.test_mark)

interpretation pm: frame_source "pmm_allocate_frame p" "pmm_free_frame p" "frame_used p"
    "pmm_ok p" for p
proof unfold_locales
  fix s a s'
  assume ok: "pmm_ok p" and al: "pmm_allocate_frame p s = (a, s')" and "a \<noteq> 0"
  from ok show "a mod 4096 = 0 \<and> \<not> frame_used p (a div 4096) s \<and>
        (\<forall>f. frame_used p f s' \<longleftrightarrow> f = a div 4096 \<or> frame_used p f s)"
  proof (cases rule: pmm_allocate_cases [where m = s])
    case full
    with al \<open>a \<noteq> 0\<close> show ?thesis by simp
  next
    case (grant f)
    with al have "a = f * 4096" "s' = bitmap_set (frame_bitmap p) f s" by simp_all
    with grant ok show ?thesis by (simp add: frame_address frame_used_set)
  qed
next
  fix s s'
  assume ok: "pmm_ok p" and "frame_used p 0 s" and al: "pmm_allocate_frame p s = (0, s')"
  from ok show "s' = s"
  proof (cases rule: pmm_allocate_cases [where m = s])
    case full
    with al show ?thesis by simp
  next
    case (grant f)
    with \<open>frame_used p 0 s\<close> have "f \<noteq> 0" by auto
    with grant ok al frame_address(3) show ?thesis by fastforce
  qed
next
  fix f a s
  show "pmm_ok p \<Longrightarrow> frame_used p f (pmm_free_frame p a s) \<longleftrightarrow>
      f \<noteq> a div 4096 \<and> frame_used p f s"
    by (auto simp: pmm_ok_def frame_used_def pmm_free_frame_def PMM_FRAME_SIZE_def
        bm.test_unmark)
qed

section \<open>Initialisation\<close>

text \<open>
  The bitmap of a machine with \<open>ram\<close> bytes at \<open>start\<close> lies inside the address
  space.
\<close>

definition pmm_layout :: "u32 \<Rightarrow> u32 \<Rightarrow> bool" where
  "pmm_layout ram start \<longleftrightarrow> aligned4 start \<and>
     unat start + 4 * ((unat ram div 4096 + 31) div 32) < 4294967296"

lemma pmm_init_parts:
  assumes "pmm_layout ram start" "pmm_init ram start m = (nxt, p, m')"
  shows "frame_bitmap p = \<lparr>storage = start, total_bits = ram div 4096\<rparr>"
    and "total_frames p = ram div 4096"
    and "unat nxt = unat start + 4 * bitmap_words (frame_bitmap p)"
    and "pmm_ok p"
    and "m' = fold (bitmap_set (frame_bitmap p)) (map U32 [0..<unat (nxt div 4096)])
           (bitmap_clear_all (frame_bitmap p) m)"
proof -
  show b: "frame_bitmap p = \<lparr>storage = start, total_bits = ram div 4096\<rparr>"
    and "total_frames p = ram div 4096"
    using assms(2) by (auto simp: pmm_init_def Let_def PMM_FRAME_SIZE_def)
  define words where "words = (if ram div 4096 mod 32 \<noteq> 0 then ram div 4096 div 32 + 1
      else ram div 4096 div 32)"
  have w: "unat words = bitmap_words (frame_bitmap p)"
    using clear_all_words [of "frame_bitmap p"] by (simp add: words_def b cong: if_cong)
  have room: "unat start + 4 * unat words < 4294967296"
    using assms(1) unfolding w by (simp add: b bitmap_words_def pmm_layout_def unat_div)
  have nxt: "nxt = start + words * 4"
    using assms(2) unfolding words_def
    by (auto simp: pmm_init_def Let_def PMM_FRAME_SIZE_def)
  have "unat (words * 4) = unat words * 4"
    using room by (subst unat_mult_u32) simp_all
  then show n: "unat nxt = unat start + 4 * bitmap_words (frame_bitmap p)"
    unfolding nxt using room by (subst unat_add_u32) (simp_all add: w)
  show "pmm_ok p"
    using assms(1) room unat_u32_bound [of ram] unfolding w
    by (auto simp: pmm_ok_def bitmap_ok_def b fits_def pmm_layout_def unat_div
        less_mult_imp_div_less intro: less_imp_le)
  show "m' = fold (bitmap_set (frame_bitmap p)) (map U32 [0..<unat (nxt div 4096)])
           (bitmap_clear_all (frame_bitmap p) m)"
    using assms(2) by (auto simp: pmm_init_def Let_def PMM_FRAME_SIZE_def)
qed

lemma pmm_init_used:
  assumes "pmm_layout ram start" "pmm_init ram start m = (nxt, p, m')"
  shows "frame_used p f m' \<longleftrightarrow> f < ram div 4096 \<and> f < nxt div 4096"
proof -
  note parts = pmm_init_parts [OF assms]
  have ok: "bitmap_ok (frame_bitmap p)" using parts(4) by (simp add: pmm_ok_def)
  show ?thesis
    unfolding frame_used_def parts(5) bm.test_fold_mark [OF ok] in_frame_list
    using bitmap_clear_all_empty [OF ok] by (auto simp: parts(1))
qed

lemma fold_bitmap_set_frame:
  "bitmap_ok b \<Longrightarrow> \<not> in_storage b x \<Longrightarrow> fold (bitmap_set b) is m x = m x"
  by (induction "is" arbitrary: m) (simp_all add: bitmap_set_frame)

lemma pmm_init_frame:
  assumes "pmm_layout ram start" "pmm_init ram start m = (nxt, p, m')"
    and "unat x < unat start \<or> unat nxt \<le> unat x"
  shows "m' x = m x"
proof -
  note parts = pmm_init_parts [OF assms(1,2)]
  have "\<not> in_storage (frame_bitmap p) x"
    using assms(3) parts(3) by (auto simp: in_storage_def in_range_def parts(1))
  moreover have "bitmap_ok (frame_bitmap p)" using parts(4) by (simp add: pmm_ok_def)
  ultimately show ?thesis
    unfolding parts(5) by (simp add: fold_bitmap_set_frame bitmap_clear_all_frame)
qed

lemma pmm_allocate_frame_memory:
  assumes "pmm_ok p" "pmm_allocate_frame p m = (a, m')" "\<not> in_storage (frame_bitmap p) x"
  shows "m' x = m x"
  using assms(1)
proof (cases rule: pmm_allocate_cases [where m = m])
  case full
  with assms(2) show ?thesis by simp
next
  case (grant f)
  with assms show ?thesis by (auto simp: pmm_ok_def bitmap_set_frame)
qed

section \<open>Runs of the allocator\<close>

text \<open>
  A run of allocations and frees from a memory \<open>m0\<close>, together with the frames that
  were granted and not given back.  Clients free only frames they own.
\<close>

inductive frame_run :: "pmm \<Rightarrow> mem \<Rightarrow> mem \<Rightarrow> u32 set \<Rightarrow> bool" for p m0 where
  start: "frame_run p m0 m0 {}"
| grant: "frame_run p m0 m own \<Longrightarrow> pmm_allocate_frame p m = (a, m') \<Longrightarrow> a \<noteq> 0 \<Longrightarrow>
    frame_run p m0 m' (insert a own)"
| refuse: "frame_run p m0 m own \<Longrightarrow> pmm_allocate_frame p m = (0, m') \<Longrightarrow>
    frame_run p m0 m' own"
| free: "frame_run p m0 m own \<Longrightarrow> a \<in> own \<Longrightarrow>
    frame_run p m0 (pmm_free_frame p a m) (own - {a})"

lemma page_aligned_eq:
  "(a :: u32) mod 4096 = 0 \<Longrightarrow> b mod 4096 = 0 \<Longrightarrow> a div 4096 = b div 4096 \<Longrightarrow> a = b"
  by (metis div_mult_mod_eq)

lemma frame_run_invariant:
  assumes "frame_run p m0 m own" "pmm_ok p" "frame_used p 0 m0"
  shows "(\<forall>a \<in> own. a mod 4096 = 0 \<and> \<not> frame_used p (a div 4096) m0) \<and>
    (\<forall>f. frame_used p f m \<longleftrightarrow> frame_used p f m0 \<or> f \<in> (\<lambda>a. a div 4096) ` own)"
  using assms(1)
proof induction
  case (grant m own a m')
  with pm.alloc_grants [OF assms(2) grant.hyps(2,3)] show ?case by auto
next
  case (refuse m own m')
  then have "frame_used p 0 m" using assms(3) by blast
  then have "m' = m" using pm.alloc_refuses [OF assms(2)] refuse.hyps(2) by blast
  with refuse show ?case by simp
next
  case (free m own a)
  then have "b = a" if "b \<in> own" "b div 4096 = a div 4096" for b
    using that page_aligned_eq by blast
  with free show ?case by (auto simp: pm.release_frees [OF assms(2)])
qed simp

section \<open>Properties\<close>

text \<open>C8: initialisation.  After \<open>pmm_init\<close> the manager is well formed, it has
  \<open>ram / 4096\<close> frames, it returns the address after the bitmap, exactly the existing
  frames below that address's frame are reserved, and only the bitmap was written.\<close>

theorem pmm_init_spec:
  assumes "pmm_layout ram start" "pmm_init ram start m = (nxt, p, m')"
  shows "pmm_ok p \<and> total_frames p = ram div 4096 \<and>
    unat nxt = unat start + 4 * ((unat ram div 4096 + 31) div 32) \<and>
    (\<forall>f. frame_used p f m' \<longleftrightarrow> f < ram div 4096 \<and> f < nxt div 4096) \<and>
    (\<forall>x. unat x < unat start \<or> unat nxt \<le> unat x \<longrightarrow> m' x = m x)"
  using pmm_init_parts [OF assms] pmm_init_used [OF assms] pmm_init_frame [OF assms]
  by (simp add: bitmap_words_def unat_div)

theorem pmm_init_spec_witness:
  "\<exists>nxt p m'. pmm_layout 0x800000 0x400000 \<and>
     pmm_init 0x800000 0x400000 (\<lambda>_. 0) = (nxt, p, m') \<and> unat nxt = 0x400100 \<and>
     frame_used p 1023 m' \<and> \<not> frame_used p 1024 m'"
proof -
  obtain nxt p m' where init: "pmm_init 0x800000 0x400000 (\<lambda>_. 0) = (nxt, p, m')"
    by (metis prod_cases3)
  have lay: "pmm_layout 0x800000 0x400000" by (simp add: pmm_layout_def aligned4_def)
  note spec = pmm_init_spec [OF lay init]
  then have "nxt = 0x400100" by (simp add: word_unat_eq_iff)
  with lay init spec show ?thesis by (intro exI [of _ nxt] exI [of _ p] exI [of _ m']) simp
qed

text \<open>C7: allocation is first fit.  If some existing frame is free, the lowest free frame is
  marked and its address (never the failure value 0 while frame 0 is reserved) is returned;
  if every frame is used, 0 is returned and nothing changes.\<close>

theorem pmm_allocate_first_fit:
  assumes "pmm_ok p" "frame_used p 0 m"
  shows "(\<exists>f. frame_exists p f \<and> \<not> frame_used p f m \<and> (\<forall>g<f. frame_used p g m) \<and> f \<noteq> 0 \<and>
      fst (pmm_allocate_frame p m) = f * 4096 \<and> f * 4096 \<noteq> 0 \<and>
      (\<forall>g. frame_used p g (snd (pmm_allocate_frame p m)) \<longleftrightarrow> g = f \<or> frame_used p g m))
    \<or> (\<forall>f. frame_exists p f \<longrightarrow> frame_used p f m) \<and> pmm_allocate_frame p m = (0, m)"
  using assms(1)
proof (cases rule: pmm_allocate_cases [where m = m])
  case (grant f)
  with assms have "f \<noteq> 0" by auto
  with grant assms frame_address(3) [OF assms(1) grant(1)] show ?thesis
    by (auto simp: frame_used_set)
qed blast

theorem pmm_allocate_first_fit_witness:
  "\<exists>p m. pmm_ok p \<and> frame_used p 0 m \<and> fst (pmm_allocate_frame p m) = 0x1000"
proof -
  let ?p = "\<lparr>frame_bitmap = \<lparr>storage = 0x100, total_bits = 2\<rparr>, total_frames = 2\<rparr>"
  let ?m = "(\<lambda>_. 0)(0x100 := 1) :: mem"
  have ok: "pmm_ok ?p"
    by (simp add: pmm_ok_def bitmap_ok_def aligned4_def fits_def bitmap_words_def)
  have u0: "frame_used ?p 0 ?m" and u1: "\<not> frame_used ?p 1 ?m"
    by (simp_all add: frame_used_def bitmap_test_def load32_def)
  have ex: "frame_exists ?p f \<longleftrightarrow> f = 0 \<or> f = 1" for f
    by (auto simp: frame_exists_def word_less_nat_alt word_unat_eq_iff)
  from pmm_allocate_first_fit [OF ok u0] u0 u1 have "fst (pmm_allocate_frame ?p ?m) = 0x1000"
    by (auto simp: ex)
  with ok u0 show ?thesis by blast
qed

text \<open>C6: no frame is owned twice.  In every run of allocations and frees, a granted frame is
  page aligned, was not in use when the run started, and is not among the frames currently
  owned; the frames in use are exactly those reserved at the start and those owned.\<close>

theorem pmm_no_double_grant:
  assumes "frame_run p m0 m own" "pmm_ok p" "frame_used p 0 m0"
    and "pmm_allocate_frame p m = (a, m')" "a \<noteq> 0"
  shows "a mod 4096 = 0 \<and> a \<notin> own \<and> \<not> frame_used p (a div 4096) m0 \<and>
    (\<forall>f. frame_used p f m \<longleftrightarrow> frame_used p f m0 \<or> f \<in> (\<lambda>a. a div 4096) ` own)"
  using frame_run_invariant [OF assms(1-3)] pm.alloc_grants [OF assms(2,4,5)] by auto

theorem pmm_no_double_grant_witness:
  "\<exists>p m0 m own a m'. frame_run p m0 m own \<and> own \<noteq> {} \<and> pmm_ok p \<and> frame_used p 0 m0 \<and>
     pmm_allocate_frame p m = (a, m') \<and> a \<noteq> 0 \<and> a \<notin> own"
proof -
  let ?p = "\<lparr>frame_bitmap = \<lparr>storage = 0x100, total_bits = 3\<rparr>, total_frames = 3\<rparr>"
  let ?m = "(\<lambda>_. 0)(0x100 := 1) :: mem"
  let ?m1 = "bitmap_set (frame_bitmap ?p) 1 ?m"
  let ?m2 = "bitmap_set (frame_bitmap ?p) 2 ?m1"
  have ok: "pmm_ok ?p"
    by (simp add: pmm_ok_def bitmap_ok_def aligned4_def fits_def bitmap_words_def)
  have u: "frame_used ?p 0 ?m" by (simp add: frame_used_def bitmap_test_def load32_def)
  have al: "pmm_allocate_frame ?p ?m = (0x1000, ?m1)" "pmm_allocate_frame ?p ?m1 = (0x2000, ?m2)"
    by (simp_all add: pmm_allocate_frame_def bitmap_test_def bitmap_set_def load32_def store32_def
        PMM_FRAME_SIZE_def upt_rec word_le_nat_alt numeral_2_eq_2 [symmetric])
  have run: "frame_run ?p ?m ?m1 {0x1000}"
    using frame_run.grant [OF frame_run.start al(1)] by simp
  from pmm_no_double_grant [OF run ok u al(2)] have "0x2000 \<notin> {0x1000 :: u32}" by simp
  with run ok u al(2) show ?thesis
    by (intro exI [of _ ?p] exI [of _ ?m] exI [of _ ?m1] exI [of _ "{0x1000}"]
        exI [of _ "0x2000"] exI [of _ ?m2]) simp
qed

text \<open>A frame that is given back is the next one granted.\<close>

theorem pmm_free_allocate_roundtrip:
  assumes "pmm_ok p" "pmm_allocate_frame p m = (a, m1)" "a \<noteq> 0"
  shows "fst (pmm_allocate_frame p (pmm_free_frame p a m1)) = a"
  using assms(1)
proof (cases rule: pmm_allocate_cases [where m = m])
  case (grant f)
  with assms have a: "a = f * 4096" by simp
  have "frame_used p g (pmm_free_frame p a m1) \<longleftrightarrow> frame_used p g m" for g
    by (rule pm.release_alloc [OF assms])
  with grant show ?thesis unfolding a by (subst pmm_allocate_first) auto
qed (use assms in simp)

theorem pmm_free_allocate_roundtrip_witness:
  "\<exists>p m a m1. pmm_ok p \<and> pmm_allocate_frame p m = (a, m1) \<and> a \<noteq> 0 \<and>
     fst (pmm_allocate_frame p (pmm_free_frame p a m1)) = a"
proof -
  let ?p = "\<lparr>frame_bitmap = \<lparr>storage = 0x100, total_bits = 2\<rparr>, total_frames = 2\<rparr>"
  let ?m = "(\<lambda>_. 0)(0x100 := 1) :: mem"
  have ok: "pmm_ok ?p"
    by (simp add: pmm_ok_def bitmap_ok_def aligned4_def fits_def bitmap_words_def)
  obtain m1 where al: "pmm_allocate_frame ?p ?m = (0x1000, m1)"
    by (simp add: pmm_allocate_frame_def bitmap_test_def load32_def PMM_FRAME_SIZE_def upt_rec)
  from ok al pmm_free_allocate_roundtrip [OF ok al] show ?thesis
    by (intro exI [of _ ?p] exI [of _ ?m] exI [of _ "0x1000"] exI [of _ m1]) simp
qed

text \<open>The frame that holds the end of the bitmap is not reserved.  \<open>pmm_init\<close> rounds
  the number of frames to reserve down, so when the bitmap does not end on a page boundary
  the first frame granted is the one holding the bitmap's last bytes (and the start of the
  kernel heap, which begins at the returned address).\<close>

theorem pmm_init_tail_unreserved:
  assumes "pmm_layout ram start" "pmm_init ram start m = (nxt, p, m')"
    and "nxt mod 4096 \<noteq> 0" "nxt div 4096 < ram div 4096"
  shows "fst (pmm_allocate_frame p m') = nxt div 4096 * 4096 \<and>
    in_range nxt (fst (pmm_allocate_frame p m')) 4096 \<and>
    in_range (nxt - 1) (fst (pmm_allocate_frame p m')) 4096"
proof -
  note parts = pmm_init_parts [OF assms(1,2)]
  let ?f = "nxt div 4096"
  have ex: "frame_exists p ?f" using assms(4) by (simp add: frame_exists_def parts(1))
  moreover have "\<forall>g<?f. frame_used p g m'"
    using assms(4) by (auto simp: pmm_init_used [OF assms(1,2)])
  ultimately have al: "fst (pmm_allocate_frame p m') = ?f * 4096"
    using pmm_init_used [OF assms(1,2), of ?f] by (subst pmm_allocate_first) auto
  have "unat (?f * 4096) = unat ?f * 4096"
    using unat_u32_bound [of nxt]
    by (subst unat_mult_u32) (simp_all add: unat_div le_less_trans [OF div_times_less_eq_dividend])
  then have fa: "unat (?f * 4096) = unat nxt div 4096 * 4096" by (simp add: unat_div)
  have "unat nxt mod 4096 \<noteq> 0" using assms(3) by (simp add: word_unat_eq_iff unat_mod)
  then have "unat nxt div 4096 * 4096 < unat nxt" "unat nxt < unat nxt div 4096 * 4096 + 4096"
    using div_mult_mod_eq [of "unat nxt" 4096] dividend_less_div_times [of 4096 "unat nxt"]
    by linarith+
  moreover from this have "unat (nxt - 1) = unat nxt - 1"
    by (subst unat_diff_u32) (auto simp: word_le_nat_alt)
  ultimately show ?thesis unfolding al in_range_def fa by auto
qed

theorem pmm_init_tail_unreserved_witness:
  "\<exists>nxt p m'. pmm_init 0xBFF7FC00 0x400000 (\<lambda>_. 0) = (nxt, p, m') \<and> nxt = 0x417FF0 \<and>
     fst (pmm_allocate_frame p m') = 0x417000"
proof -
  obtain nxt p m' where init: "pmm_init 0xBFF7FC00 0x400000 (\<lambda>_. 0) = (nxt, p, m')"
    by (metis prod_cases3)
  have lay: "pmm_layout 0xBFF7FC00 0x400000" by (simp add: pmm_layout_def aligned4_def)
  have nxt: "nxt = 0x417FF0"
    using pmm_init_parts(1,3) [OF lay init]
    by (simp add: word_unat_eq_iff bitmap_words_def unat_div)
  with pmm_init_tail_unreserved [OF lay init] init show ?thesis by auto
qed

end
