(* ===== verification/Kheap.thy ===== *)
theory Kheap
  imports Memory
begin

text \<open>
  \<^verbatim>\<open>src/kernel/klibc/kmemory.c\<close>: the kernel heap, a first-fit free list of blocks
  with in-line headers.  A \<open>MemoryBlockHeader\<close> is 12 bytes: \<open>size\<close> at offset 0,
  the byte \<open>is_free\<close> at offset 4 (padded) and \<open>next\<close> at offset 8.  The static
  \<open>heap_start\<close> is the first argument of \<open>kmalloc\<close> and \<open>kfree\<close>.  Both loops
  follow \<open>next\<close> pointers, so they are option-valued (\<open>None\<close>: the loop does not
  end) and are shown to return on every well-formed heap.
\<close>

section \<open>Headers\<close>

definition hdr_size :: "mem \<Rightarrow> u32 \<Rightarrow> u32" where
  "hdr_size m a = load32 m a"

definition hdr_is_free :: "mem \<Rightarrow> u32 \<Rightarrow> bool" where
  "hdr_is_free m a \<longleftrightarrow> load8 m (a + 4) \<noteq> 0"

definition hdr_next :: "mem \<Rightarrow> u32 \<Rightarrow> u32" where
  "hdr_next m a = load32 m (a + 8)"

definition set_size :: "u32 \<Rightarrow> u32 \<Rightarrow> mem \<Rightarrow> mem" where
  "set_size a v m = store32 a v m"

definition set_is_free :: "u32 \<Rightarrow> bool \<Rightarrow> mem \<Rightarrow> mem" where
  "set_is_free a v m = store8 (a + 4) (if v then 1 else 0) m"

definition set_next :: "u32 \<Rightarrow> u32 \<Rightarrow> mem \<Rightarrow> mem" where
  "set_next a v m = store32 (a + 8) v m"

section \<open>Operations\<close>

definition kmalloc_init :: "u32 \<Rightarrow> mem \<Rightarrow> u32 \<times> mem" where
  "kmalloc_init dynamic_heap_start m =
     (let heap_start = dynamic_heap_start;
          identity_mapped_cieling = 0x007FFFFF;
          kernel_heap_size = identity_mapped_cieling - dynamic_heap_start;
          m = set_size heap_start (kernel_heap_size - 12) m;
          m = set_is_free heap_start True m;
          m = set_next heap_start 0 m
      in (heap_start, m))"

definition kmalloc_take :: "u32 \<Rightarrow> u32 \<Rightarrow> mem \<Rightarrow> u32 \<times> mem" where
  "kmalloc_take nbytes cur m =
     (let m =
        (if nbytes + 12 + 4 \<le> hdr_size m cur then
           (let new_block = cur + 12 + nbytes;
                m = set_size new_block (hdr_size m cur - nbytes - 12) m;
                m = set_is_free new_block True m;
                m = set_next new_block (hdr_next m cur) m;
                m = set_size cur nbytes m
            in set_next cur new_block m)
         else m);
        m = set_is_free cur False m
      in (cur + 12, m))"

partial_function (option) kmalloc_loop :: "u32 \<Rightarrow> u32 \<Rightarrow> mem \<Rightarrow> (u32 \<times> mem) option" where
  "kmalloc_loop nbytes cur m =
     (if cur = 0 then Some (0, m)
      else if hdr_is_free m cur \<and> nbytes \<le> hdr_size m cur then Some (kmalloc_take nbytes cur m)
      else kmalloc_loop nbytes (hdr_next m cur) m)"

definition kmalloc :: "u32 \<Rightarrow> u32 \<Rightarrow> mem \<Rightarrow> (u32 \<times> mem) option" where
  "kmalloc heap_start nbytes m =
     (if nbytes = 0 then Some (0, m) else kmalloc_loop nbytes heap_start m)"

partial_function (option) kfree_loop :: "u32 \<Rightarrow> mem \<Rightarrow> mem option" where
  "kfree_loop cur m =
     (if cur \<noteq> 0 \<and> hdr_next m cur \<noteq> 0 then
        if hdr_is_free m cur \<and> hdr_is_free m (hdr_next m cur) then
          (let m = set_size cur (12 + hdr_size m (hdr_next m cur)) m;
               m = set_next cur (hdr_next m (hdr_next m cur)) m
           in kfree_loop cur m)
        else kfree_loop (hdr_next m cur) m
      else Some m)"

definition kfree :: "u32 \<Rightarrow> u32 \<Rightarrow> mem \<Rightarrow> mem option" where
  "kfree heap_start ptr m =
     (if ptr = 0 then Some m
      else let block = ptr - 12; m = set_is_free block True m
           in kfree_loop heap_start m)"

section \<open>Header reads and writes\<close>

lemmas hdr_defs = hdr_size_def hdr_is_free_def hdr_next_def set_size_def set_is_free_def
  set_next_def

lemma header_offsets:
  "fits a 12 \<Longrightarrow> unat (a + 4) = unat a + 4" "fits a 12 \<Longrightarrow> unat (a + 8) = unat a + 8"
  using unat_offset [of a 12 4] unat_offset [of a 12 8] by simp_all

lemma header_fits: "fits a 12 \<Longrightarrow> fits a 4" "fits a 12 \<Longrightarrow> fits (a + 8) 4"
  by (simp_all add: fits_def header_offsets)

lemma header_same [simp]:
  assumes "fits a 12"
  shows "hdr_size (set_size a v m) a = v" "hdr_is_free (set_size a v m) a = hdr_is_free m a"
    "hdr_next (set_size a v m) a = hdr_next m a"
    "hdr_size (set_is_free a f m) a = hdr_size m a" "hdr_is_free (set_is_free a f m) a = f"
    "hdr_next (set_is_free a f m) a = hdr_next m a"
    "hdr_size (set_next a n m) a = hdr_size m a"
    "hdr_is_free (set_next a n m) a = hdr_is_free m a" "hdr_next (set_next a n m) a = n"
  using assms header_offsets [OF assms] header_fits [OF assms]
  by (simp_all add: hdr_defs load32_store32_apart load8_store32_apart load32_store8_apart
      apart_def in_range_def)

lemma header_writes:
  assumes "fits a 12"
  shows "changed_only_in (unat a) (unat a + 12) m (set_size a v m)"
    "changed_only_in (unat a) (unat a + 12) m (set_is_free a f m)"
    "changed_only_in (unat a) (unat a + 12) m (set_next a n m)"
  using assms header_offsets [OF assms] header_fits [OF assms]
  by (auto simp: hdr_defs intro!: changed_only_in_store32 changed_only_in_store8)

text \<open>A header that no write touched reads the same.\<close>

definition same_header :: "mem \<Rightarrow> mem \<Rightarrow> u32 \<Rightarrow> bool" where
  "same_header m m' a \<longleftrightarrow> hdr_size m' a = hdr_size m a \<and> hdr_is_free m' a = hdr_is_free m a \<and>
     hdr_next m' a = hdr_next m a"

lemma same_header_changed:
  assumes "changed_only_in lo hi m m'" "fits a 12" "unat a + 12 \<le> lo \<or> hi \<le> unat a"
  shows "same_header m m' a"
  using assms header_offsets [OF assms(2)] header_fits [OF assms(2)]
    load32_changed [OF assms(1), of a] load32_changed [OF assms(1), of "a + 8"]
    load8_changed [OF assms(1), of "a + 4"]
  by (auto simp: same_header_def hdr_size_def hdr_is_free_def hdr_next_def)

section \<open>The chain of blocks\<close>

record block =
  baddr :: u32
  bsize :: u32
  bfree :: bool

definition block_end :: "block \<Rightarrow> nat" where
  "block_end b = unat (baddr b) + 12 + unat (bsize b)"

text \<open>Following the \<open>next\<close> pointers from \<open>a\<close> visits the headers of the blocks and
  ends at \<open>z\<close>; a heap ends at \<open>NULL\<close>.\<close>

fun linked :: "mem \<Rightarrow> u32 \<Rightarrow> block list \<Rightarrow> u32 \<Rightarrow> bool" where
  "linked m a [] z \<longleftrightarrow> a = z"
| "linked m a (b # bs) z \<longleftrightarrow> a = baddr b \<and> hdr_size m (baddr b) = bsize b \<and>
     hdr_is_free m (baddr b) = bfree b \<and> linked m (hdr_next m (baddr b)) bs z"

text \<open>The blocks lie in address order below \<open>hi\<close> and do not overlap.\<close>

definition layout :: "nat \<Rightarrow> block list \<Rightarrow> bool" where
  "layout hi bs \<longleftrightarrow> hi \<le> 4294967280 \<and>
     sorted_wrt (\<lambda>b c. block_end b \<le> unat (baddr c)) bs \<and>
     (\<forall>b \<in> set bs. baddr b \<noteq> 0 \<and> block_end b \<le> hi)"

definition heap_ok :: "mem \<Rightarrow> nat \<Rightarrow> u32 \<Rightarrow> block list \<Rightarrow> bool" where
  "heap_ok m hi a bs \<longleftrightarrow> linked m a bs 0 \<and> layout hi bs"

lemma linked_append:
  "linked m a (xs @ ys) z \<longleftrightarrow> (\<exists>y. linked m a xs y \<and> linked m y ys z)"
  by (induction xs arbitrary: a) auto

lemma layout_Cons [simp]:
  "layout hi (b # bs) \<longleftrightarrow> layout hi bs \<and> baddr b \<noteq> 0 \<and> block_end b \<le> hi \<and>
     (\<forall>c \<in> set bs. block_end b \<le> unat (baddr c))"
  by (auto simp: layout_def)

lemma layout_append:
  "layout hi (xs @ ys) \<longleftrightarrow> layout hi xs \<and> layout hi ys \<and>
     (\<forall>x \<in> set xs. \<forall>y \<in> set ys. block_end x \<le> unat (baddr y))"
  by (auto simp: layout_def sorted_wrt_append)

lemma layout_fits: "layout hi bs \<Longrightarrow> b \<in> set bs \<Longrightarrow> fits (baddr b) 12"
  by (auto simp: layout_def fits_def block_end_def)

lemma layout_apart:
  "layout hi bs \<Longrightarrow> b \<in> set bs \<Longrightarrow> c \<in> set bs \<Longrightarrow> b \<noteq> c \<Longrightarrow>
    block_end b \<le> unat (baddr c) \<or> block_end c \<le> unat (baddr b)"
  by (induction bs) (auto simp: layout_def)

lemma linked_changed:
  assumes "linked m a bs z" "changed_only_in lo hi m m'" "layout lim bs"
    and "\<forall>b \<in> set bs. block_end b \<le> lo \<or> hi \<le> unat (baddr b)"
  shows "linked m' a bs z"
  using assms(1,3,4)
proof (induction bs arbitrary: a)
  case (Cons b bs)
  then have "same_header m m' (baddr b)"
    using layout_fits [OF Cons.prems(2), of b]
    by (intro same_header_changed [OF assms(2)]) (auto simp: block_end_def)
  with Cons show ?case by (auto simp: same_header_def)
qed simp

text \<open>Rewriting the blocks of one address range leaves the rest of the chain in place.\<close>

lemma replace_blocks:
  assumes ok: "heap_ok m hi a (ps @ mid @ qs)" and ch: "changed_only_in lo up m m'"
    and before: "\<forall>x \<in> set ps. block_end x \<le> lo" and after: "\<forall>y \<in> set qs. up \<le> unat (baddr y)"
    and mid: "\<And>s z. linked m s mid z \<Longrightarrow> linked m' s cs z"
    and cs: "layout hi cs" "\<forall>c \<in> set cs. lo \<le> unat (baddr c) \<and> block_end c \<le> up"
  shows "heap_ok m' hi a (ps @ cs @ qs)"
proof -
  from ok obtain s z where lk: "linked m a ps s" "linked m s mid z" "linked m z qs 0"
    and lay: "layout hi ps" "layout hi qs" "\<forall>x \<in> set ps. \<forall>y \<in> set qs. block_end x \<le> unat (baddr y)"
    by (auto simp: heap_ok_def linked_append layout_append)
  have "linked m' a ps s" using before by (intro linked_changed [OF lk(1) ch lay(1)]) simp
  moreover have "linked m' z qs 0" using after by (intro linked_changed [OF lk(3) ch lay(2)]) simp
  moreover have "linked m' s cs z" by (rule mid) (rule lk(2))
  moreover have "layout hi (ps @ cs @ qs)"
    using lay cs before after by (fastforce simp: layout_append)
  ultimately show ?thesis unfolding heap_ok_def linked_append by blast
qed

section \<open>Allocation on block lists\<close>

definition take_block :: "u32 \<Rightarrow> block \<Rightarrow> block list" where
  "take_block n b =
     (if unat n + 16 \<le> unat (bsize b)
      then [\<lparr>baddr = baddr b, bsize = n, bfree = False\<rparr>,
            \<lparr>baddr = baddr b + 12 + n, bsize = bsize b - n - 12, bfree = True\<rparr>]
      else [b\<lparr>bfree := False\<rparr>])"

definition suits :: "u32 \<Rightarrow> block \<Rightarrow> bool" where
  "suits n b \<longleftrightarrow> bfree b \<and> n \<le> bsize b"

fun alloc_blocks :: "u32 \<Rightarrow> block list \<Rightarrow> block list" where
  "alloc_blocks n [] = []"
| "alloc_blocks n (b # bs) =
     (if suits n b then take_block n b @ bs else b # alloc_blocks n bs)"

lemma split_words:
  assumes "suits n b" "unat n + 16 \<le> unat (bsize b)" "block_end b \<le> 4294967296"
  shows "unat (baddr b + 12 + n) = unat (baddr b) + 12 + unat n"
    and "unat (bsize b - n - 12) = unat (bsize b) - unat n - 12"
    and "n + 12 + 4 \<le> bsize b"
proof -
  have room: "unat (baddr b) + 12 + unat n < 4294967296"
    using assms by (simp add: block_end_def)
  have a: "unat (baddr b + 12) = unat (baddr b) + 12"
    using room by (subst unat_add_u32) simp_all
  show "unat (baddr b + 12 + n) = unat (baddr b) + 12 + unat n"
    using room by (subst unat_add_u32) (simp_all add: a)
  have "n \<le> bsize b" using assms(1) by (simp add: suits_def)
  then have d: "unat (bsize b - n) = unat (bsize b) - unat n" by (rule unat_diff_u32)
  then show "unat (bsize b - n - 12) = unat (bsize b) - unat n - 12"
    using assms(2) by (subst unat_diff_u32) (simp_all add: word_le_nat_alt)
  have "unat (n + 12) = unat n + 12"
    using assms(2) unat_u32_bound [of "bsize b"] by (subst unat_add_u32) simp_all
  then have "unat (n + 12 + 4) = unat n + 16"
    using assms(2) unat_u32_bound [of "bsize b"] by (subst unat_add_u32) simp_all
  with assms(2) show "n + 12 + 4 \<le> bsize b" by (simp add: word_le_nat_alt)
qed

lemma no_split_words:
  assumes "suits n b" "\<not> unat n + 16 \<le> unat (bsize b)" "block_end b \<le> 4294967280"
  shows "\<not> n + 12 + 4 \<le> bsize b"
proof -
  have room: "unat n + 16 < 4294967296"
    using assms by (auto simp: suits_def block_end_def word_le_nat_alt)
  have "unat (n + 12) = unat n + 12" using room by (subst unat_add_u32) simp_all
  then have "unat (n + 12 + 4) = unat n + 16" using room by (subst unat_add_u32) simp_all
  with assms(2) show ?thesis by (simp add: word_le_nat_alt)
qed

lemma layout_take_block:
  assumes "layout hi (b # bs)" "suits n b"
  shows "layout hi (take_block n b @ bs)"
proof (cases "unat n + 16 \<le> unat (bsize b)")
  case True
  let ?c = "\<lparr>baddr = baddr b + 12 + n, bsize = bsize b - n - 12, bfree = True\<rparr>"
  let ?b = "\<lparr>baddr = baddr b, bsize = n, bfree = False\<rparr>"
  have "block_end b \<le> 4294967296" using assms(1) by (auto simp: layout_def)
  note sp = split_words [OF assms(2) True this]
  have "block_end ?b = unat (baddr ?c)" "block_end ?c = block_end b" "baddr ?c \<noteq> 0"
    using sp(1,2) True by (auto simp: block_end_def word_unat_eq_iff)
  moreover have "block_end ?b \<le> block_end b" using True by (simp add: block_end_def)
  ultimately have "layout hi (?b # ?c # bs)" using assms(1) by auto
  with True show ?thesis by (simp add: take_block_def)
next
  case False
  then show ?thesis using assms(1) by (simp add: take_block_def block_end_def)
qed

lemma take_block_within:
  assumes "suits n b" "block_end b \<le> 4294967280" "c \<in> set (take_block n b)"
  shows "unat (baddr b) \<le> unat (baddr c) \<and> block_end c \<le> block_end b"
proof (cases "unat n + 16 \<le> unat (bsize b)")
  case True
  then show ?thesis
    using split_words(1,2) [OF assms(1) True] assms(2,3)
    by (auto simp: take_block_def block_end_def)
qed (use assms(3) in \<open>simp add: take_block_def block_end_def\<close>)

text \<open>The body of the loop, on the block it chose: the split writes the header of the
  remainder inside the payload, then both paths clear \<open>is_free\<close>.\<close>

lemma kmalloc_take_split:
  assumes "hdr_size m a = bsize b" "a = baddr b" "suits n b" "unat n + 16 \<le> unat (bsize b)"
    and "block_end b \<le> 4294967280"
  shows "fst (kmalloc_take n a m) = a + 12"
    and "changed_only_in (unat a) (block_end b) m (snd (kmalloc_take n a m))"
    and "changed_only_in (unat a) (unat a + 24 + unat n) m (snd (kmalloc_take n a m))"
    and "linked m a [b] z \<Longrightarrow> linked (snd (kmalloc_take n a m)) a (take_block n b) z"
proof -
  let ?c = "a + 12 + n"
  have "block_end b \<le> 4294967296" using assms(5) by simp
  note sp = split_words [OF assms(3,4) this, folded assms(2)]
  have fa: "fits a 12" and fc: "fits ?c 12"
    using sp(1) assms(2,4,5) by (simp_all add: fits_def block_end_def)
  have sep: "unat a + 12 \<le> unat ?c" "unat ?c + 12 \<le> block_end b" "unat a + 12 \<le> block_end b"
    using sp(1) assms(2,4) by (simp_all add: block_end_def)
  define m0 where "m0 = set_is_free ?c True (set_size ?c (bsize b - n - 12) m)"
  define m1 where "m1 = set_next ?c (hdr_next m a) m0"
  define m2 where "m2 = set_is_free a False (set_next a ?c (set_size a n m1))"
  have c0: "changed_only_in (unat ?c) (unat ?c + 12) m m0"
    unfolding m0_def by (meson changed_only_in_trans header_writes [OF fc])
  have c1: "changed_only_in (unat ?c) (unat ?c + 12) m m1"
    unfolding m1_def by (meson c0 changed_only_in_trans header_writes [OF fc])
  have c2: "changed_only_in (unat a) (unat a + 12) m1 m2"
    unfolding m2_def by (meson changed_only_in_trans header_writes [OF fa])
  have "same_header m m0 a" using same_header_changed [OF c0 fa] sep by blast
  then have take: "kmalloc_take n a m = (a + 12, m2)"
    using sp(3) assms(1)
    by (simp add: kmalloc_take_def Let_def m2_def m1_def m0_def same_header_def)
  then show "fst (kmalloc_take n a m) = a + 12" by simp
  show "changed_only_in (unat a) (block_end b) m (snd (kmalloc_take n a m))"
    unfolding take snd_conv using sep
    by (intro changed_only_in_trans [OF changed_only_in_mono [OF c1] changed_only_in_mono [OF c2]])
      simp_all
  show "changed_only_in (unat a) (unat a + 24 + unat n) m (snd (kmalloc_take n a m))"
    unfolding take snd_conv using sp(1)
    by (intro changed_only_in_trans [OF changed_only_in_mono [OF c1] changed_only_in_mono [OF c2]])
      simp_all
  have "same_header m1 m2 ?c" using same_header_changed [OF c2 fc] sep by blast
  then have "hdr_size m2 ?c = bsize b - n - 12" "hdr_is_free m2 ?c" "hdr_next m2 ?c = hdr_next m a"
    using fc by (simp_all add: same_header_def m1_def m0_def)
  moreover have "hdr_size m2 a = n" "\<not> hdr_is_free m2 a" "hdr_next m2 a = ?c"
    unfolding m2_def using fa by simp_all
  ultimately show "linked m a [b] z \<Longrightarrow> linked (snd (kmalloc_take n a m)) a (take_block n b) z"
    unfolding take snd_conv using assms(2,4) by (auto simp: take_block_def)
qed

lemma kmalloc_take_whole:
  assumes "hdr_size m a = bsize b" "a = baddr b" "suits n b" "\<not> unat n + 16 \<le> unat (bsize b)"
    and "block_end b \<le> 4294967280"
  shows "fst (kmalloc_take n a m) = a + 12"
    and "changed_only_in (unat a) (block_end b) m (snd (kmalloc_take n a m))"
    and "changed_only_in (unat a) (unat a + 24 + unat n) m (snd (kmalloc_take n a m))"
    and "linked m a [b] z \<Longrightarrow> linked (snd (kmalloc_take n a m)) a (take_block n b) z"
proof -
  have take: "kmalloc_take n a m = (a + 12, set_is_free a False m)"
    using no_split_words [OF assms(3-5)] assms(1) by (simp add: kmalloc_take_def Let_def)
  have fa: "fits a 12" using assms(2,5) by (simp add: fits_def block_end_def)
  show "fst (kmalloc_take n a m) = a + 12" using take by simp
  show "changed_only_in (unat a) (block_end b) m (snd (kmalloc_take n a m))"
    unfolding take snd_conv using assms(2)
    by (intro changed_only_in_mono [OF header_writes(2) [OF fa]]) (simp_all add: block_end_def)
  show "changed_only_in (unat a) (unat a + 24 + unat n) m (snd (kmalloc_take n a m))"
    unfolding take snd_conv by (intro changed_only_in_mono [OF header_writes(2) [OF fa]]) simp_all
  show "linked m a [b] z \<Longrightarrow> linked (snd (kmalloc_take n a m)) a (take_block n b) z"
    unfolding take snd_conv using fa assms(2,4) by (auto simp: take_block_def)
qed

lemma kmalloc_loop_skip:
  "linked m a ps z \<Longrightarrow> layout hi ps \<Longrightarrow> \<forall>b \<in> set ps. \<not> suits n b \<Longrightarrow>
    kmalloc_loop n a m = kmalloc_loop n z m"
proof (induction ps arbitrary: a)
  case (Cons b ps)
  then have "kmalloc_loop n a m = kmalloc_loop n (hdr_next m (baddr b)) m"
    by (subst kmalloc_loop.simps) (auto simp: suits_def)
  with Cons show ?case by auto
qed simp

lemma alloc_blocks_first:
  "\<forall>x \<in> set ps. \<not> suits n x \<Longrightarrow> suits n b \<Longrightarrow>
    alloc_blocks n (ps @ b # qs) = ps @ take_block n b @ qs"
  by (induction ps) auto

lemma kmalloc_loop_none:
  assumes "heap_ok m hi a bs" "\<forall>b \<in> set bs. \<not> suits n b"
  shows "kmalloc_loop n a m = Some (0, m)"
  using assms kmalloc_loop_skip [of m a bs 0 hi n]
  by (simp add: heap_ok_def kmalloc_loop.simps)

lemma kmalloc_loop_first:
  assumes ok: "heap_ok m hi a (ps @ b # qs)" and ps: "\<forall>x \<in> set ps. \<not> suits n x" and b: "suits n b"
  obtains m' where "kmalloc_loop n a m = Some (baddr b + 12, m')"
    "heap_ok m' hi a (ps @ take_block n b @ qs)"
    "changed_only_in (unat (baddr b)) (block_end b) m m'"
    "changed_only_in (unat (baddr b)) (unat (baddr b) + 24 + unat n) m m'"
proof -
  from ok have lk: "linked m a ps (baddr b)" and lay: "layout hi ps" "layout hi (b # qs)"
    and hb: "hdr_size m (baddr b) = bsize b" "hdr_is_free m (baddr b) = bfree b"
    and before: "\<forall>x \<in> set ps. block_end x \<le> unat (baddr b)"
    by (auto simp: heap_ok_def linked_append layout_append)
  then have le: "block_end b \<le> 4294967280" "baddr b \<noteq> 0" by (auto simp: layout_def)
  define m' where "m' = snd (kmalloc_take n (baddr b) m)"
  have take: "fst (kmalloc_take n (baddr b) m) = baddr b + 12"
    "changed_only_in (unat (baddr b)) (block_end b) m m'"
    "changed_only_in (unat (baddr b)) (unat (baddr b) + 24 + unat n) m m'"
    "\<And>z. linked m (baddr b) [b] z \<Longrightarrow> linked m' (baddr b) (take_block n b) z"
    unfolding m'_def using kmalloc_take_split [OF hb(1) refl b _ le(1)]
      kmalloc_take_whole [OF hb(1) refl b _ le(1)] by blast+
  have "kmalloc_loop n a m = kmalloc_loop n (baddr b) m"
    by (rule kmalloc_loop_skip [OF lk lay(1) ps])
  also have "\<dots> = Some (kmalloc_take n (baddr b) m)"
    using b hb le(2) by (subst kmalloc_loop.simps) (simp add: suits_def)
  finally have "kmalloc_loop n a m = Some (baddr b + 12, m')"
    using take(1) by (simp add: m'_def prod_eq_iff)
  moreover have "heap_ok m' hi a (ps @ take_block n b @ qs)"
  proof (rule replace_blocks [OF _ take(2) before])
    show "heap_ok m hi a (ps @ [b] @ qs)" using ok by simp
    show "\<forall>y\<in>set qs. block_end b \<le> unat (baddr y)" using lay(2) by simp
    show "linked m' s (take_block n b) z" if "linked m s [b] z" for s z
      using that take(4) by auto
    show "layout hi (take_block n b)"
      using layout_take_block [OF lay(2) b] by (simp add: layout_append)
    show "\<forall>c\<in>set (take_block n b). unat (baddr b) \<le> unat (baddr c) \<and> block_end c \<le> block_end b"
      using take_block_within [OF b le(1)] by blast
  qed
  ultimately show ?thesis using that take(2,3) by blast
qed

section \<open>Freeing on block lists\<close>

fun coalesce :: "block list \<Rightarrow> block list" where
  "coalesce [] = []"
| "coalesce [b] = [b]"
| "coalesce (b # c # bs) =
     (if bfree b \<and> bfree c then coalesce (b\<lparr>bsize := 12 + bsize c\<rparr> # bs)
      else b # coalesce (c # bs))"

definition free_block :: "u32 \<Rightarrow> block list \<Rightarrow> block list" where
  "free_block a bs = map (\<lambda>b. if baddr b = a then b\<lparr>bfree := True\<rparr> else b) bs"

fun first_addr :: "block list \<Rightarrow> u32" where
  "first_addr [] = 0"
| "first_addr (b # bs) = baddr b"

lemma linked_first: "linked m a bs 0 \<Longrightarrow> a = first_addr bs"
  by (cases bs) auto

text \<open>A byte that belongs to the header of no free block.\<close>

definition off_free_headers :: "block list \<Rightarrow> u32 \<Rightarrow> bool" where
  "off_free_headers bs x \<longleftrightarrow>
     (\<forall>b \<in> set bs. bfree b \<longrightarrow> unat x < unat (baddr b) \<or> unat (baddr b) + 12 \<le> unat x)"

text \<open>One merge: the first block takes over the second one's link.\<close>

lemma merge_step:
  assumes ok: "heap_ok m hi a (ps @ b # c # bs)"
  defines "m2 \<equiv> set_next (baddr b) (hdr_next m (baddr c))
      (set_size (baddr b) (12 + bsize c) m)"
  shows "heap_ok m2 hi a (ps @ b\<lparr>bsize := 12 + bsize c\<rparr> # bs)"
    and "changed_only_in (unat (baddr b)) (unat (baddr b) + 12) m m2"
    and "hdr_next (set_size (baddr b) (12 + bsize c) m) (baddr c) = hdr_next m (baddr c)"
proof -
  from ok have lay: "layout hi (ps @ b # c # bs)" by (simp add: heap_ok_def)
  then have fb: "fits (baddr b) 12" and fc: "fits (baddr c) 12"
    using layout_fits [OF lay] by simp_all
  have ord: "block_end b \<le> unat (baddr c)" "block_end c \<le> hi" "hi \<le> 4294967280"
    "\<forall>x \<in> set ps. block_end x \<le> unat (baddr b)" "\<forall>y \<in> set bs. block_end c \<le> unat (baddr y)"
    "baddr b \<noteq> 0"
    using lay by (auto simp: layout_append) (simp add: layout_def)
  have sz: "unat (12 + bsize c) = 12 + unat (bsize c)"
    using ord by (subst unat_add_u32) (simp_all add: block_end_def)
  show ch: "changed_only_in (unat (baddr b)) (unat (baddr b) + 12) m m2"
    unfolding m2_def by (meson changed_only_in_trans header_writes [OF fb])
  have "same_header m (set_size (baddr b) (12 + bsize c) m) (baddr c)"
    using ord(1) same_header_changed [OF header_writes(1) [OF fb] fc] by (simp add: block_end_def)
  then show "hdr_next (set_size (baddr b) (12 + bsize c) m) (baddr c) = hdr_next m (baddr c)"
    by (simp add: same_header_def)
  have ch': "changed_only_in (unat (baddr b)) (block_end c) m m2"
    using ord(1) by (intro changed_only_in_mono [OF ch]) (simp_all add: block_end_def)
  have "heap_ok m2 hi a (ps @ [b\<lparr>bsize := 12 + bsize c\<rparr>] @ bs)"
  proof (rule replace_blocks [OF _ ch' ord(4) ord(5)])
    show "heap_ok m hi a (ps @ [b, c] @ bs)" using ok by simp
    show "linked m2 s [b\<lparr>bsize := 12 + bsize c\<rparr>] z" if "linked m s [b, c] z" for s z
      using that fb by (auto simp: m2_def)
    show "layout hi [b\<lparr>bsize := 12 + bsize c\<rparr>]"
      using ord sz by (simp add: layout_def block_end_def)
    show "\<forall>d\<in>set [b\<lparr>bsize := 12 + bsize c\<rparr>]. unat (baddr b) \<le> unat (baddr d) \<and>
        block_end d \<le> block_end c"
      using ord sz by (simp add: block_end_def)
  qed
  then show "heap_ok m2 hi a (ps @ b\<lparr>bsize := 12 + bsize c\<rparr> # bs)" by simp
qed

lemma heap_ok_header:
  assumes "heap_ok m hi a (ps @ b # bs)"
  shows "hdr_size m (baddr b) = bsize b" "hdr_is_free m (baddr b) = bfree b"
    "hdr_next m (baddr b) = first_addr bs" "baddr b \<noteq> 0"
  using assms linked_first by (auto simp: heap_ok_def linked_append layout_append)

lemma kfree_loop_refines:
  "heap_ok m hi a (ps @ bs) \<Longrightarrow>
    \<exists>m'. kfree_loop (first_addr bs) m = Some m' \<and> heap_ok m' hi a (ps @ coalesce bs) \<and>
      (\<forall>x. off_free_headers bs x \<longrightarrow> m' x = m x)"
proof (induction bs arbitrary: ps m rule: coalesce.induct)
  case 1
  then show ?case by (simp add: kfree_loop.simps)
next
  case (2 b)
  then show ?case using heap_ok_header(3) [OF 2] by (simp add: kfree_loop.simps)
next
  case (3 b c bs)
  note hb = heap_ok_header [OF "3.prems"]
  have hc: "hdr_size m (baddr c) = bsize c" "hdr_is_free m (baddr c) = bfree c" "baddr c \<noteq> 0"
    using heap_ok_header [of m hi a "ps @ [b]" c bs] "3.prems" by simp_all
  show ?case
  proof (cases "bfree b \<and> bfree c")
    case True
    let ?b = "b\<lparr>bsize := 12 + bsize c\<rparr>"
    let ?m = "set_next (baddr b) (hdr_next m (baddr c)) (set_size (baddr b) (12 + bsize c) m)"
    note mg = merge_step [OF "3.prems"]
    have fb: "fits (baddr b) 12"
      using "3.prems" layout_fits [of hi "ps @ b # c # bs" b] by (simp add: heap_ok_def)
    have "kfree_loop (baddr b) m = kfree_loop (baddr b) ?m"
      using True hb hc mg(3) fb by (subst kfree_loop.simps) (simp add: Let_def)
    moreover from "3.IH"(1) [OF True, of ?m ps] mg(1) obtain m' where
      "kfree_loop (baddr b) ?m = Some m'" "heap_ok m' hi a (ps @ coalesce (?b # bs))"
      "\<forall>x. off_free_headers (?b # bs) x \<longrightarrow> m' x = ?m x"
      by auto
    moreover have "?m x = m x" "off_free_headers (?b # bs) x" if "off_free_headers (b # c # bs) x" for x
      using that True mg(2) by (auto simp: off_free_headers_def changed_only_in_def)
    ultimately show ?thesis using True by auto
  next
    case False
    then have "kfree_loop (baddr b) m = kfree_loop (baddr c) m"
      using hb hc by (subst kfree_loop.simps) auto
    moreover from "3.IH"(2) [OF False, of m "ps @ [b]"] "3.prems" obtain m' where
      "kfree_loop (baddr c) m = Some m'" "heap_ok m' hi a (ps @ b # coalesce (c # bs))"
      "\<forall>x. off_free_headers (c # bs) x \<longrightarrow> m' x = m x"
      by auto
    ultimately show ?thesis using False by (auto simp: off_free_headers_def)
  qed
qed

lemma free_block_notin:
  "a \<notin> baddr ` set bs \<Longrightarrow> free_block a bs = bs"
  by (induction bs) (auto simp: free_block_def)

lemma kfree_refines:
  assumes ok: "heap_ok m hi a bs" and b: "b \<in> set bs"
  shows "\<exists>m'. kfree a (baddr b + 12) m = Some m' \<and>
    heap_ok m' hi a (coalesce (free_block (baddr b) bs)) \<and>
    (\<forall>x. off_free_headers (free_block (baddr b) bs) x \<longrightarrow> m' x = m x)"
proof -
  obtain ps qs where bs: "bs = ps @ b # qs" using b by (auto simp: in_set_conv_decomp)
  let ?b = "b\<lparr>bfree := True\<rparr>" and ?m = "set_is_free (baddr b) True m"
  have lay: "layout hi (ps @ b # qs)" using ok by (simp add: heap_ok_def bs)
  then have fb: "fits (baddr b) 12" using layout_fits [OF lay, of b] by simp
  have "baddr b \<notin> baddr ` set ps" "baddr b \<notin> baddr ` set qs"
    using lay by (auto simp: layout_append block_end_def image_iff)
  then have fr: "free_block (baddr b) bs = ps @ ?b # qs"
    using free_block_notin [of "baddr b" ps] free_block_notin [of "baddr b" qs]
    by (simp add: bs free_block_def)
  have ch: "changed_only_in (unat (baddr b)) (unat (baddr b) + 12) m ?m"
    by (rule header_writes(2) [OF fb])
  have "heap_ok ?m hi a (ps @ [?b] @ qs)"
  proof (rule replace_blocks)
    show "heap_ok m hi a (ps @ [b] @ qs)" using ok by (simp add: bs)
    show "changed_only_in (unat (baddr b)) (block_end b) m ?m"
      using changed_only_in_mono [OF ch] by (simp add: block_end_def)
    show "\<forall>x\<in>set ps. block_end x \<le> unat (baddr b)" "\<forall>y\<in>set qs. block_end b \<le> unat (baddr y)"
      using lay by (auto simp: layout_append)
    show "layout hi [?b]" using lay by (simp add: block_end_def layout_def)
    show "linked ?m s [?b] z" if "linked m s [b] z" for s z using that fb by auto
  qed (simp add: block_end_def)
  then have okm: "heap_ok ?m hi a (free_block (baddr b) bs)" by (simp add: fr)
  have "kfree a (baddr b + 12) m = kfree_loop a ?m"
    using fb lay by (auto simp: kfree_def Let_def fits_def word_unat_eq_iff unat_word_ariths
        layout_append layout_def block_end_def)
  moreover have "a = first_addr (free_block (baddr b) bs)"
    using okm by (auto simp: heap_ok_def dest: linked_first)
  moreover have "?m x = m x" if "off_free_headers (free_block (baddr b) bs) x" for x
    using that ch by (auto simp: fr off_free_headers_def changed_only_in_def)
  ultimately show ?thesis
    using kfree_loop_refines [of ?m hi a "[]" "free_block (baddr b) bs"] okm by auto
qed

section \<open>The contract of the kernel heap\<close>

text \<open>
  What a client of \<open>kmalloc\<close> and \<open>kfree\<close> relies on.  \<open>live\<close> is the ghost
  map from the pointers handed out and not freed to the sizes asked for; \<open>inv live m\<close>
  says the heap in \<open>m\<close> is well formed and holds those allocations.
\<close>

type_synonym allocations = "u32 \<rightharpoonup> nat"

definition same_contents :: "allocations \<Rightarrow> mem \<Rightarrow> mem \<Rightarrow> bool" where
  "same_contents live m m' \<longleftrightarrow>
     (\<forall>q k x. live q = Some k \<longrightarrow> in_range x q k \<longrightarrow> m' x = m x)"

text \<open>The bytes of all live allocations.\<close>

definition owned :: "allocations \<Rightarrow> u32 set" where
  "owned live = {x. \<exists>p k. live p = Some k \<and> in_range x p k}"

locale kernel_heap =
  fixes alloc :: "u32 \<Rightarrow> mem \<Rightarrow> (u32 \<times> mem) option"
    and release :: "u32 \<Rightarrow> mem \<Rightarrow> mem option"
    and inv :: "allocations \<Rightarrow> mem \<Rightarrow> bool"
  assumes alloc_returns: "inv live m \<Longrightarrow> \<exists>p m'. alloc n m = Some (p, m')"
    and alloc_null: "inv live m \<Longrightarrow> alloc n m = Some (0, m') \<Longrightarrow> m' = m"
    and alloc_fresh: "inv live m \<Longrightarrow> alloc n m = Some (p, m') \<Longrightarrow> p \<noteq> 0 \<Longrightarrow>
      live p = None \<and> inv (live(p \<mapsto> unat n)) m' \<and> same_contents live m m'"
    and release_ok: "inv live m \<Longrightarrow> live p = Some k \<Longrightarrow>
      \<exists>m'. release p m = Some m' \<and> inv (live(p := None)) m' \<and> same_contents (live(p := None)) m m'"
    and live_apart: "inv live m \<Longrightarrow> live p = Some k \<Longrightarrow> live q = Some l \<Longrightarrow> p \<noteq> q \<Longrightarrow> apart p k q l"
    and live_fits: "inv live m \<Longrightarrow> live p = Some k \<Longrightarrow> p \<noteq> 0 \<and> fits p k"
    and client_writes: "inv live m \<Longrightarrow> same_off (owned live) m m' \<Longrightarrow> inv live m'"
begin

lemma client_write:
  assumes "inv live m" "live p = Some k" "same_off (bytes p k) m m'"
  shows "inv live m' \<and> same_contents (live(p := None)) m m'"
proof
  show "inv live m'"
    using assms(2)
    by (intro client_writes [OF assms(1)] same_off_mono [OF assms(3)]) (auto simp: owned_def bytes_def)
  show "same_contents (live(p := None)) m m'"
    unfolding same_contents_def
  proof (intro allI impI)
    fix q l x assume q: "(live(p := None)) q = Some l" "in_range x q l"
    then have "apart p k q l" using live_apart [OF assms(1,2)] by (auto split: if_splits)
    with q(2) have "x \<notin> bytes p k" by (auto simp: bytes_def in_range_def apart_def)
    with assms(3) show "m' x = m x" by (simp add: same_off_def)
  qed
qed

lemma alloc_apart:
  assumes "inv live m" "alloc n m = Some (p, m')" "p \<noteq> 0" "live q = Some k"
  shows "apart p (unat n) q k"
  using alloc_fresh [OF assms(1-3)] live_apart [of "live(p \<mapsto> unat n)" m' p "unat n" q k] assms(4)
  by (cases "p = q") auto

lemma alloc_cases:
  assumes "inv live m"
  obtains (null) "alloc n m = Some (0, m)"
  | (grant) p m' where "alloc n m = Some (p, m')" "p \<noteq> 0" "live p = None"
      "inv (live(p \<mapsto> unat n)) m'" "same_contents live m m'"
  using alloc_returns [OF assms] alloc_null [OF assms] alloc_fresh [OF assms] by metis

lemma two_allocs_apart:
  assumes "inv live m" "alloc n m = Some (p, m1)" "p \<noteq> 0" "alloc k m1 = Some (q, m2)" "q \<noteq> 0"
  shows "apart p (unat n) q (unat k)"
proof -
  note a = alloc_fresh [OF assms(1-3)]
  have "apart q (unat k) p (unat n)"
    using a alloc_apart [of "live(p \<mapsto> unat n)" m1 k q m2 p "unat n"] assms by simp
  then show ?thesis by (auto simp: apart_def)
qed

end

definition holds_block :: "block list \<Rightarrow> u32 \<Rightarrow> nat \<Rightarrow> bool" where
  "holds_block bs p k \<longleftrightarrow>
     (\<exists>b \<in> set bs. \<not> bfree b \<and> p = baddr b + 12 \<and> k \<le> unat (bsize b))"

text \<open>The allocations and the blocks in use are the same: every live pointer is the payload of
  a block in use that is large enough, and the payload of every block in use is live.\<close>

definition accounts :: "block list \<Rightarrow> allocations \<Rightarrow> bool" where
  "accounts bs live \<longleftrightarrow> (\<forall>p k. live p = Some k \<longrightarrow> holds_block bs p k) \<and>
     (\<forall>b \<in> set bs. \<not> bfree b \<longrightarrow> baddr b + 12 \<in> dom live)"

definition heap_inv :: "nat \<Rightarrow> u32 \<Rightarrow> allocations \<Rightarrow> mem \<Rightarrow> bool" where
  "heap_inv hi a live m \<longleftrightarrow> (\<exists>bs. heap_ok m hi a bs \<and> accounts bs live)"

lemma accounts_holds: "accounts bs live \<Longrightarrow> live p = Some k \<Longrightarrow> holds_block bs p k"
  by (simp add: accounts_def)

lemma accounts_used: "accounts bs live \<Longrightarrow> b \<in> set bs \<Longrightarrow> \<not> bfree b \<Longrightarrow> baddr b + 12 \<in> dom live"
  by (simp add: accounts_def)

lemma block_payload:
  "layout hi bs \<Longrightarrow> b \<in> set bs \<Longrightarrow> unat (baddr b + 12) = unat (baddr b) + 12 \<and> baddr b + 12 \<noteq> 0"
proof -
  assume "layout hi bs" "b \<in> set bs"
  then have "unat (baddr b) + 12 < 4294967296" by (auto simp: layout_def block_end_def)
  then have "unat (baddr b + 12) = unat (baddr b) + 12" by (subst unat_add_u32) simp_all
  then show ?thesis by (auto simp: word_unat_eq_iff)
qed

lemma holds_block_range:
  assumes "layout hi bs" "holds_block bs p k"
  obtains b where "b \<in> set bs" "\<not> bfree b" "p = baddr b + 12" "unat p = unat (baddr b) + 12"
    "unat p + k \<le> block_end b" "k \<le> unat (bsize b)"
  using assms block_payload by (fastforce simp: holds_block_def block_end_def)

lemma same_payload_same_block:
  "layout hi bs \<Longrightarrow> b \<in> set bs \<Longrightarrow> c \<in> set bs \<Longrightarrow> baddr b = baddr c \<Longrightarrow> b = c"
  using layout_apart [of hi bs b c] by (fastforce simp: block_end_def)

lemma coalesce_keeps: "c \<in> set bs \<Longrightarrow> \<not> bfree c \<Longrightarrow> c \<in> set (coalesce bs)"
  by (induction bs rule: coalesce.induct) auto

lemma coalesce_used: "c \<in> set (coalesce bs) \<Longrightarrow> \<not> bfree c \<Longrightarrow> c \<in> set bs"
  by (induction bs rule: coalesce.induct) (auto split: if_splits)

lemma holds_apart:
  assumes "layout hi bs" "holds_block bs p k" "holds_block bs q l" "p \<noteq> q"
  shows "apart p k q l"
proof -
  obtain b c where b: "b \<in> set bs" "p = baddr b + 12" "unat p = unat (baddr b) + 12" "unat p + k \<le> block_end b"
    and c: "c \<in> set bs" "q = baddr c + 12" "unat q = unat (baddr c) + 12" "unat q + l \<le> block_end c"
    using assms holds_block_range by metis
  with assms(4) have "b \<noteq> c" by auto
  with layout_apart [OF assms(1) b(1) c(1)] b c show ?thesis by (auto simp: apart_def)
qed

lemma holds_fits:
  assumes "layout hi bs" "holds_block bs p k"
  shows "p \<noteq> 0 \<and> fits p k \<and> unat p + k \<le> hi"
proof -
  obtain b where b: "b \<in> set bs" "p = baddr b + 12" "unat p + k \<le> block_end b"
    using assms holds_block_range by metis
  have "block_end b \<le> hi" "hi \<le> 4294967280" using assms(1) b(1) by (auto simp: layout_def)
  with b block_payload [OF assms(1) b(1)] show ?thesis by (simp add: fits_def)
qed

lemma kmalloc_cases:
  assumes "heap_ok m hi a bs" "n \<noteq> 0"
  obtains (none) "\<forall>b \<in> set bs. \<not> suits n b" "kmalloc a n m = Some (0, m)"
  | (some) ps b qs m' where "bs = ps @ b # qs" "suits n b" "\<forall>x \<in> set ps. \<not> suits n x"
      "kmalloc a n m = Some (baddr b + 12, m')" "heap_ok m' hi a (ps @ take_block n b @ qs)"
      "changed_only_in (unat (baddr b)) (block_end b) m m'"
      "changed_only_in (unat (baddr b)) (unat (baddr b) + 24 + unat n) m m'"
proof (cases "\<exists>b \<in> set bs. suits n b")
  case True
  then obtain ps b qs where bs: "bs = ps @ b # qs" "suits n b" "\<forall>x \<in> set ps. \<not> suits n x"
    by (metis split_list_first_prop)
  from kmalloc_loop_first [OF assms(1) [unfolded bs(1)] bs(3,2)] some [OF bs] assms(2)
  show ?thesis by (metis kmalloc_def)
next
  case False
  with none kmalloc_loop_none [OF assms(1), of n] assms(2) show ?thesis
    by (auto simp: kmalloc_def)
qed

lemma accounts_take:
  assumes "accounts (ps @ b # qs) live" "bfree b" "suits n b"
  shows "accounts (ps @ take_block n b @ qs) (live(baddr b + 12 \<mapsto> unat n))"
proof -
  have "holds_block (ps @ take_block n b @ qs) q k" if "live q = Some k" for q k
    using accounts_holds [OF assms(1) that] assms(2) by (auto simp: holds_block_def)
  moreover have "holds_block (ps @ take_block n b @ qs) (baddr b + 12) (unat n)"
    using assms(3) by (auto simp: holds_block_def take_block_def suits_def word_le_nat_alt)
  moreover have "baddr c = baddr b" if "c \<in> set (take_block n b)" "\<not> bfree c" for c
    using that by (auto simp: take_block_def split: if_splits)
  moreover have "baddr c + 12 \<in> dom live" if "c \<in> set ps \<union> set qs" "\<not> bfree c" for c
    using that by (intro accounts_used [OF assms(1)]) auto
  ultimately show ?thesis unfolding accounts_def by (auto simp del: dom_fun_upd) blast+
qed

lemma accounts_free:
  assumes "accounts bs live" "layout hi bs"
  shows "accounts (coalesce (free_block a bs)) (live(a + 12 := None))"
proof -
  have fb: "c \<in> set (free_block a bs) \<longleftrightarrow> c \<in> set bs \<and> baddr c \<noteq> a" if "\<not> bfree c" for c
    using that by (auto simp: free_block_def image_iff)
  have "holds_block (coalesce (free_block a bs)) q k" if "(live(a + 12 := None)) q = Some k" for q k
  proof -
    have "q \<noteq> a + 12" "live q = Some k" using that by (auto split: if_splits)
    then obtain c where "c \<in> set bs" "\<not> bfree c" "q = baddr c + 12" "k \<le> unat (bsize c)" "baddr c \<noteq> a"
      using accounts_holds [OF assms(1), of q k] by (auto simp: holds_block_def)
    then show ?thesis using coalesce_keeps [of c "free_block a bs"] fb [of c] by (auto simp: holds_block_def)
  qed
  moreover have "baddr c + 12 \<in> dom (live(a + 12 := None))"
    if "c \<in> set (coalesce (free_block a bs))" "\<not> bfree c" for c
    using coalesce_used [OF that] fb [OF that(2)] accounts_used [OF assms(1) _ that(2)] by auto
  ultimately show ?thesis by (simp add: accounts_def)
qed

lemma heap_inv_alloc:
  assumes "heap_inv hi a live m" "kmalloc a n m = Some (p, m')" "p \<noteq> 0"
  shows "live p = None \<and> heap_inv hi a (live(p \<mapsto> unat n)) m' \<and> same_contents live m m'"
proof -
  from assms(1) obtain bs where ok: "heap_ok m hi a bs" and acc: "accounts bs live"
    by (auto simp: heap_inv_def)
  note live = accounts_holds [OF acc]
  have lay: "layout hi bs" using ok by (simp add: heap_ok_def)
  have "n \<noteq> 0" using assms(2,3) by (auto simp: kmalloc_def)
  from ok this show ?thesis
  proof (cases rule: kmalloc_cases)
    case none
    with assms show ?thesis by simp
  next
    case (some ps b qs m'')
    with assms(2) have eq: "p = baddr b + 12" "m'' = m'" by simp_all
    have b: "b \<in> set bs" "bfree b" using some by (simp_all add: suits_def)
    have other: "\<exists>c. c \<in> set bs \<and> c \<noteq> b \<and> \<not> bfree c \<and> q = baddr c + 12 \<and> k \<le> unat (bsize c) \<and>
        (unat q + k \<le> unat (baddr b) \<or> block_end b \<le> unat q)"
      if q: "live q = Some k" for q k
    proof -
      obtain c where c: "c \<in> set bs" "\<not> bfree c" "q = baddr c + 12" "unat q = unat (baddr c) + 12"
        "unat q + k \<le> block_end c" "k \<le> unat (bsize c)"
        by (rule holds_block_range [OF lay live [OF q]])
      with b have "c \<noteq> b" by auto
      with layout_apart [OF lay c(1) b(1)] c show ?thesis by fastforce
    qed
    have "live p = None"
      using other [of p] same_payload_same_block [OF lay _ b(1)] eq(1) by (cases "live p") auto
    moreover have "heap_inv hi a (live(p \<mapsto> unat n)) m'"
      using some(5) accounts_take [OF acc [unfolded some(1)] b(2) some(2)] unfolding heap_inv_def eq by blast
    moreover have "same_contents live m m'"
      using other some(6) unfolding same_contents_def changed_only_in_def in_range_def eq
      by (meson le_less_trans less_le_trans order_trans leI)
    ultimately show ?thesis by blast
  qed
qed

text \<open>What stays live after a release lies in no header that merging may write.\<close>

lemma live_off_free_headers:
  assumes lay: "layout hi bs" and acc: "accounts bs live" and b: "b \<in> set bs"
    and q: "(live(baddr b + 12 := None)) q = Some k" and x: "in_range x q k"
  shows "off_free_headers (free_block (baddr b) bs) x"
  unfolding off_free_headers_def
proof (intro ballI impI)
  fix d assume d: "d \<in> set (free_block (baddr b) bs)" "bfree d"
  have live: "live q = Some k" "q \<noteq> baddr b + 12" using q by (auto split: if_splits)
  obtain c where c: "c \<in> set bs" "\<not> bfree c" "q = baddr c + 12" "unat q = unat (baddr c) + 12"
    "unat q + k \<le> block_end c"
    by (rule holds_block_range [OF lay accounts_holds [OF acc live(1)]])
  obtain e where e: "e \<in> set bs" "baddr d = baddr e" "bfree e \<or> baddr e = baddr b"
    using d by (auto simp: free_block_def split: if_splits)
  have "e \<noteq> c" using c(2,3) e(3) live(2) by auto
  from layout_apart [OF lay e(1) c(1) this] c(4,5) x
  show "unat x < unat (baddr d) \<or> unat (baddr d) + 12 \<le> unat x"
    by (auto simp: in_range_def e(2) block_end_def)
qed

lemma heap_inv_release:
  assumes "heap_inv hi a live m" "live p = Some k"
  shows "\<exists>m'. kfree a p m = Some m' \<and> heap_inv hi a (live(p := None)) m' \<and>
    same_contents (live(p := None)) m m'"
proof -
  from assms(1) obtain bs where ok: "heap_ok m hi a bs" and acc: "accounts bs live"
    by (auto simp: heap_inv_def)
  have lay: "layout hi bs" using ok by (simp add: heap_ok_def)
  obtain b where b: "b \<in> set bs" "p = baddr b + 12"
    by (rule holds_block_range [OF lay accounts_holds [OF acc assms(2)]])
  obtain m' where m': "kfree a p m = Some m'" "heap_ok m' hi a (coalesce (free_block (baddr b) bs))"
    "\<forall>x. off_free_headers (free_block (baddr b) bs) x \<longrightarrow> m' x = m x"
    using kfree_refines [OF ok b(1)] unfolding b(2) by blast
  have "heap_inv hi a (live(p := None)) m'"
    using m'(2) accounts_free [OF acc lay] unfolding heap_inv_def b(2) by blast
  moreover have "same_contents (live(p := None)) m m'"
    using m'(3) live_off_free_headers [OF lay acc b(1)] unfolding same_contents_def b(2) by blast
  ultimately show ?thesis using m'(1) by blast
qed

lemma same_header_on:
  assumes "same_on (bytes a 12) m m'" "fits a 12"
  shows "same_header m m' a"
proof -
  have "a + 4 \<in> bytes a 12" by (simp add: bytes_def in_range_def header_offsets [OF assms(2)])
  then have "load8 m' (a + 4) = load8 m (a + 4)" using assms(1) by (simp add: same_on_def load8_def)
  moreover have "bytes (a + 8) 4 \<subseteq> bytes a 12" "bytes a 4 \<subseteq> bytes a 12"
    using bytes_offset [of a 12 8 4] assms(2) by (simp_all add: bytes_mono)
  ultimately show ?thesis
    using load32_same_on [OF assms(1)] header_fits [OF assms(2)]
    by (simp add: same_header_def hdr_size_def hdr_is_free_def hdr_next_def)
qed

lemma linked_same_headers:
  "linked m x cs z \<Longrightarrow> (\<And>c. c \<in> set cs \<Longrightarrow> same_header m m' (baddr c)) \<Longrightarrow> linked m' x cs z"
  by (induction cs arbitrary: x) (auto simp: same_header_def)

lemma heap_ok_write:
  assumes ok: "heap_ok m hi a bs" and acc: "accounts bs live"
    and off: "same_off (owned live) m m'"
  shows "heap_ok m' hi a bs"
proof -
  have lay: "layout hi bs" using ok by (simp add: heap_ok_def)
  have "same_header m m' (baddr c)" if c: "c \<in> set bs" for c
  proof (rule same_header_on [OF same_off_on [OF off] layout_fits [OF lay c]], rule equals0I)
    fix x assume "x \<in> owned live \<inter> bytes (baddr c) 12"
    then obtain p k where p: "live p = Some k" "in_range x p k" "in_range x (baddr c) 12"
      by (auto simp: owned_def bytes_def)
    obtain b where b: "b \<in> set bs" "unat p = unat (baddr b) + 12" "unat p + k \<le> block_end b"
      by (rule holds_block_range [OF lay accounts_holds [OF acc p(1)]])
    have "unat (baddr c) + 12 \<le> unat p \<or> unat p + k \<le> unat (baddr c)"
      using layout_apart [OF lay b(1) c] b(2,3) by (cases "b = c") (auto simp: block_end_def)
    with p(2,3) show False by (auto simp: in_range_def)
  qed
  then show ?thesis using ok linked_same_headers unfolding heap_ok_def by blast
qed

lemma heap_inv_write:
  assumes "heap_inv hi a live m" "same_off (owned live) m m'"
  shows "heap_inv hi a live m'"
  using assms heap_ok_write [OF _ _ assms(2)] unfolding heap_inv_def by blast

interpretation kh: kernel_heap "kmalloc a" "kfree a" "heap_inv hi a" for a hi
proof unfold_locales
  fix live m n
  assume inv: "heap_inv hi a live m"
  then obtain bs where ok: "heap_ok m hi a bs" by (auto simp: heap_inv_def)
  show "\<exists>p m'. kmalloc a n m = Some (p, m')"
  proof (cases "n = 0")
    case False
    from ok this show ?thesis by (cases rule: kmalloc_cases) auto
  qed (simp add: kmalloc_def)
  show "m' = m" if "kmalloc a n m = Some (0, m')" for m'
  proof (cases "n = 0")
    case True
    with that show ?thesis by (simp add: kmalloc_def)
  next
    case False
    from ok this show ?thesis
    proof (cases rule: kmalloc_cases)
      case (some ps b qs m2)
      have "baddr b + 12 \<noteq> 0"
        using block_payload [of hi bs b] ok some(1) by (simp add: heap_ok_def)
      with some that show ?thesis by simp
    qed (use that in simp)
  qed
next
  show "heap_inv hi a live m \<Longrightarrow> kmalloc a n m = Some (p, m') \<Longrightarrow> p \<noteq> 0 \<Longrightarrow>
    live p = None \<and> heap_inv hi a (live(p \<mapsto> unat n)) m' \<and> same_contents live m m'" for live m n p m'
    by (rule heap_inv_alloc)
  show "heap_inv hi a live m \<Longrightarrow> live p = Some k \<Longrightarrow>
    \<exists>m'. kfree a p m = Some m' \<and> heap_inv hi a (live(p := None)) m' \<and>
      same_contents (live(p := None)) m m'" for live m p k
    by (rule heap_inv_release)
  show "heap_inv hi a live m \<Longrightarrow> live p = Some k \<Longrightarrow> live q = Some l \<Longrightarrow> p \<noteq> q \<Longrightarrow> apart p k q l"
    for live m p k q l
    by (auto simp: heap_inv_def heap_ok_def intro: holds_apart accounts_holds)
  show "heap_inv hi a live m \<Longrightarrow> live p = Some k \<Longrightarrow> p \<noteq> 0 \<and> fits p k" for live m p k
    by (auto simp: heap_inv_def heap_ok_def dest: accounts_holds holds_fits)
  show "heap_inv hi a live m \<Longrightarrow> same_off (owned live) m m' \<Longrightarrow> heap_inv hi a live m'" for live m m'
    by (rule heap_inv_write)
qed

text \<open>
  A heap that lives in a known area of memory: allocating writes nowhere else, what it hands out is
  in the area, and the rest of memory does not matter to it.
\<close>

locale located_heap = kernel_heap alloc release inv
  for alloc :: "u32 \<Rightarrow> mem \<Rightarrow> (u32 \<times> mem) option"
    and release :: "u32 \<Rightarrow> mem \<Rightarrow> mem option"
    and inv :: "allocations \<Rightarrow> mem \<Rightarrow> bool" +
  fixes area :: "u32 set"
  assumes alloc_area: "inv live m \<Longrightarrow> alloc n m = Some (p, m') \<Longrightarrow> same_off area m m'"
    and release_area: "inv live m \<Longrightarrow> live p = Some k \<Longrightarrow> release p m = Some m' \<Longrightarrow> same_off area m m'"
    and live_area: "inv live m \<Longrightarrow> live p = Some k \<Longrightarrow> bytes p k \<subseteq> area"
    and inv_area: "inv live m \<Longrightarrow> same_on area m m' \<Longrightarrow> inv live m'"
begin

lemma alloc_and_fill:
  assumes "inv live m" "alloc n m = Some (p, m1)" "p \<noteq> 0" "same_off (bytes p (unat n)) m1 m2"
  shows "inv (live(p \<mapsto> unat n)) m2" "same_off area m m2" "bytes p (unat n) \<subseteq> area" "same_contents live m m2"
proof -
  note a = alloc_fresh [OF assms(1-3)]
  have c: "inv (live(p \<mapsto> unat n)) m2" "same_contents ((live(p \<mapsto> unat n))(p := None)) m1 m2"
    using client_write [of "live(p \<mapsto> unat n)" m1 p "unat n" m2] a assms(4) by simp_all
  show "inv (live(p \<mapsto> unat n)) m2" by (rule c(1))
  show area: "bytes p (unat n) \<subseteq> area" using live_area [OF c(1), of p "unat n"] by simp
  show "same_off area m m2"
    using alloc_area [OF assms(1,2)] assms(4) area by (auto simp: same_off_def)
  have "live(p := None) = live" using a by (simp add: fun_upd_idem)
  then show "same_contents live m m2" using a c(2) by (auto simp: same_contents_def)
qed

end

definition heap_area :: "u32 \<Rightarrow> nat \<Rightarrow> u32 set" where
  "heap_area a hi = {x. unat a \<le> unat x \<and> unat x < hi}"

lemma block_in_area:
  assumes "heap_ok m hi a bs" "b \<in> set bs"
  shows "unat a \<le> unat (baddr b)" "block_end b \<le> hi"
proof -
  show "block_end b \<le> hi" using assms by (auto simp: heap_ok_def layout_def)
  obtain c cs where bs: "bs = c # cs" using assms(2) by (cases bs) auto
  then have "a = baddr c" using assms(1) by (simp add: heap_ok_def)
  moreover have "unat (baddr c) \<le> unat (baddr b)"
    using assms bs by (auto simp: heap_ok_def block_end_def)
  ultimately show "unat a \<le> unat (baddr b)" by simp
qed

lemma heap_ok_area:
  assumes ok: "heap_ok m hi a bs" and same: "same_on (heap_area a hi) m m'"
  shows "heap_ok m' hi a bs"
proof -
  have lay: "layout hi bs" using ok by (simp add: heap_ok_def)
  have "same_header m m' (baddr c)" if c: "c \<in> set bs" for c
  proof (rule same_header_on [OF _ layout_fits [OF lay c]])
    show "same_on (bytes (baddr c) 12) m m'"
      using same block_in_area [OF ok c]
      by (auto simp: same_on_def heap_area_def bytes_def in_range_def block_end_def)
  qed
  then show ?thesis using ok linked_same_headers unfolding heap_ok_def by blast
qed

lemma heap_inv_area:
  assumes "heap_inv hi a live m" "same_on (heap_area a hi) m m'"
  shows "heap_inv hi a live m'"
  using assms heap_ok_area [OF _ assms(2)] unfolding heap_inv_def by blast

lemma kfree_area:
  assumes "heap_inv hi a live m" "live p = Some k" "kfree a p m = Some m'"
  shows "same_off (heap_area a hi) m m'"
proof -
  obtain bs where ok: "heap_ok m hi a bs" "holds_block bs p k" using assms(1,2) by (auto simp: heap_inv_def accounts_def)
  then obtain b where b: "b \<in> set bs" "p = baddr b + 12" by (auto simp: holds_block_def)
  have same: "m' x = m x" if "off_free_headers (free_block (baddr b) bs) x" for x
    using kfree_refines [OF ok(1) b(1)] assms(3) b(2) that by auto
  have "off_free_headers (free_block (baddr b) bs) x" if "x \<notin> heap_area a hi" for x
    unfolding off_free_headers_def
  proof (intro ballI impI)
    fix d assume "d \<in> set (free_block (baddr b) bs)"
    then obtain e where e: "e \<in> set bs" "baddr d = baddr e" by (auto simp: free_block_def)
    with that block_in_area [OF ok(1) e(1)] show "unat x < unat (baddr d) \<or> unat (baddr d) + 12 \<le> unat x"
      by (auto simp: heap_area_def block_end_def)
  qed
  with same show ?thesis by (simp add: same_off_def)
qed

interpretation lh: located_heap "kmalloc a" "kfree a" "heap_inv hi a" "heap_area a hi" for a hi
proof unfold_locales
  show "same_off (heap_area a hi) m m'" if inv: "heap_inv hi a live m" and km: "kmalloc a n m = Some (p, m')" for live m n p m'
  proof (cases "n = 0")
    case False
    obtain bs where ok: "heap_ok m hi a bs" using inv by (auto simp: heap_inv_def)
    from ok False show ?thesis
    proof (cases rule: kmalloc_cases)
      case (some ps b qs m2)
      then have "b \<in> set bs" by simp
      with some km block_in_area [OF ok this] show ?thesis
        by (auto simp: same_off_def heap_area_def changed_only_in_def)
    qed (use km in \<open>simp add: same_off_def\<close>)
  qed (use km in \<open>simp add: kmalloc_def same_off_def\<close>)
  show "bytes p k \<subseteq> heap_area a hi" if inv: "heap_inv hi a live m" and lv: "live p = Some k" for live m p k
  proof -
    obtain bs where ok: "heap_ok m hi a bs" "holds_block bs p k" using inv lv by (auto simp: heap_inv_def accounts_def)
    then obtain b where b: "b \<in> set bs" "unat p = unat (baddr b) + 12" "unat p + k \<le> block_end b"
      using holds_block_range by (metis heap_ok_def)
    with block_in_area [OF ok(1) b(1)] show ?thesis by (auto simp: bytes_def in_range_def heap_area_def)
  qed
  show "same_off (heap_area a hi) m m'" if "heap_inv hi a live m" "live p = Some k" "kfree a p m = Some m'" for live m p k m'
    using that by (rule kfree_area)
  show "heap_inv hi a live m'" if "heap_inv hi a live m" "same_on (heap_area a hi) m m'" for live m m'
    using that by (rule heap_inv_area)
qed

section \<open>Blocks of a heap\<close>

lemma linked_unique:
  "linked m a bs 0 \<Longrightarrow> linked m a cs 0 \<Longrightarrow> (\<forall>b \<in> set bs. baddr b \<noteq> 0) \<Longrightarrow> (\<forall>c \<in> set cs. baddr c \<noteq> 0) \<Longrightarrow> bs = cs"
proof (induction bs arbitrary: a cs)
  case Nil
  then show ?case by (cases cs) auto
next
  case (Cons b bs)
  then obtain c ds where cs: "cs = c # ds" by (cases cs) auto
  with Cons.prems have "b = c" by (simp add: block.equality)
  with Cons.IH [of "hdr_next m (baddr b)" ds] Cons.prems cs show ?case by simp
qed

lemma heap_ok_unique: "heap_ok m hi a bs \<Longrightarrow> heap_ok m hi a cs \<Longrightarrow> bs = cs"
  by (auto simp: heap_ok_def layout_def intro: linked_unique)

section \<open>Heaps with a reserve\<close>

text \<open>
  \<open>kmalloc_init\<close> makes one free block of all memory up to \<open>0x7FFFFF\<close>, of which a run of
  requests only uses the beginning.  \<open>heap_ready N hi lim a live m\<close>: every header and every
  block in use lies below \<open>lim\<close>, and some free block has \<open>N\<close> bytes below \<open>lim\<close>.
  As first fit takes the earliest block that is large enough, requests that fit in the reserve
  read and write nothing from \<open>lim\<close> on.
\<close>

definition below :: "nat \<Rightarrow> block list \<Rightarrow> bool" where
  "below lim bs \<longleftrightarrow>
     (\<forall>b \<in> set bs. unat (baddr b) + 12 \<le> lim \<and> (\<not> bfree b \<longrightarrow> block_end b \<le> lim))"

definition reserve :: "nat \<Rightarrow> nat \<Rightarrow> block list \<Rightarrow> bool" where
  "reserve N lim bs \<longleftrightarrow>
     (\<exists>b \<in> set bs. bfree b \<and> N \<le> unat (bsize b) \<and> unat (baddr b) + 12 + N \<le> lim)"

definition heap_ready :: "nat \<Rightarrow> u32 \<Rightarrow> nat \<Rightarrow> nat \<Rightarrow> allocations \<Rightarrow> mem \<Rightarrow> bool" where
  "heap_ready hi a lim N live m \<longleftrightarrow>
     (\<exists>bs. heap_ok m hi a bs \<and> accounts bs live \<and> below lim bs \<and> reserve N lim bs)"

lemma heap_ready_inv: "heap_ready hi a lim N live m \<Longrightarrow> heap_inv hi a live m"
  by (auto simp: heap_ready_def heap_inv_def)

lemma heap_ready_less: "heap_ready hi a lim N live m \<Longrightarrow> K \<le> N \<Longrightarrow> heap_ready hi a lim K live m"
  unfolding heap_ready_def reserve_def by (meson add_left_mono order_trans)

lemma reserve_take:
  assumes "layout hi (ps @ c # qs)" "below lim (ps @ c # qs)" "reserve N lim (ps @ c # qs)"
    and "suits n c" "\<forall>x \<in> set ps. \<not> suits n x" "unat n + 16 + K \<le> N"
  shows "below lim (ps @ take_block n c @ qs) \<and> reserve K lim (ps @ take_block n c @ qs) \<and>
    (block_end c \<le> lim \<or> unat (baddr c) + 24 + unat n \<le> lim)"
proof -
  obtain b where b: "b \<in> set (ps @ c # qs)" "bfree b" "N \<le> unat (bsize b)" "unat (baddr b) + 12 + N \<le> lim"
    using assms(3) by (auto simp: reserve_def)
  have le: "block_end c \<le> 4294967280" using assms(1) by (auto simp: layout_append layout_def)
  have "suits n b" using b assms(6) by (simp add: suits_def word_le_nat_alt)
  with b(1) assms(5) consider "b = c" | "b \<in> set qs" by auto
  then show ?thesis
  proof cases
    case 1
    then have big: "unat n + 16 \<le> unat (bsize c)" using b(3) assms(6) by simp
    have "block_end c \<le> 4294967296" using le by simp
    note sp = split_words(1,2) [OF assms(4) big this]
    have "below lim (take_block n c)" "reserve K lim (take_block n c)"
      using big sp b 1 assms(6) by (auto simp: below_def reserve_def take_block_def block_end_def)
    with 1 b(4) assms(2,6) show ?thesis by (auto simp: below_def reserve_def)
  next
    case 2
    then have c: "block_end c \<le> lim" using b(4) assms(1) by (auto simp: layout_append)
    have "block_end d \<le> lim" if "d \<in> set (take_block n c)" for d
      using take_block_within [OF assms(4) le that] c by simp
    then have "below lim (take_block n c)" by (fastforce simp: below_def block_end_def)
    moreover have "reserve K lim qs" using 2 b(2-4) assms(6) by (auto simp: reserve_def intro!: bexI [of _ b])
    ultimately show ?thesis using c assms(2) by (auto simp: below_def reserve_def)
  qed
qed

text \<open>The contract of a heap with a reserve: a request that fits in the reserve is granted, stays in the area, and leaves
  what it did not use.\<close>

locale reserved_heap = kernel_heap alloc release inv
  for alloc :: "u32 \<Rightarrow> mem \<Rightarrow> (u32 \<times> mem) option"
    and release :: "u32 \<Rightarrow> mem \<Rightarrow> mem option"
    and inv :: "allocations \<Rightarrow> mem \<Rightarrow> bool" +
  fixes ready :: "nat \<Rightarrow> allocations \<Rightarrow> mem \<Rightarrow> bool" and area :: "u32 set"
  assumes ready_inv: "ready N live m \<Longrightarrow> inv live m"
    and ready_alloc: "ready N live m \<Longrightarrow> n \<noteq> 0 \<Longrightarrow> unat n + 16 + K \<le> N \<Longrightarrow>
      \<exists>p m'. alloc n m = Some (p, m') \<and> p \<noteq> 0 \<and> ready K (live(p \<mapsto> unat n)) m' \<and> same_off area m m'"
    and ready_area: "ready N live m \<Longrightarrow> live p = Some k \<Longrightarrow> bytes p k \<subseteq> area"
    and ready_writes: "ready N live m \<Longrightarrow> same_off (owned live) m m' \<Longrightarrow> ready N live m'"
    and ready_local: "ready N live m \<Longrightarrow> same_on area m m' \<Longrightarrow> ready N live m'"
begin

lemma alloc_reserved:
  assumes "ready N live m" "n \<noteq> 0" "unat n + 16 + K \<le> N"
  obtains p m' where "alloc n m = Some (p, m')" "p \<noteq> 0" "live p = None" "ready K (live(p \<mapsto> unat n)) m'"
    "same_contents live m m'" "same_off area m m'" "fits p (unat n)" "bytes p (unat n) \<subseteq> area"
proof -
  obtain p m' where a: "alloc n m = Some (p, m')" "p \<noteq> 0" "ready K (live(p \<mapsto> unat n)) m'" "same_off area m m'"
    using ready_alloc [OF assms] by blast
  have "fits p (unat n)" "bytes p (unat n) \<subseteq> area"
    using live_fits [OF ready_inv [OF a(3)], of p "unat n"] ready_area [OF a(3), of p "unat n"] by simp_all
  with a that alloc_fresh [OF ready_inv [OF assms(1)] a(1,2)] show ?thesis by blast
qed

lemma owned_area: "ready N live m \<Longrightarrow> owned live \<subseteq> area"
  using ready_area unfolding owned_def bytes_def by blast

lemma ready_write:
  assumes "ready N live m" "live p = Some k" "same_off (bytes p k) m m'"
  shows "ready N live m'" "same_contents (live(p := None)) m m'" "same_off area m m'"
proof -
  have "bytes p k \<subseteq> owned live" using assms(2) by (auto simp: owned_def bytes_def)
  then show "ready N live m'" by (rule ready_writes [OF assms(1) same_off_mono [OF assms(3)]])
  show "same_contents (live(p := None)) m m'" using client_write [OF ready_inv [OF assms(1)] assms(2,3)] by blast
  show "same_off area m m'" by (rule same_off_mono [OF assms(3) ready_area [OF assms(1,2)]])
qed

end

lemma heap_ok_below:
  assumes ok: "heap_ok m hi a bs" and bl: "below lim bs" and same: "same_on (heap_area a lim) m m'"
  shows "heap_ok m' hi a bs"
proof -
  have "same_header m m' (baddr c)" if c: "c \<in> set bs" for c
  proof (rule same_header_on)
    show "same_on (bytes (baddr c) 12) m m'"
      using same block_in_area(1) [OF ok c] bl c
      by (auto simp: same_on_def heap_area_def bytes_def in_range_def below_def)
    show "fits (baddr c) 12" using ok layout_fits [OF _ c] by (auto simp: heap_ok_def)
  qed
  then show ?thesis using ok linked_same_headers unfolding heap_ok_def by blast
qed

lemma heap_ready_alloc:
  assumes "heap_ready hi a lim N live m" "n \<noteq> 0" "unat n + 16 + K \<le> N"
  shows "\<exists>p m'. kmalloc a n m = Some (p, m') \<and> p \<noteq> 0 \<and> heap_ready hi a lim K (live(p \<mapsto> unat n)) m' \<and>
    same_off (heap_area a lim) m m'"
proof -
  obtain bs where ok: "heap_ok m hi a bs" and acc: "accounts bs live" and bl: "below lim bs" and rs: "reserve N lim bs"
    using assms(1) by (auto simp: heap_ready_def)
  have lay: "layout hi bs" using ok by (simp add: heap_ok_def)
  from ok assms(2) show ?thesis
  proof (cases rule: kmalloc_cases)
    case none
    with rs assms(3) show ?thesis by (auto simp: reserve_def suits_def word_le_nat_alt)
  next
    case (some ps c qs m')
    have c: "c \<in> set bs" "bfree c" using some(1,2) by (simp_all add: suits_def)
    note rt = reserve_take [OF lay [unfolded some(1)] bl [unfolded some(1)] rs [unfolded some(1)] some(2,3) assms(3)]
    have "heap_ready hi a lim K (live(baddr c + 12 \<mapsto> unat n)) m'"
      using rt some(5) accounts_take [OF acc [unfolded some(1)] c(2) some(2)] unfolding heap_ready_def by blast
    moreover have "same_off (heap_area a lim) m m'"
      using rt some(6,7) block_in_area(1) [OF ok c(1)]
      by (auto simp: same_off_def heap_area_def changed_only_in_def)
    ultimately show ?thesis using some(4) block_payload [OF lay c(1)] by blast
  qed
qed

interpretation rh: reserved_heap "kmalloc a" "kfree a" "heap_inv hi a" "heap_ready hi a lim" "heap_area a lim"
  for a hi lim
proof unfold_locales
  fix N live m
  assume rd: "heap_ready hi a lim N live m"
  then obtain bs where bs: "heap_ok m hi a bs" "accounts bs live" "below lim bs" "reserve N lim bs"
    by (auto simp: heap_ready_def)
  show "heap_inv hi a live m" by (rule heap_ready_inv [OF rd])
  show "n \<noteq> 0 \<Longrightarrow> unat n + 16 + K \<le> N \<Longrightarrow> \<exists>p m'. kmalloc a n m = Some (p, m') \<and> p \<noteq> 0 \<and>
      heap_ready hi a lim K (live(p \<mapsto> unat n)) m' \<and> same_off (heap_area a lim) m m'" for n K
    by (rule heap_ready_alloc [OF rd])
  show "bytes p k \<subseteq> heap_area a lim" if lv: "live p = Some k" for p k
  proof -
    have "layout hi bs" using bs(1) by (simp add: heap_ok_def)
    then obtain b where "b \<in> set bs" "\<not> bfree b" "unat p = unat (baddr b) + 12" "unat p + k \<le> block_end b"
      using accounts_holds [OF bs(2) lv] holds_block_range by metis
    with bs(3) block_in_area(1) [OF bs(1)] show ?thesis
      by (fastforce simp: bytes_def in_range_def heap_area_def below_def)
  qed
  show "heap_ready hi a lim N live m'" if "same_off (owned live) m m'" for m'
    using bs heap_ok_write [OF bs(1,2) that] unfolding heap_ready_def by blast
  show "heap_ready hi a lim N live m'" if "same_on (heap_area a lim) m m'" for m'
    using bs heap_ok_below [OF bs(1,3) that] unfolding heap_ready_def by blast
qed

section \<open>Initialisation\<close>

lemma kmalloc_init_ok:
  assumes "0 < unat a" "unat a + 12 \<le> 0x7FFFFF"
  shows "heap_ok (snd (kmalloc_init a m)) 0x7FFFFF a
    [\<lparr>baddr = a, bsize = 0x7FFFFF - a - 12, bfree = True\<rparr>]"
proof -
  have fa: "fits a 12" using assms by (simp add: fits_def)
  have d: "unat (0x7FFFFF - a) = 0x7FFFFF - unat a"
    using assms by (subst unat_diff_u32) (simp_all add: word_le_nat_alt)
  have "unat (0x7FFFFF - a - 12) = 0x7FFFFF - unat a - 12"
    using assms d by (subst unat_diff_u32) (simp_all add: word_le_nat_alt)
  then have "layout 0x7FFFFF [\<lparr>baddr = a, bsize = 0x7FFFFF - a - 12, bfree = True\<rparr>]"
    using assms by (auto simp: layout_def block_end_def)
  then show ?thesis
    using fa by (simp add: kmalloc_init_def Let_def heap_ok_def)
qed

lemma kmalloc_init_inv:
  "0 < unat a \<Longrightarrow> unat a + 12 \<le> 0x7FFFFF \<Longrightarrow>
    heap_inv 0x7FFFFF a Map.empty (snd (kmalloc_init a m))"
  unfolding heap_inv_def by (rule exI, rule conjI, rule kmalloc_init_ok) (simp_all add: accounts_def)

lemma kmalloc_init_ready:
  assumes "0 < unat a" "unat a + 12 + N \<le> lim" "lim \<le> 0x7FFFFF"
  shows "heap_ready 0x7FFFFF a lim N Map.empty (snd (kmalloc_init a m))"
proof -
  have a: "unat a + 12 \<le> 0x7FFFFF" using assms by simp
  have "unat (0x7FFFFF - a) = 0x7FFFFF - unat a"
    using assms by (subst unat_diff_u32) (simp_all add: word_le_nat_alt)
  then have "unat (0x7FFFFF - a - 12) = 0x7FFFFF - unat a - 12"
    using assms by (subst unat_diff_u32) (simp_all add: word_le_nat_alt)
  with assms kmalloc_init_ok [OF assms(1) a] show ?thesis
    unfolding heap_ready_def by (intro exI conjI) (auto simp: accounts_def below_def reserve_def)
qed

text \<open>The first allocation from a fresh heap.\<close>

lemma fresh_heap_alloc:
  fixes a m n
  defines "b \<equiv> \<lparr>baddr = a, bsize = 0x7FFFFF - a - 12, bfree = True\<rparr>"
  assumes "0 < unat a" "unat a + 12 \<le> 0x7FFFFF" "n \<noteq> 0" "n \<le> bsize b"
  obtains m' where "kmalloc a n (snd (kmalloc_init a m)) = Some (a + 12, m')"
    "heap_ok m' 0x7FFFFF a (take_block n b)"
proof -
  have ok: "heap_ok (snd (kmalloc_init a m)) 0x7FFFFF a ([] @ b # [])"
    using kmalloc_init_ok [OF assms(2,3)] by (simp add: b_def)
  have "suits n b" using assms(5) by (simp add: suits_def b_def)
  from kmalloc_loop_first [OF ok _ this] that assms(4) show ?thesis
    by (auto simp: kmalloc_def b_def)
qed

section \<open>Runs of the heap\<close>

text \<open>
  A run from \<open>kmalloc_init a\<close>: requests that are granted or refused, frees of live
  pointers, and writes of clients inside their own allocations.
\<close>

inductive heap_run :: "u32 \<Rightarrow> mem \<Rightarrow> allocations \<Rightarrow> mem \<Rightarrow> bool" for a m0 where
  init: "heap_run a m0 Map.empty (snd (kmalloc_init a m0))"
| grant: "heap_run a m0 live m \<Longrightarrow> kmalloc a n m = Some (p, m') \<Longrightarrow> p \<noteq> 0 \<Longrightarrow>
    heap_run a m0 (live(p \<mapsto> unat n)) m'"
| refuse: "heap_run a m0 live m \<Longrightarrow> kmalloc a n m = Some (0, m') \<Longrightarrow> heap_run a m0 live m'"
| free: "heap_run a m0 live m \<Longrightarrow> live p = Some k \<Longrightarrow> kfree a p m = Some m' \<Longrightarrow>
    heap_run a m0 (live(p := None)) m'"
| client: "heap_run a m0 live m \<Longrightarrow> live p = Some k \<Longrightarrow> in_range x p k \<Longrightarrow>
    heap_run a m0 live (store8 x v m)"

lemma heap_run_inv:
  assumes "heap_run a m0 live m" "0 < unat a" "unat a + 12 \<le> 0x7FFFFF"
  shows "heap_inv 0x7FFFFF a live m"
  using assms(1)
proof induction
  case init
  then show ?case by (rule kmalloc_init_inv [OF assms(2,3)])
next
  case (grant live m n p m')
  then show ?case using kh.alloc_fresh by blast
next
  case (refuse live m n m')
  then show ?case using kh.alloc_null by blast
next
  case (free live m p k m')
  then obtain m2 where "kfree a p m = Some m2" "heap_inv 0x7FFFFF a (live(p := None)) m2"
    using kh.release_ok [OF free.IH free.hyps(2)] by blast
  moreover from this(1) free.hyps(3) have "m2 = m'" by simp
  ultimately show ?case by blast
next
  case (client live m p k x v)
  have "same_off (bytes p k) m (store8 x v m)"
    using client.hyps(3) by (auto simp: same_off_def bytes_def store8_apply)
  then show ?case using kh.client_write [OF client.IH client.hyps(2)] by blast
qed

lemma holds_in_heap:
  assumes "heap_ok m hi a bs" "holds_block bs p k"
  shows "unat a + 12 \<le> unat p \<and> unat p + k \<le> hi"
proof -
  obtain b where b: "b \<in> set bs" "unat p = unat (baddr b) + 12" "unat p + k \<le> block_end b"
    using assms holds_block_range by (metis heap_ok_def)
  with block_in_area [OF assms(1) b(1)] show ?thesis by simp
qed

text \<open>Requests take bytes only from blocks there are.\<close>

definition covers :: "block list \<Rightarrow> u32 \<Rightarrow> bool" where
  "covers bs x \<longleftrightarrow> (\<exists>b \<in> set bs. unat (baddr b) \<le> unat x \<and> unat x < block_end b)"

definition requested :: "u32 \<Rightarrow> mem \<Rightarrow> mem \<Rightarrow> bool" where
  "requested a m m' \<longleftrightarrow> (\<exists>n p. kmalloc a n m = Some (p, m'))"

lemma kmalloc_covers:
  assumes "heap_ok m hi a bs" "kmalloc a n m = Some (p, m')"
  shows "\<exists>cs. heap_ok m' hi a cs \<and> (\<forall>x. covers cs x \<longrightarrow> covers bs x)"
    and "p \<noteq> 0 \<Longrightarrow> in_range x p (unat n) \<Longrightarrow> covers bs x"
proof -
  have lay: "layout hi bs" using assms(1) by (simp add: heap_ok_def)
  consider (same) "p = 0" "m' = m"
    | (took) ps b qs where "bs = ps @ b # qs" "suits n b" "p = baddr b + 12" "heap_ok m' hi a (ps @ take_block n b @ qs)"
  proof (cases "n = 0")
    case False
    from assms(1) False show ?thesis by (cases rule: kmalloc_cases) (use assms(2) same took in auto)
  qed (use assms(2) same in \<open>simp add: kmalloc_def\<close>)
  then have both: "(\<exists>cs. heap_ok m' hi a cs \<and> (\<forall>x. covers cs x \<longrightarrow> covers bs x)) \<and>
      (p \<noteq> 0 \<longrightarrow> in_range x p (unat n) \<longrightarrow> covers bs x)"
  proof cases
    case took
    have b: "b \<in> set bs" "block_end b \<le> 4294967280" using lay took(1) by (auto simp: layout_append layout_def)
    have "\<forall>x. covers (ps @ take_block n b @ qs) x \<longrightarrow> covers bs x"
      using take_block_within [OF took(2) b(2)] unfolding covers_def took(1) by fastforce
    moreover have "in_range x p (unat n) \<Longrightarrow> covers bs x"
      using b(1) took(2,3) block_payload [OF lay b(1)]
      by (auto simp: covers_def in_range_def block_end_def suits_def word_le_nat_alt intro!: bexI [of _ b])
    ultimately show ?thesis using took(4) by blast
  qed (use assms(1) in auto)
  then show "\<exists>cs. heap_ok m' hi a cs \<and> (\<forall>x. covers cs x \<longrightarrow> covers bs x)"
    "p \<noteq> 0 \<Longrightarrow> in_range x p (unat n) \<Longrightarrow> covers bs x" by blast+
qed

lemma requested_covers:
  "(requested a)\<^sup>*\<^sup>* m m' \<Longrightarrow> heap_ok m hi a bs \<Longrightarrow> \<exists>cs. heap_ok m' hi a cs \<and> (\<forall>x. covers cs x \<longrightarrow> covers bs x)"
proof (induction rule: rtranclp_induct)
  case (step m1 m2)
  then show ?case using kmalloc_covers(1) unfolding requested_def by meson
qed blast

text \<open>Freeing a block before a free one, with no free block next to the two.\<close>

lemma coalesce_append: "ps = [] \<or> \<not> bfree (last ps) \<Longrightarrow> coalesce (ps @ bs) = coalesce ps @ coalesce bs"
proof (induction ps rule: coalesce.induct)
  case (2 b)
  then show ?case by (cases bs) simp_all
qed (auto split: if_splits)

lemma coalesce_head: "qs = [] \<or> \<not> bfree (hd qs) \<Longrightarrow> coalesce (b # qs) = b # coalesce qs"
  by (cases qs) simp_all

lemma coalesce_pair:
  assumes "layout hi (ps @ b # c # qs)" "bfree c" "ps = [] \<or> \<not> bfree (last ps)" "qs = [] \<or> \<not> bfree (hd qs)"
  shows "coalesce (free_block (baddr b) (ps @ b # c # qs)) =
    coalesce ps @ \<lparr>baddr = baddr b, bsize = 12 + bsize c, bfree = True\<rparr> # coalesce qs"
proof -
  have "baddr b \<notin> baddr ` set ps" "baddr b \<notin> baddr ` set (c # qs)"
    using assms(1) by (auto simp: layout_append block_end_def image_iff)
  then have "free_block (baddr b) (ps @ b # c # qs) = ps @ b\<lparr>bfree := True\<rparr> # c # qs"
    using free_block_notin [of "baddr b" ps] free_block_notin [of "baddr b" "c # qs"]
    by (simp add: free_block_def)
  then show ?thesis using assms(2) coalesce_append [OF assms(3)] coalesce_head [OF assms(4)] by (cases b) simp
qed

lemma merged_end:
  assumes "layout hi (b # c # bs)"
  shows "block_end (b\<lparr>bsize := 12 + bsize c\<rparr>) \<le> block_end c"
    and "block_end (b\<lparr>bsize := 12 + bsize c\<rparr>) = unat (baddr b) + 24 + unat (bsize c)"
proof -
  have "block_end b \<le> unat (baddr c)" "block_end c \<le> 4294967280" using assms by (auto simp: layout_def)
  moreover from this have "unat (12 + bsize c) = 12 + unat (bsize c)"
    by (subst unat_add_u32) (simp_all add: block_end_def)
  ultimately show "block_end (b\<lparr>bsize := 12 + bsize c\<rparr>) \<le> block_end c"
    "block_end (b\<lparr>bsize := 12 + bsize c\<rparr>) = unat (baddr b) + 24 + unat (bsize c)"
    by (simp_all add: block_end_def)
qed

lemma coalesce_covers:
  assumes "layout hi bs" "c \<in> set (coalesce bs)"
  shows "\<exists>d \<in> set bs. \<exists>e \<in> set bs. unat (baddr d) \<le> unat (baddr c) \<and> block_end c \<le> block_end e"
  using assms
proof (induction bs rule: coalesce.induct)
  case (3 b d bs)
  show ?case
  proof (cases "bfree b \<and> bfree d")
    case True
    let ?b = "b\<lparr>bsize := 12 + bsize d\<rparr>"
    have e: "block_end ?b \<le> block_end d" by (rule merged_end [OF "3.prems"(1)])
    with "3.prems"(1) have lay: "layout hi (?b # bs)" by fastforce
    have c: "c \<in> set (coalesce (?b # bs))" using "3.prems"(2) True by simp
    obtain x y where x: "x \<in> set (?b # bs)" "unat (baddr x) \<le> unat (baddr c)"
      and y: "y \<in> set (?b # bs)" "block_end c \<le> block_end y"
      using "3.IH"(1) [OF True lay c] by blast
    have "\<exists>x \<in> set (b # d # bs). unat (baddr x) \<le> unat (baddr c)" using x by auto
    moreover have "\<exists>y \<in> set (b # d # bs). block_end c \<le> block_end y"
      using y e order_trans by (cases "y = ?b") auto
    ultimately show ?thesis by blast
  next
    case False
    with "3.prems"(2) consider "c = b" | "c \<in> set (coalesce (d # bs))" by auto
    then show ?thesis
    proof cases
      case 2
      with "3.IH"(2) [OF False] "3.prems"(1) show ?thesis by auto
    qed auto
  qed
qed auto

lemma merged_uncovered:
  assumes "layout hi (ps @ b # c # qs)" "unat (baddr b) + 24 + unat (bsize c) \<le> unat x" "unat x < block_end c"
  shows "\<not> covers (coalesce ps @ \<lparr>baddr = baddr b, bsize = 12 + bsize c, bfree = True\<rparr> # coalesce qs) x"
proof -
  have lay: "layout hi ps" "layout hi (b # c # qs)" "layout hi qs"
    and ps: "\<forall>y \<in> set ps. block_end y \<le> unat (baddr b)" and qs: "\<forall>y \<in> set qs. block_end c \<le> unat (baddr y)"
    using assms(1) by (auto simp: layout_append)
  have "block_end y \<le> unat (baddr b)" if "y \<in> set (coalesce ps)" for y
    using coalesce_covers [OF lay(1) that] ps by (meson order_trans)
  moreover have "block_end c \<le> unat (baddr y)" if "y \<in> set (coalesce qs)" for y
    using coalesce_covers [OF lay(3) that] qs by (meson order_trans)
  ultimately show ?thesis
    using assms(2,3) merged_end(2) [OF lay(2)] by (fastforce simp: covers_def block_end_def)
qed

text \<open>Two requests to a fresh heap at \<open>0x417FF0\<close>.\<close>

lemma demo_two_blocks:
  obtains m1 m2 where
    "kmalloc 0x417FF0 20 (snd (kmalloc_init 0x417FF0 (\<lambda>_. 0))) = Some (0x417FFC, m1)"
    "kmalloc 0x417FF0 32 m1 = Some (0x41801C, m2)"
    "heap_ok m1 0x7FFFFF 0x417FF0 [\<lparr>baddr = 0x417FF0, bsize = 20, bfree = False\<rparr>,
       \<lparr>baddr = 0x418010, bsize = 0x3E7FE3, bfree = True\<rparr>]"
    "heap_ok m2 0x7FFFFF 0x417FF0 [\<lparr>baddr = 0x417FF0, bsize = 20, bfree = False\<rparr>,
       \<lparr>baddr = 0x418010, bsize = 32, bfree = False\<rparr>, \<lparr>baddr = 0x41803C, bsize = 0x3E7FB7, bfree = True\<rparr>]"
proof -
  obtain m1 where m1: "kmalloc 0x417FF0 20 (snd (kmalloc_init 0x417FF0 (\<lambda>_. 0))) = Some (0x417FFC, m1)"
    "heap_ok m1 0x7FFFFF 0x417FF0 [\<lparr>baddr = 0x417FF0, bsize = 20, bfree = False\<rparr>,
       \<lparr>baddr = 0x418010, bsize = 0x3E7FE3, bfree = True\<rparr>]"
    by (rule fresh_heap_alloc [of "0x417FF0" 20 "\<lambda>_. 0"]) (simp_all add: take_block_def)
  obtain m2 where "kmalloc 0x417FF0 32 m1 = Some (0x41801C, m2)"
    "heap_ok m2 0x7FFFFF 0x417FF0 [\<lparr>baddr = 0x417FF0, bsize = 20, bfree = False\<rparr>,
       \<lparr>baddr = 0x418010, bsize = 32, bfree = False\<rparr>, \<lparr>baddr = 0x41803C, bsize = 0x3E7FB7, bfree = True\<rparr>]"
    by (rule kmalloc_cases [OF m1(2), of 32]) (auto simp: suits_def take_block_def Cons_eq_append_conv)
  with m1 that show ?thesis by blast
qed

section \<open>Properties\<close>

text \<open>C2: in every run of the kernel heap, two live allocations never overlap, every live
  allocation lies inside the heap (behind the first header and below the end the heap was
  given), and both routines return: \<open>kmalloc\<close> on every request and \<open>kfree\<close> on every
  live pointer.\<close>

theorem heap_run_safe:
  assumes "heap_run a m0 live m" "0 < unat a" "unat a + 12 \<le> 0x7FFFFF"
  shows "(\<forall>p k q l. live p = Some k \<longrightarrow> live q = Some l \<longrightarrow> p \<noteq> q \<longrightarrow> apart p k q l) \<and>
    (\<forall>p k. live p = Some k \<longrightarrow> unat a + 12 \<le> unat p \<and> unat p + k \<le> 0x7FFFFF) \<and>
    (\<forall>n. \<exists>p m'. kmalloc a n m = Some (p, m')) \<and>
    (\<forall>p k. live p = Some k \<longrightarrow> (\<exists>m'. kfree a p m = Some m'))"
proof -
  note inv = heap_run_inv [OF assms]
  have "\<forall>p k. live p = Some k \<longrightarrow> unat a + 12 \<le> unat p \<and> unat p + k \<le> 0x7FFFFF"
    using inv unfolding heap_inv_def by (blast dest: accounts_holds holds_in_heap)
  with kh.live_apart [OF inv] kh.alloc_returns [OF inv] kh.release_ok [OF inv]
  show ?thesis by blast
qed

theorem heap_run_safe_witness:
  "\<exists>m0 live m. heap_run 0x417FF0 m0 live m \<and> live 0x417FFC = Some 20 \<and> live 0x41801C = Some 32 \<and>
     apart 0x417FFC 20 0x41801C 32 \<and> (\<exists>m'. kfree 0x417FF0 0x41801C m = Some m')"
proof -
  obtain m1 m2 where m: "kmalloc 0x417FF0 20 (snd (kmalloc_init 0x417FF0 (\<lambda>_. 0))) = Some (0x417FFC, m1)"
    "kmalloc 0x417FF0 32 m1 = Some (0x41801C, m2)"
    by (rule demo_two_blocks)
  let ?live = "[0x417FFC \<mapsto> unat (20 :: u32), 0x41801C \<mapsto> unat (32 :: u32)] :: allocations"
  have run: "heap_run 0x417FF0 (\<lambda>_. 0) ?live m2"
    by (rule heap_run.grant [OF heap_run.grant [OF heap_run.init m(1)] m(2)]) simp_all
  have l: "?live 0x417FFC = Some 20" "?live 0x41801C = Some 32" by simp_all
  have "apart 0x417FFC 20 0x41801C 32" "\<exists>m'. kfree 0x417FF0 0x41801C m2 = Some m'"
    using heap_run_safe [OF run] l by auto
  with run l show ?thesis by blast
qed

text \<open>C3: \<open>kmalloc\<close> is first fit.  On a well-formed heap a request that no free block
  can hold returns \<open>NULL\<close> and changes nothing; otherwise the payload of the first
  free block that is large enough is returned, the block is split when at least 16 bytes
  more than requested are available, and only bytes of that block are written.\<close>

theorem kmalloc_first_fit:
  assumes "heap_ok m hi a bs" "n \<noteq> 0"
  shows "(\<forall>b \<in> set bs. \<not> suits n b) \<and> kmalloc a n m = Some (0, m) \<or>
    (\<exists>ps b qs m'. bs = ps @ b # qs \<and> suits n b \<and> (\<forall>x \<in> set ps. \<not> suits n x) \<and>
      kmalloc a n m = Some (baddr b + 12, m') \<and> heap_ok m' hi a (alloc_blocks n bs) \<and>
      changed_only_in (unat (baddr b)) (block_end b) m m')"
  using assms
proof (cases rule: kmalloc_cases)
  case (some ps b qs m')
  with alloc_blocks_first [OF some(3,2), of qs] show ?thesis by auto
qed blast

theorem kmalloc_first_fit_witness:
  "\<exists>m m'. heap_ok m 0x7FFFFF 0x417FF0
       [\<lparr>baddr = 0x417FF0, bsize = 0x3E8003, bfree = True\<rparr>] \<and>
     kmalloc 0x417FF0 20 m = Some (0x417FFC, m') \<and>
     heap_ok m' 0x7FFFFF 0x417FF0 [\<lparr>baddr = 0x417FF0, bsize = 20, bfree = False\<rparr>,
       \<lparr>baddr = 0x418010, bsize = 0x3E7FE3, bfree = True\<rparr>]"
proof -
  define m where "m = snd (kmalloc_init 0x417FF0 (\<lambda>_. 0))"
  have ok: "heap_ok m 0x7FFFFF 0x417FF0 [\<lparr>baddr = 0x417FF0, bsize = 0x3E8003, bfree = True\<rparr>]"
    using kmalloc_init_ok [of "0x417FF0" "\<lambda>_. 0"] by (simp add: m_def)
  from kmalloc_first_fit [OF ok, of 20] obtain m' where
    "kmalloc 0x417FF0 20 m = Some (0x417FFC, m')"
    "heap_ok m' 0x7FFFFF 0x417FF0 [\<lparr>baddr = 0x417FF0, bsize = 20, bfree = False\<rparr>,
       \<lparr>baddr = 0x418010, bsize = 0x3E7FE3, bfree = True\<rparr>]"
    by (auto simp: suits_def take_block_def Cons_eq_append_conv)
  with ok show ?thesis by blast
qed

text \<open>C4: \<open>kfree\<close> on a block of a well-formed heap returns, marks the block free and
  merges every run of adjacent free blocks; the heap stays well formed, and nothing is
  written outside the headers of free blocks.\<close>

theorem kfree_coalesces:
  assumes "heap_ok m hi a bs" "b \<in> set bs"
  shows "\<exists>m'. kfree a (baddr b + 12) m = Some m' \<and>
    heap_ok m' hi a (coalesce (free_block (baddr b) bs)) \<and>
    (\<forall>x. off_free_headers (free_block (baddr b) bs) x \<longrightarrow> m' x = m x)"
  by (rule kfree_refines [OF assms])

theorem kfree_coalesces_witness:
  "\<exists>m m'. heap_ok m 0x7FFFFF 0x417FF0 [\<lparr>baddr = 0x417FF0, bsize = 20, bfree = False\<rparr>,
       \<lparr>baddr = 0x418010, bsize = 32, bfree = False\<rparr>, \<lparr>baddr = 0x41803C, bsize = 0x3E7FB7, bfree = True\<rparr>] \<and>
     kfree 0x417FF0 0x41801C m = Some m' \<and>
     heap_ok m' 0x7FFFFF 0x417FF0 [\<lparr>baddr = 0x417FF0, bsize = 20, bfree = False\<rparr>,
       \<lparr>baddr = 0x418010, bsize = 0x3E7FC3, bfree = True\<rparr>]"
proof -
  obtain m where ok: "heap_ok m 0x7FFFFF 0x417FF0 [\<lparr>baddr = 0x417FF0, bsize = 20, bfree = False\<rparr>,
       \<lparr>baddr = 0x418010, bsize = 32, bfree = False\<rparr>, \<lparr>baddr = 0x41803C, bsize = 0x3E7FB7, bfree = True\<rparr>]"
    by (rule demo_two_blocks)
  from kfree_coalesces [OF ok, of "\<lparr>baddr = 0x418010, bsize = 32, bfree = False\<rparr>"] ok show ?thesis
    by (auto simp: free_block_def)
qed

text \<open>C5: neither routine disturbs live data: the bytes of every allocation that stays live
  are the same before and after a \<open>kmalloc\<close> or a \<open>kfree\<close>, and a granted pointer was
  not live.\<close>

theorem heap_keeps_live_data:
  assumes "heap_inv hi a live m"
  shows "(\<forall>n p m'. kmalloc a n m = Some (p, m') \<longrightarrow> p \<noteq> 0 \<longrightarrow>
      live p = None \<and> same_contents live m m') \<and>
    (\<forall>p k m'. live p = Some k \<longrightarrow> kfree a p m = Some m' \<longrightarrow> same_contents (live(p := None)) m m')"
  using kh.alloc_fresh [OF assms] kh.release_ok [OF assms] by fastforce

theorem heap_keeps_live_data_witness:
  "\<exists>m m'. heap_inv 0x7FFFFF 0x417FF0 [0x417FFC \<mapsto> 20] m \<and> kmalloc 0x417FF0 32 m = Some (0x41801C, m') \<and>
     same_contents [0x417FFC \<mapsto> 20] m m'"
proof -
  obtain m m' where ok: "heap_ok m 0x7FFFFF 0x417FF0 [\<lparr>baddr = 0x417FF0, bsize = 20, bfree = False\<rparr>,
       \<lparr>baddr = 0x418010, bsize = 0x3E7FE3, bfree = True\<rparr>]" and al: "kmalloc 0x417FF0 32 m = Some (0x41801C, m')"
    by (rule demo_two_blocks)
  have inv: "heap_inv 0x7FFFFF 0x417FF0 [0x417FFC \<mapsto> 20] m"
    using ok unfolding heap_inv_def by (intro exI conjI) (auto simp: accounts_def holds_block_def)
  have "same_contents [0x417FFC \<mapsto> 20] m m'"
    using heap_keeps_live_data [OF inv] al by auto
  with inv al show ?thesis by blast
qed

text \<open>C19: merging forgets the first block's own bytes.  Freeing an allocated block \<open>b\<close> that
  stands before a free block \<open>c\<close>, with no free block next to the two, makes one block of
  the 12 bytes of \<open>c\<close>'s header plus \<open>c\<close>'s size (\<open>=\<close> in place of \<open>+=\<close>).  The
  bytes from its end to the old end of \<open>c\<close>, at least as many as \<open>b\<close> had, belong to no
  block any more, and no request hands any of them out as long as nothing is freed.\<close>

theorem kfree_merge_loses_space:
  assumes "heap_ok m hi a (ps @ b # c # qs)" "\<not> bfree b" "bfree c"
    and "ps = [] \<or> \<not> bfree (last ps)" "qs = [] \<or> \<not> bfree (hd qs)"
  defines "bs \<equiv> coalesce ps @ \<lparr>baddr = baddr b, bsize = 12 + bsize c, bfree = True\<rparr> # coalesce qs"
    and "lost \<equiv> {x. unat (baddr b) + 24 + unat (bsize c) \<le> unat x \<and> unat x < block_end c}"
  shows "\<exists>m'. kfree a (baddr b + 12) m = Some m' \<and> heap_ok m' hi a bs \<and>
    unat (baddr b) + 24 + unat (bsize c) + unat (bsize b) \<le> block_end c \<and>
    (\<forall>x \<in> lost. \<not> covers bs x) \<and>
    (\<forall>m1 n p m2. (requested a)\<^sup>*\<^sup>* m' m1 \<longrightarrow> kmalloc a n m1 = Some (p, m2) \<longrightarrow> p \<noteq> 0 \<longrightarrow>
      (\<forall>x \<in> lost. \<not> in_range x p (unat n)))"
proof -
  have lay: "layout hi (ps @ b # c # qs)" using assms(1) by (simp add: heap_ok_def)
  then have ord: "block_end b \<le> unat (baddr c)" by (simp add: layout_append)
  have "coalesce (free_block (baddr b) (ps @ b # c # qs)) = bs"
    unfolding bs_def by (rule coalesce_pair [OF lay assms(3-5)])
  then obtain m' where m': "kfree a (baddr b + 12) m = Some m'" "heap_ok m' hi a bs"
    using kfree_refines [OF assms(1), of b] by auto
  have free: "\<not> covers bs x" if "x \<in> lost" for x
    using merged_uncovered [OF lay] that unfolding bs_def lost_def by blast
  moreover have "\<not> in_range x p (unat n)"
    if "(requested a)\<^sup>*\<^sup>* m' m1" "kmalloc a n m1 = Some (p, m2)" "p \<noteq> 0" "x \<in> lost" for m1 n p m2 x
    using requested_covers [OF that(1) m'(2)] kmalloc_covers(2) [OF _ that(2,3)] free [OF that(4)] by blast
  moreover have "unat (baddr b) + 24 + unat (bsize c) + unat (bsize b) \<le> block_end c"
    using ord by (simp add: block_end_def)
  ultimately show ?thesis using m' by blast
qed

theorem kfree_merge_loses_space_witness:
  "\<exists>m m'. heap_ok m 0x7FFFFF 0x417FF0 [\<lparr>baddr = 0x417FF0, bsize = 20, bfree = False\<rparr>,
       \<lparr>baddr = 0x418010, bsize = 32, bfree = False\<rparr>, \<lparr>baddr = 0x41803C, bsize = 0x3E7FB7, bfree = True\<rparr>] \<and>
     kfree 0x417FF0 0x41801C m = Some m' \<and>
     heap_ok m' 0x7FFFFF 0x417FF0 [\<lparr>baddr = 0x417FF0, bsize = 20, bfree = False\<rparr>,
       \<lparr>baddr = 0x418010, bsize = 0x3E7FC3, bfree = True\<rparr>]"
proof -
  obtain m where ok: "heap_ok m 0x7FFFFF 0x417FF0 ([\<lparr>baddr = 0x417FF0, bsize = 20, bfree = False\<rparr>] @
       \<lparr>baddr = 0x418010, bsize = 32, bfree = False\<rparr> # \<lparr>baddr = 0x41803C, bsize = 0x3E7FB7, bfree = True\<rparr> # [])"
    by (rule demo_two_blocks) simp
  from kfree_merge_loses_space [OF ok] ok show ?thesis by auto
qed

end
