(* ===== verification/Kmemory.thy ===== *)
theory Kmemory
  imports Memory
begin

text \<open>
  \<^verbatim>\<open>src/kernel/klibc/kmemory.c\<close>: byte-wise fill and copy.  Each loop runs its
  32-bit index from 0 below \<open>count\<close>; the returned pointer is the destination.
\<close>

definition kmemset :: "u32 \<Rightarrow> u8 \<Rightarrow> u32 \<Rightarrow> mem \<Rightarrow> u32 \<times> mem" where
  "kmemset dest val count m =
     (dest, fold (\<lambda>i. store8 (dest + U32 i) val) [0..<unat count] m)"

definition kmemcpy :: "u32 \<Rightarrow> u32 \<Rightarrow> u32 \<Rightarrow> mem \<Rightarrow> u32 \<times> mem" where
  "kmemcpy src dest count m =
     (dest, fold (\<lambda>i m. store8 (dest + U32 i) (load8 m (src + U32 i)) m) [0..<unat count] m)"

section \<open>Lemmas\<close>

lemma fold_store8_nth:
  assumes "n \<le> 4294967296"
  shows "fold (\<lambda>i. store8 (d + U32 i) v) [0..<n] m x =
    (if unat (x - d) < n then v else m x)"
  using assms
proof (induction n)
  case (Suc n)
  have "x = d + U32 n \<longleftrightarrow> unat (x - d) = n"
    using Suc.prems by (metis add_diff_cancel_left' diff_add_cancel add.commute
        of_nat_unat_u32 unat_of_nat_u32 Suc_le_lessD)
  with Suc show ?case by (auto simp: store8_apply)
qed simp

lemma kmemset_nth:
  "snd (kmemset d v n m) x = (if x - d < n then v else m x)"
  using unat_u32_bound [of n]
  by (simp add: kmemset_def fold_store8_nth word_less_nat_alt)

lemma kmemcpy_fold:
  fixes count :: u32
  assumes "n \<le> unat count" "\<And>i j. i < unat count \<Longrightarrow> j < unat count \<Longrightarrow> src + U32 i \<noteq> dest + U32 j"
  shows "fold (\<lambda>i m. store8 (dest + U32 i) (load8 m (src + U32 i)) m) [0..<n] m x =
    (if unat (x - dest) < n then m (src + (x - dest)) else m x)"
  using assms(1)
proof (induction n arbitrary: x)
  case (Suc n)
  let ?f = "fold (\<lambda>i m. store8 (dest + U32 i) (load8 m (src + U32 i)) m) [0..<n] m"
  have n: "n < unat count" "n < 4294967296" using Suc.prems unat_u32_bound [of count] by auto
  have x: "x = dest + U32 n \<longleftrightarrow> unat (x - dest) = n"
    using n(2) by (metis add_diff_cancel_left' diff_add_cancel add.commute
        of_nat_unat_u32 unat_of_nat_u32)
  have "\<not> unat (src + U32 n - dest) < n"
  proof
    assume *: "unat (src + U32 n - dest) < n"
    have "src + U32 n = dest + U32 (unat (src + U32 n - dest))" by simp
    with assms(2) [OF n(1), of "unat (src + U32 n - dest)"] * n(1) show False by simp
  qed
  with Suc have src: "load8 ?f (src + U32 n) = m (src + U32 n)" by (simp add: load8_def)
  show ?case
    using Suc x src by (auto simp: store8_apply [of "dest + U32 n" _ ?f])
qed simp

section \<open>Properties\<close>

text \<open>\<open>kmemset\<close> writes \<open>val\<close> to exactly the \<open>count\<close> bytes from
  \<open>dest\<close> (addresses wrap as the pointer arithmetic does), leaves every other byte, and
  returns \<open>dest\<close>.\<close>

theorem kmemset_spec:
  "kmemset dest val count m = (dest, \<lambda>x. if x - dest < count then val else m x)"
  using kmemset_nth [of dest val count m] by (auto simp: kmemset_def)

text \<open>\<open>kmemcpy\<close> copies \<open>count\<close> bytes.  When source and destination do not
  overlap, the destination range holds what the source range held and every other byte,
  the source included, is unchanged.\<close>

theorem kmemcpy_spec:
  assumes "\<And>i j. i < unat count \<Longrightarrow> j < unat count \<Longrightarrow> src + U32 i \<noteq> dest + U32 j"
  shows "kmemcpy src dest count m =
    (dest, \<lambda>x. if x - dest < count then m (src + (x - dest)) else m x)"
  using kmemcpy_fold [of "unat count" count src dest m, OF order_refl assms]
  by (auto simp: kmemcpy_def word_less_nat_alt)

theorem kmemcpy_spec_witness:
  "snd (kmemcpy 0x1000 0x2000 3 (\<lambda>x. ucast x)) 0x2002 = 2"
proof -
  have "0x1000 + U32 i \<noteq> (0x2000 :: u32) + U32 j"
    if "i < unat (3 :: u32)" "j < unat (3 :: u32)" for i j
  proof -
    from that have "i < 3" "j < 3" by simp_all
    then show ?thesis by (simp add: word_unat_eq_iff unat_word_ariths unat_of_nat_u32)
  qed
  then show ?thesis by (subst kmemcpy_spec) auto
qed

end
