(* ===== verification/Kstring.thy ===== *)
theory Kstring
  imports Memory
begin

text \<open>
  \<^verbatim>\<open>src/kernel/klibc/kstring.c\<close>: NUL-terminated strings in memory.  \<open>kstrlen\<close>
  has no bound on its loop, so it is option-valued; the bounded copies terminate by the
  distance of the index from its limit.  The predicate \<open>str_at\<close> says which string a
  pointer points to, and the results say what each routine does to it.
\<close>

section \<open>Operations\<close>

partial_function (option) kstrlen_loop :: "u32 \<Rightarrow> u64 \<Rightarrow> mem \<Rightarrow> u64 option" where
  "kstrlen_loop str len m =
     (if load8 m (str + ucast len) \<noteq> 0 then kstrlen_loop str (len + 1) m else Some len)"

definition kstrlen :: "u32 \<Rightarrow> mem \<Rightarrow> u64 option" where
  "kstrlen str m = kstrlen_loop str 0 m"

text \<open>
  The common loop of the two copies: bytes of \<open>src\<close> are stored from \<open>dest + off\<close> on
  while they are not NUL and the index is below \<open>limit\<close>.  It returns the final index.
\<close>

function copy_loop :: "u32 \<Rightarrow> u32 \<Rightarrow> u32 \<Rightarrow> u32 \<Rightarrow> mem \<Rightarrow> u32 \<times> mem" where
  "copy_loop src dest limit i m =
     (if load8 m (src + i) \<noteq> 0 \<and> i < limit
      then copy_loop src dest limit (i + 1) (store8 (dest + i) (load8 m (src + i)) m)
      else (i, m))"
  by pat_completeness auto
termination
proof (relation "measure (\<lambda>(src, dest, limit, i, m). unat limit - unat i)")
  fix src dest limit i :: u32 and m :: mem
  assume "load8 m (src + i) \<noteq> 0 \<and> i < limit"
  then have lt: "unat i < unat limit" by (simp add: word_less_nat_alt)
  then have "unat (i + 1) = unat i + 1"
    using unat_u32_bound [of limit] by (subst unat_add_u32) simp_all
  with lt show "((src, dest, limit, i + 1, store8 (dest + i) (load8 m (src + i)) m),
      src, dest, limit, i, m) \<in> measure (\<lambda>(src, dest, limit, i, m). unat limit - unat i)"
    by simp
qed simp

declare copy_loop.simps [simp del]

definition kstrncpy :: "u32 \<Rightarrow> u32 \<Rightarrow> u32 \<Rightarrow> mem \<Rightarrow> u32 \<times> mem" where
  "kstrncpy src dest n m =
     (if n = 0 then (dest, m)
      else let (i, m) = copy_loop src dest (n - 1) 0 m
           in (dest, store8 (dest + i) 0 m))"

definition kstrncat :: "u32 \<Rightarrow> u32 \<Rightarrow> u32 \<Rightarrow> mem \<Rightarrow> (u32 \<times> mem) option" where
  "kstrncat dest src n m =
     (case kstrlen dest m of
        None \<Rightarrow> None
      | Some len \<Rightarrow>
          (let dest_len = ucast len in
           if n \<le> dest_len \<or> n = 0 then Some (dest, m)
           else let max_allowed = n - dest_len - 1;
                    (i, m) = copy_loop src (dest + dest_len) max_allowed 0 m
                in Some (dest, store8 (dest + dest_len + i) 0 m)))"

section \<open>Strings in memory\<close>

text \<open>The bytes of a string literal, without its terminator.\<close>

definition char_bytes :: "string \<Rightarrow> u8 list" where
  "char_bytes s = map (\<lambda>c. of_char c) s"

fun str_at :: "mem \<Rightarrow> u32 \<Rightarrow> u8 list \<Rightarrow> bool" where
  "str_at m a [] \<longleftrightarrow> load8 m a = 0"
| "str_at m a (c # cs) \<longleftrightarrow> c \<noteq> 0 \<and> load8 m a = c \<and> str_at m (a + 1) cs"

lemma offset_Suc: "(a :: u32) + U32 (Suc i) = a + 1 + U32 i"
  by simp

lemma str_at_iff:
  "str_at m a s \<longleftrightarrow> (\<forall>i < length s. load8 m (a + U32 i) = s ! i \<and> s ! i \<noteq> 0) \<and>
     load8 m (a + U32 (length s)) = 0"
proof (induction s arbitrary: a)
  case (Cons c cs)
  have "(\<forall>i < Suc n. P i) \<longleftrightarrow> P 0 \<and> (\<forall>i < n. P (Suc i))" for n P
    by (auto simp: less_Suc_eq_0_disj)
  then show ?case by (auto simp: Cons offset_Suc simp del: of_nat_Suc)
qed simp

lemma str_at_nth: "str_at m a s \<Longrightarrow> i < length s \<Longrightarrow> load8 m (a + U32 i) = s ! i \<and> s ! i \<noteq> 0"
  by (simp add: str_at_iff)

lemma str_at_end: "str_at m a s \<Longrightarrow> load8 m (a + U32 (length s)) = 0"
  by (simp add: str_at_iff)

lemma str_at_append:
  "str_at m a (d @ t) \<longleftrightarrow> (\<forall>i < length d. load8 m (a + U32 i) = d ! i \<and> d ! i \<noteq> 0) \<and>
     str_at m (a + U32 (length d)) t"
proof (induction d arbitrary: a)
  case (Cons c cs)
  have "(\<forall>i < Suc n. P i) \<longleftrightarrow> P 0 \<and> (\<forall>i < n. P (Suc i))" for n P
    by (auto simp: less_Suc_eq_0_disj)
  then show ?case by (auto simp: Cons offset_Suc simp del: of_nat_Suc)
qed simp

lemma str_at_same:
  assumes "str_at m a s" "fits a n" "length s < n" "same_on (bytes a n) m m'"
  shows "str_at m' a s"
proof -
  have "load8 m' (a + U32 i) = load8 m (a + U32 i)" if "i \<le> length s" for i
  proof -
    have "a + U32 i \<in> bytes a n"
      using unat_offset [OF assms(2), of i] that assms(3) by (simp add: bytes_def in_range_def)
    with assms(4) show ?thesis by (simp add: same_on_def load8_def)
  qed
  with assms(1) show ?thesis by (simp add: str_at_iff)
qed

lemma ucast_of_nat_u64: "(ucast (of_nat n :: u64) :: u32) = U32 n"
  by transfer (simp add: take_bit_take_bit)

lemma kstrlen_loop_str:
  assumes "str_at m a s" "length s < 4294967296" "k \<le> length s"
  shows "kstrlen_loop a (of_nat k) m = Some (of_nat (length s))"
  using assms(3)
proof (induction "length s - k" arbitrary: k)
  case 0
  then have "k = length s" by simp
  with str_at_end [OF assms(1)] show ?case by (subst kstrlen_loop.simps) (simp add: ucast_of_nat_u64)
next
  case (Suc d)
  then have "k < length s" by simp
  with str_at_nth [OF assms(1)] have "load8 m (a + U32 k) \<noteq> 0" by simp
  moreover have "kstrlen_loop a (of_nat (Suc k)) m = Some (of_nat (length s))"
    using Suc by (intro Suc.hyps(1)) simp_all
  ultimately show ?case
    by (subst kstrlen_loop.simps) (simp add: ucast_of_nat_u64 add.commute)
qed

lemma kstrlen_str:
  "str_at m a s \<Longrightarrow> length s < 4294967296 \<Longrightarrow> kstrlen a m = Some (of_nat (length s))"
  using kstrlen_loop_str [of m a s 0] by (simp add: kstrlen_def)

text \<open>The copy loop: with the source apart from what is written, it copies the longest
  allowed prefix of the string.\<close>

lemma copy_loop_str:
  assumes "\<And>i j. i \<le> length s \<Longrightarrow> j < unat limit \<Longrightarrow> src + U32 i \<noteq> dest + U32 j"
    and "str_at m src s" "length s < 4294967296" "k \<le> min (length s) (unat limit)"
  shows "copy_loop src dest limit (U32 k) m =
    (U32 (min (length s) (unat limit)),
     \<lambda>x. if k \<le> unat (x - dest) \<and> unat (x - dest) < min (length s) (unat limit)
         then s ! unat (x - dest) else m x)"
  using assms(2,4)
proof (induction "min (length s) (unat limit) - k" arbitrary: k m)
  case 0
  then have k: "k = min (length s) (unat limit)" by simp
  have "\<not> (load8 m (src + U32 k) \<noteq> 0 \<and> U32 k < limit)"
    using str_at_end [OF 0(2)] assms(3) unat_u32_bound [of limit]
    by (auto simp: k min_def word_less_nat_alt unat_of_nat_u32)
  then show ?case by (subst copy_loop.simps) (auto simp: k fun_eq_iff)
next
  case (Suc d)
  let ?n = "min (length s) (unat limit)"
  let ?m = "store8 (dest + U32 k) (s ! k) m"
  have k: "k < length s" "k < unat limit" "k < 4294967296"
    using Suc.hyps(2) assms(3) by simp_all
  have rd: "load8 m (src + U32 k) = s ! k" "s ! k \<noteq> 0"
    using str_at_nth [OF Suc.prems(1) k(1)] by simp_all
  have "load8 ?m (src + U32 i) = load8 m (src + U32 i)" if "i \<le> length s" for i
    using assms(1) [OF that k(2)] by (auto simp: eq_commute [of _ "src + U32 i"])
  then have str: "str_at ?m src s" using Suc.prems(1) by (simp add: str_at_iff)
  have lt: "U32 k < limit" using k by (simp add: word_less_nat_alt unat_of_nat_u32)
  have "copy_loop src dest limit (U32 k) m = copy_loop src dest limit (U32 (Suc k)) ?m"
    using rd lt by (subst copy_loop.simps) (simp add: add.commute)
  also have "\<dots> = (U32 ?n, \<lambda>x. if Suc k \<le> unat (x - dest) \<and> unat (x - dest) < ?n
      then s ! unat (x - dest) else ?m x)"
    using Suc.hyps(2) k by (intro Suc.hyps(1)) (simp_all add: str)
  also have "\<dots> = (U32 ?n, \<lambda>x. if k \<le> unat (x - dest) \<and> unat (x - dest) < ?n
      then s ! unat (x - dest) else m x)"
  proof -
    have "x = dest + U32 k \<longleftrightarrow> unat (x - dest) = k" for x
      using k(3) by (metis add_diff_cancel_left' diff_add_cancel add.commute
          of_nat_unat_u32 unat_of_nat_u32)
    then show ?thesis using k by (auto simp: store8_apply fun_eq_iff)
  qed
  finally show ?case .
qed

section \<open>Properties\<close>

text \<open>Strings as the routines see them, on contents.\<close>

definition strncpy_text :: "nat \<Rightarrow> 'a list \<Rightarrow> 'a list" where
  "strncpy_text n s = take (n - 1) s"

definition strncat_text :: "nat \<Rightarrow> 'a list \<Rightarrow> 'a list \<Rightarrow> 'a list" where
  "strncat_text n d s = (if n \<le> length d then d else d @ take (n - length d - 1) s)"

lemma offset_back: "i < 4294967296 \<Longrightarrow> unat (dest + U32 i - dest) = i"
  by (simp add: unat_of_nat_u32)

lemma str_at_copied:
  assumes "k \<le> length s" "length s < 4294967296" "\<forall>i < k. s ! i \<noteq> 0"
    and "m' = (\<lambda>x. if unat (x - dest) < k then s ! unat (x - dest) else m x)"
  shows "str_at (store8 (dest + U32 k) 0 m') dest (take k s)"
  unfolding str_at_iff
proof (intro conjI allI impI)
  fix i assume "i < length (take k s)"
  then have i: "i < k" "i < 4294967296" "k < 4294967296" using assms(1,2) by auto
  then have "dest + U32 k \<noteq> dest + U32 i" "unat (U32 i) = i"
    by (simp_all add: of_nat_inj_u32 unat_of_nat_u32)
  with i assms(3) show "load8 (store8 (dest + U32 k) 0 m') (dest + U32 i) = take k s ! i"
    and "take k s ! i \<noteq> 0"
    by (simp_all add: load8_def store8_apply assms(4) offset_back)
qed (use assms(1) in \<open>simp add: load8_def store8_apply\<close>)

lemma kstrncpy_str:
  assumes "str_at m src s" "length s < 4294967296" "n \<noteq> 0"
    and "\<And>i j. i \<le> length s \<Longrightarrow> j < unat n \<Longrightarrow> src + U32 i \<noteq> dest + U32 j"
  shows "\<exists>m'. kstrncpy src dest n m = (dest, m') \<and> str_at m' dest (strncpy_text (unat n) s) \<and>
    (\<forall>x. unat n \<le> unat (x - dest) \<longrightarrow> m' x = m x)"
proof -
  let ?k = "min (length s) (unat n - 1)"
  let ?m = "\<lambda>x. if unat (x - dest) < ?k then s ! unat (x - dest) else m x"
  have n: "0 < unat n" "unat (n - 1) = unat n - 1"
    using assms(3) unat_diff_u32 [of 1 n] by (auto simp: unat_gt_0 word_le_nat_alt Suc_le_eq)
  have "copy_loop src dest (n - 1) (U32 0) m = (U32 (min (length s) (unat (n - 1))),
     \<lambda>x. if 0 \<le> unat (x - dest) \<and> unat (x - dest) < min (length s) (unat (n - 1))
         then s ! unat (x - dest) else m x)"
    using assms n by (intro copy_loop_str) auto
  then have "kstrncpy src dest n m = (dest, store8 (dest + U32 ?k) 0 ?m)"
    using assms(3) n by (simp add: kstrncpy_def)
  moreover have "str_at (store8 (dest + U32 ?k) 0 ?m) dest (take ?k s)"
    using str_at_nth [OF assms(1)] assms(2) by (intro str_at_copied) auto
  moreover have "take ?k s = strncpy_text (unat n) s" by (simp add: strncpy_text_def min_def)
  moreover have "store8 (dest + U32 ?k) 0 ?m x = m x" if "unat n \<le> unat (x - dest)" for x
    using that n assms(2) offset_back [of ?k dest] by (auto simp: store8_apply min_def split: if_splits)
  ultimately show ?thesis by auto
qed

text \<open>\<open>kstrlen\<close> returns the length of the string its argument points to.\<close>

theorem kstrlen_spec:
  assumes "str_at m str s" "length s < 4294967296"
  shows "kstrlen str m = Some (of_nat (length s))"
  by (rule kstrlen_str [OF assms])

theorem kstrlen_spec_witness:
  "kstrlen 0x100 ((\<lambda>_. 0)(0x100 := 107, 0x101 := 100)) = Some 2"
  using kstrlen_spec [of "(\<lambda>_. 0)(0x100 := 107, 0x101 := 100)" "0x100" "[107, 100]"]
  by (simp add: load8_def)

text \<open>C24: \<open>kstrncpy src dest n\<close> with \<open>n > 0\<close> and a source apart from the \<open>n\<close>
  bytes at \<open>dest\<close> leaves at \<open>dest\<close> the longest prefix of at most \<open>n - 1\<close>
  characters, always NUL terminated, and writes nothing at or after \<open>dest + n\<close>.\<close>

theorem kstrncpy_spec:
  assumes "str_at m src s" "length s < 4294967296" "n \<noteq> 0"
    and "\<And>i j. i \<le> length s \<Longrightarrow> j < unat n \<Longrightarrow> src + U32 i \<noteq> dest + U32 j"
  shows "\<exists>m'. kstrncpy src dest n m = (dest, m') \<and> str_at m' dest (strncpy_text (unat n) s) \<and>
    (\<forall>x. unat n \<le> unat (x - dest) \<longrightarrow> m' x = m x)"
  using assms by (rule kstrncpy_str)

theorem kstrncpy_spec_witness:
  "\<exists>m'. kstrncpy 0x100 0x200 2 ((\<lambda>_. 0)(0x100 := 107, 0x101 := 100)) = (0x200, m') \<and>
     str_at m' 0x200 [107]"
proof -
  let ?m = "(\<lambda>_. 0)(0x100 := 107, 0x101 := 100) :: mem"
  have src: "str_at ?m 0x100 [107, 100]" by (simp add: load8_def)
  have sep: "0x100 + U32 i \<noteq> (0x200 :: u32) + U32 j"
    if "i \<le> length [107, 100 :: u8]" "j < unat (2 :: u32)" for i j
    using that by (simp add: word_unat_eq_iff unat_word_ariths unat_of_nat_u32)
  have "\<exists>m'. kstrncpy 0x100 0x200 2 ?m = (0x200, m') \<and>
      str_at m' 0x200 (strncpy_text (unat (2 :: u32)) [107, 100]) \<and>
      (\<forall>x. unat (2 :: u32) \<le> unat (x - 0x200) \<longrightarrow> m' x = ?m x)"
    by (rule kstrncpy_spec [OF src _ _ sep]) simp_all
  then show ?thesis by (auto simp: strncpy_text_def)
qed

lemma kstrncat_str:
  assumes "str_at m dest d" "str_at m src s" "length d < 4294967296" "length s < 4294967296"
    and "\<And>i j. i \<le> length s \<Longrightarrow> j < unat n \<Longrightarrow> src + U32 i \<noteq> dest + U32 j"
  shows "\<exists>m'. kstrncat dest src n m = Some (dest, m') \<and>
    str_at m' dest (strncat_text (unat n) d s) \<and>
    (\<forall>x. unat n \<le> unat (x - dest) \<longrightarrow> m' x = m x)"
proof (cases "unat n \<le> length d")
  case True
  then have "n \<le> U32 (length d)"
    using assms(3) by (simp add: word_le_nat_alt unat_of_nat_u32)
  then show ?thesis
    using assms(1) True kstrlen_str [OF assms(1,3)]
    by (auto simp: kstrncat_def Let_def strncat_text_def ucast_of_nat_u64)
next
  case False
  let ?l = "length d" and ?e = "dest + U32 (length d)"
  let ?k = "min (length s) (unat n - ?l - 1)"
  let ?m = "\<lambda>x. if unat (x - ?e) < ?k then s ! unat (x - ?e) else m x"
  have l: "unat (U32 ?l) = ?l" "U32 ?l \<le> n" "\<not> n \<le> U32 ?l" "n \<noteq> 0" "unat n < 4294967296"
    using False assms(3) unat_u32_bound [of n]
    by (auto simp: word_le_nat_alt unat_of_nat_u32)
  have lim: "unat (n - U32 ?l - 1) = unat n - ?l - 1"
    using l False by (subst unat_diff_u32) (auto simp: word_le_nat_alt unat_diff_u32)
  have "copy_loop src ?e (n - U32 ?l - 1) (U32 0) m =
     (U32 (min (length s) (unat (n - U32 ?l - 1))),
     \<lambda>x. if 0 \<le> unat (x - ?e) \<and> unat (x - ?e) < min (length s) (unat (n - U32 ?l - 1))
         then s ! unat (x - ?e) else m x)"
  proof (intro copy_loop_str)
    fix i j assume "i \<le> length s" "j < unat (n - U32 ?l - 1)"
    with assms(5) [of i "?l + j"] lim show "src + U32 i \<noteq> ?e + U32 j" by (simp add: add.assoc)
  qed (use assms in auto)
  then have cat: "kstrncat dest src n m = Some (dest, store8 (?e + U32 ?k) 0 ?m)"
    using l lim kstrlen_str [OF assms(1,3)]
    by (simp add: kstrncat_def Let_def ucast_of_nat_u64)
  have tail: "str_at (store8 (?e + U32 ?k) 0 ?m) ?e (take ?k s)"
    using str_at_nth [OF assms(2)] assms(4) by (intro str_at_copied) auto
  have low: "store8 (?e + U32 ?k) 0 ?m x = m x"
    if x: "x = dest + U32 i" "i < ?l \<or> ?l + ?k < i" "i < 4294967296" for x i
  proof -
    have "unat (x - ?e) = (if ?l \<le> i then i - ?l else i + 4294967296 - ?l)"
      using x(1,3) assms(3) by (simp add: unat_sub_if' unat_of_nat_u32)
    moreover have "unat (x - ?e) = ?k" if "x = ?e + U32 ?k"
      using that assms(4) by (simp add: unat_of_nat_u32)
    ultimately show ?thesis
      using x(2,3) False l(5) by (auto simp: store8_apply split: if_splits)
  qed
  have "load8 (store8 (?e + U32 ?k) 0 ?m) (dest + U32 i) = d ! i \<and> d ! i \<noteq> 0" if "i < ?l" for i
    using str_at_nth [OF assms(1) that] low [OF refl, of i] that assms(3) by (simp add: load8_def)
  with tail have "str_at (store8 (?e + U32 ?k) 0 ?m) dest (d @ take ?k s)"
    by (simp add: str_at_append)
  moreover have "d @ take ?k s = strncat_text (unat n) d s"
    using False by (simp add: strncat_text_def min_def)
  moreover have "store8 (?e + U32 ?k) 0 ?m x = m x" if "unat n \<le> unat (x - dest)" for x
    using low [of x "unat (x - dest)"] that False unat_u32_bound [of "x - dest"] by auto
  ultimately show ?thesis using cat by auto
qed

text \<open>\<open>kstrncat dest src n\<close> returns; with the source apart from the \<open>n\<close> bytes at
  \<open>dest\<close> it appends as much of the source as leaves the result, NUL included, within
  \<open>n\<close> bytes, leaves \<open>dest\<close> alone when it already fills them, and writes nothing at or
  after \<open>dest + n\<close>.\<close>

theorem kstrncat_spec:
  assumes "str_at m dest d" "str_at m src s" "length d < 4294967296" "length s < 4294967296"
    and "\<And>i j. i \<le> length s \<Longrightarrow> j < unat n \<Longrightarrow> src + U32 i \<noteq> dest + U32 j"
  shows "\<exists>m'. kstrncat dest src n m = Some (dest, m') \<and>
    str_at m' dest (strncat_text (unat n) d s) \<and>
    (\<forall>x. unat n \<le> unat (x - dest) \<longrightarrow> m' x = m x)"
  using assms by (rule kstrncat_str)

theorem kstrncat_spec_witness:
  "\<exists>m'. kstrncat 0x200 0x100 4 ((\<lambda>_. 0)(0x100 := 107, 0x101 := 100, 0x200 := 65, 0x201 := 66))
       = Some (0x200, m') \<and> str_at m' 0x200 [65, 66, 107]"
proof -
  let ?m = "(\<lambda>_. 0)(0x100 := 107, 0x101 := 100, 0x200 := 65, 0x201 := 66) :: mem"
  have src: "str_at ?m 0x100 [107, 100]" and dst: "str_at ?m 0x200 [65, 66]"
    by (simp_all add: load8_def)
  have sep: "0x100 + U32 i \<noteq> (0x200 :: u32) + U32 j"
    if "i \<le> length [107, 100 :: u8]" "j < unat (4 :: u32)" for i j
    using that by (simp add: word_unat_eq_iff unat_word_ariths unat_of_nat_u32)
  have "\<exists>m'. kstrncat 0x200 0x100 4 ?m = Some (0x200, m') \<and>
      str_at m' 0x200 (strncat_text (unat (4 :: u32)) [65, 66] [107, 100]) \<and>
      (\<forall>x. unat (4 :: u32) \<le> unat (x - 0x200) \<longrightarrow> m' x = ?m x)"
    by (rule kstrncat_spec [OF dst src _ _ sep]) simp_all
  then show ?thesis by (auto simp: strncat_text_def)
qed

end
