(* ===== verification/Klist.thy ===== *)
theory Klist
  imports Kheap Kstring
begin

text \<open>
  \<^verbatim>\<open>src/kernel/ds/list.c\<close>: an intrusive, circular, doubly linked list.  A
  \<open>ListNode\<close> has \<open>next\<close> at offset 0 and \<open>prev\<close> at offset 4; a \<open>List\<close> has its
  \<open>root\<close> node at offset 0, \<open>size\<close> at 8, \<open>err_code\<close> at 12 and \<open>err_msg\<close> at 16.
  The string literals of the two error messages are at addresses the linker chooses, so the
  pop operations take that address as their first argument.  A \<open>NULL\<close> list is
  dereferenced by the pop operations (offset 12 of page 0, which is never mapped).
\<close>

section \<open>Fields\<close>

definition node_next :: "mem \<Rightarrow> u32 \<Rightarrow> u32" where
  "node_next m n = load32 m n"

definition node_prev :: "mem \<Rightarrow> u32 \<Rightarrow> u32" where
  "node_prev m n = load32 m (n + 4)"

definition set_node_next :: "u32 \<Rightarrow> u32 \<Rightarrow> mem \<Rightarrow> mem" where
  "set_node_next n v m = store32 n v m"

definition set_node_prev :: "u32 \<Rightarrow> u32 \<Rightarrow> mem \<Rightarrow> mem" where
  "set_node_prev n v m = store32 (n + 4) v m"

definition list_size :: "mem \<Rightarrow> u32 \<Rightarrow> u32" where
  "list_size m l = load32 m (l + 8)"

definition set_list_size :: "u32 \<Rightarrow> u32 \<Rightarrow> mem \<Rightarrow> mem" where
  "set_list_size l v m = store32 (l + 8) v m"

definition list_err_code :: "mem \<Rightarrow> u32 \<Rightarrow> u32" where
  "list_err_code m l = load32 m (l + 12)"

definition set_list_err_code :: "u32 \<Rightarrow> u32 \<Rightarrow> mem \<Rightarrow> mem" where
  "set_list_err_code l v m = store32 (l + 12) v m"

definition list_err_msg :: "mem \<Rightarrow> u32 \<Rightarrow> u32" where
  "list_err_msg m l = load32 m (l + 16)"

definition set_list_err_msg :: "u32 \<Rightarrow> u32 \<Rightarrow> mem \<Rightarrow> mem" where
  "set_list_err_msg l v m = store32 (l + 16) v m"

definition MAX_ERR_LENGTH :: u32 where
  "MAX_ERR_LENGTH = 256"

section \<open>Operations\<close>

text \<open>The result carries the list, the value of \<open>*err_check\<close> afterwards and the memory.\<close>

definition list_init :: "u32 \<Rightarrow> u32 \<Rightarrow> mem \<Rightarrow> (u32 \<times> u32 \<times> mem) option" where
  "list_init heap_start err_check m =
     (case kmalloc heap_start 20 m of None \<Rightarrow> None
      | Some (new_list, m) \<Rightarrow>
          if new_list = 0 then Some (0, 1, m)
          else
            (case kmalloc heap_start (MAX_ERR_LENGTH * 1) m of None \<Rightarrow> None
             | Some (msg, m) \<Rightarrow>
                 (let m = set_list_err_msg new_list msg m in
                  if list_err_msg m new_list = 0 then
                    (case kfree heap_start new_list m of None \<Rightarrow> None
                     | Some m \<Rightarrow> Some (0, 1, m))
                  else
                    let m = set_node_next new_list new_list m;
                        m = set_node_prev new_list new_list m;
                        m = set_list_size new_list 0 m;
                        m = set_list_err_code new_list 0 m
                    in Some (new_list, err_check, m))))"

definition list_add :: "u32 \<Rightarrow> u32 \<Rightarrow> u32 \<Rightarrow> mem \<Rightarrow> mem" where
  "list_add new_node prev next m =
     (let m = set_node_prev next new_node m;
          m = set_node_next new_node next m;
          m = set_node_prev new_node prev m
      in set_node_next prev new_node m)"

definition list_push_head :: "u32 \<Rightarrow> u32 \<Rightarrow> mem \<Rightarrow> u32 \<times> mem" where
  "list_push_head l new_node m =
     (if l = 0 \<or> new_node = 0 then (1, m)
      else let m = list_add new_node l (node_next m l) m;
               m = set_list_size l (list_size m l + 1) m
           in (0, m))"

definition list_push_tail :: "u32 \<Rightarrow> u32 \<Rightarrow> mem \<Rightarrow> u32 \<times> mem" where
  "list_push_tail l new_node m =
     (if l = 0 \<or> new_node = 0 then (1, m)
      else let m = list_add new_node (node_prev m l) l m;
               m = set_list_size l (list_size m l + 1) m
           in (0, m))"

definition list_remove_node :: "u32 \<Rightarrow> u32 \<Rightarrow> mem \<Rightarrow> u32 \<times> mem" where
  "list_remove_node l node m =
     (if l = 0 \<or> node = 0 \<or> node = l \<or> list_size m l = 0 then (1, m)
      else let m = set_node_next (node_prev m node) (node_next m node) m;
               m = set_node_prev (node_next m node) (node_prev m node) m;
               m = set_node_next node 0 m;
               m = set_node_prev node 0 m;
               m = set_list_size l (list_size m l - 1) m
           in (0, m))"

definition list_pop_head :: "u32 \<Rightarrow> u32 \<Rightarrow> mem \<Rightarrow> (u32 \<times> mem) result" where
  "list_pop_head literal l m =
     (if l = 0 then Inl (PageFault 12)
      else if list_size m l = 0 then
        let m = set_list_err_code l 1 m;
            m = snd (kstrncpy (list_err_msg m l) literal MAX_ERR_LENGTH m)
        in Inr (0, m)
      else let target = node_next m l; m = snd (list_remove_node l target m)
           in Inr (target, m))"

definition list_pop_tail :: "u32 \<Rightarrow> u32 \<Rightarrow> mem \<Rightarrow> (u32 \<times> mem) result" where
  "list_pop_tail literal l m =
     (if l = 0 then Inl (PageFault 12)
      else if list_size m l = 0 then
        let m = set_list_err_code l 1 m;
            m = snd (kstrncpy (list_err_msg m l) literal MAX_ERR_LENGTH m)
        in Inr (0, m)
      else let target = node_prev m l; m = snd (list_remove_node l target m)
           in Inr (target, m))"

definition list_get_size :: "u32 \<Rightarrow> mem \<Rightarrow> u32" where
  "list_get_size l m = (if l \<noteq> 0 then list_size m l else 0)"

definition list_get_error_code :: "u32 \<Rightarrow> mem \<Rightarrow> u32" where
  "list_get_error_code l m = (if l \<noteq> 0 then list_err_code m l else 1)"

definition list_get_err_msg :: "u32 \<Rightarrow> u32 \<Rightarrow> mem \<Rightarrow> u32" where
  "list_get_err_msg literal l m = (if l \<noteq> 0 then list_err_msg m l else literal)"

partial_function (option) list_free_loop :: "u32 \<Rightarrow> u32 \<Rightarrow> mem \<Rightarrow> mem result option" where
  "list_free_loop literal l m =
     (if 0 < list_size m l then
        (case list_pop_head literal l m of
           Inl f \<Rightarrow> Some (Inl f)
         | Inr (_, m) \<Rightarrow> list_free_loop literal l m)
      else Some (Inr m))"

definition list_free :: "u32 \<Rightarrow> u32 \<Rightarrow> u32 \<Rightarrow> mem \<Rightarrow> mem result option" where
  "list_free heap_start literal l m =
     (if l = 0 then Some (Inr m)
      else
        (case list_free_loop literal l m of
           None \<Rightarrow> None
         | Some (Inl f) \<Rightarrow> Some (Inl f)
         | Some (Inr m) \<Rightarrow>
             (case kfree heap_start (list_err_msg m l) m of
                None \<Rightarrow> None
              | Some m \<Rightarrow>
                  (case kfree heap_start l m of None \<Rightarrow> None | Some m \<Rightarrow> Some (Inr m)))))"

section \<open>Linked nodes\<close>

text \<open>Consecutive nodes point at each other.\<close>

fun links :: "mem \<Rightarrow> u32 list \<Rightarrow> bool" where
  "links m (x # y # zs) \<longleftrightarrow> node_next m x = y \<and> node_prev m y = x \<and> links m (y # zs)"
| "links m [x] \<longleftrightarrow> True"
| "links m [] \<longleftrightarrow> True"

lemma links_append: "links m (xs @ y # zs) \<longleftrightarrow> links m (xs @ [y]) \<and> links m (y # zs)"
proof (induction xs)
  case (Cons x xs)
  then show ?case by (cases xs) auto
qed simp

lemma links_join:
  "links m (us @ [p]) \<Longrightarrow> links m (q # vs) \<Longrightarrow> node_next m p = q \<Longrightarrow> node_prev m q = p \<Longrightarrow>
    links m (us @ p # q # vs)"
  by (subst links_append) simp

lemma links_cong:
  assumes "\<And>x. x \<in> set (butlast zs) \<Longrightarrow> node_next m' x = node_next m x"
    and "\<And>x. x \<in> set (tl zs) \<Longrightarrow> node_prev m' x = node_prev m x"
  shows "links m' zs \<longleftrightarrow> links m zs"
  using assms
proof (induction zs rule: induct_list012)
  case (3 x y zs)
  then have "links m' (y # zs) = links m (y # zs)" by auto
  with 3 show ?case by auto
qed auto

text \<open>Node addresses whose eight bytes do not overlap, and a header of twenty bytes
  apart from them.\<close>

definition nodes_ok :: "u32 set \<Rightarrow> bool" where
  "nodes_ok S \<longleftrightarrow> (\<forall>x \<in> S. x \<noteq> 0 \<and> fits x 8 \<and> (\<forall>y \<in> S. x \<noteq> y \<longrightarrow> apart x 8 y 8))"

definition header_ok :: "u32 \<Rightarrow> u32 set \<Rightarrow> bool" where
  "header_ok l S \<longleftrightarrow> l \<noteq> 0 \<and> fits l 20 \<and> (\<forall>x \<in> S. apart l 20 x 8)"

text \<open>\<open>dll m l ns\<close>: the list at \<open>l\<close> holds the nodes \<open>ns\<close>, first to last.\<close>

definition dll :: "mem \<Rightarrow> u32 \<Rightarrow> u32 list \<Rightarrow> bool" where
  "dll m l ns \<longleftrightarrow> distinct ns \<and> nodes_ok (set ns) \<and> header_ok l (set ns) \<and>
     links m (l # ns @ [l]) \<and> list_size m l = U32 (length ns) \<and> length ns < 4294967296"

definition list_bytes :: "u32 \<Rightarrow> u32 list \<Rightarrow> u32 set" where
  "list_bytes l ns = bytes l 20 \<union> (\<Union>x \<in> set ns. bytes x 8)"

lemmas node_defs = node_next_def node_prev_def set_node_next_def set_node_prev_def
lemmas header_defs = list_size_def set_list_size_def list_err_code_def set_list_err_code_def
  list_err_msg_def set_list_err_msg_def

lemma header_not_node: "header_ok l S \<Longrightarrow> l \<notin> S"
  by (fastforce simp: header_ok_def apart_def)

lemma nodes_with_root: "nodes_ok S \<Longrightarrow> header_ok l S \<Longrightarrow> nodes_ok (insert l S)"
  by (fastforce simp: nodes_ok_def header_ok_def apart_def fits_def)

lemma nodes_ok_fits: "nodes_ok S \<Longrightarrow> x \<in> S \<Longrightarrow> fits x 8"
  by (simp add: nodes_ok_def)

lemma nodes_ok_mono: "nodes_ok S \<Longrightarrow> T \<subseteq> S \<Longrightarrow> nodes_ok T"
  by (auto simp: nodes_ok_def)

lemma header_ok_mono: "header_ok l S \<Longrightarrow> T \<subseteq> S \<Longrightarrow> header_ok l T"
  by (auto simp: header_ok_def)

lemma node_offset: "fits x 8 \<Longrightarrow> unat (x + 4) = unat x + 4"
  using unat_offset [of x 8 4] by simp

lemma header_offset:
  assumes "fits l 20"
  shows "unat (l + 4) = unat l + 4" "unat (l + 8) = unat l + 8" "unat (l + 12) = unat l + 12"
    "unat (l + 16) = unat l + 16"
  using unat_offset [OF assms, of 4] unat_offset [OF assms, of 8] unat_offset [OF assms, of 12]
    unat_offset [OF assms, of 16] by simp_all

lemma node_fields:
  assumes "nodes_ok S" "x \<in> S" "y \<in> S"
  shows "node_next (set_node_next x v m) y = (if x = y then v else node_next m y)"
    "node_prev (set_node_next x v m) y = node_prev m y"
    "node_next (set_node_prev x v m) y = node_next m y"
    "node_prev (set_node_prev x v m) y = (if x = y then v else node_prev m y)"
proof -
  have f: "fits x 8" "fits y 8" and ap: "x \<noteq> y \<Longrightarrow> apart x 8 y 8"
    using assms by (auto simp: nodes_ok_def)
  note off = node_offset [OF f(1)] node_offset [OF f(2)]
  show "node_next (set_node_next x v m) y = (if x = y then v else node_next m y)"
    "node_prev (set_node_next x v m) y = node_prev m y"
    "node_next (set_node_prev x v m) y = node_next m y"
    "node_prev (set_node_prev x v m) y = (if x = y then v else node_prev m y)"
    using f ap off
    by (cases "x = y"; fastforce simp: node_defs fits_def apart_def intro!: load32_store32_apart)+
qed

lemma header_fields:
  assumes "header_ok l S" "y \<in> insert l S" "nodes_ok S"
  shows "node_next (set_list_size l v m) y = node_next m y"
    "node_prev (set_list_size l v m) y = node_prev m y"
    "list_size (set_node_next y v m) l = list_size m l"
    "list_size (set_node_prev y v m) l = list_size m l"
proof -
  have f: "fits l 20" "fits y 8" and ap: "y \<noteq> l \<Longrightarrow> apart l 20 y 8"
    using assms by (auto simp: header_ok_def nodes_ok_def fits_def)
  note off = header_offset [OF f(1)] node_offset [OF f(2)]
  show "node_next (set_list_size l v m) y = node_next m y"
    "node_prev (set_list_size l v m) y = node_prev m y"
    "list_size (set_node_next y v m) l = list_size m l"
    "list_size (set_node_prev y v m) l = list_size m l"
    using f ap off
    by (cases "y = l"; fastforce simp: node_defs header_defs fits_def apart_def
        intro!: load32_store32_apart)+
qed

lemma list_size_set [simp]: "list_size (set_list_size l v m) l = v"
  by (simp add: header_defs)

section \<open>Footprints of lists\<close>

text \<open>A list only depends on its own bytes.\<close>

lemma node_reads_same:
  assumes "same_on S m m'" "fits x 8" "bytes x 8 \<subseteq> S"
  shows "node_next m' x = node_next m x" "node_prev m' x = node_prev m x"
proof -
  have "bytes (x + 4) 4 \<subseteq> bytes x 8" using bytes_offset [of x 8 4 4] assms(2) by simp
  moreover have "fits (x + 4) 4" "fits x 4" using assms(2) by (simp_all add: fits_def node_offset)
  moreover have "bytes x 4 \<subseteq> bytes x 8" by (rule bytes_mono) simp
  ultimately show "node_next m' x = node_next m x" "node_prev m' x = node_prev m x"
    using assms(3) unfolding node_next_def node_prev_def
    by (auto intro!: load32_same_on [OF assms(1)])
qed

lemma list_size_same:
  assumes "same_on S m m'" "fits l 20" "bytes l 20 \<subseteq> S"
  shows "list_size m' l = list_size m l"
proof -
  have "bytes (l + 8) 4 \<subseteq> bytes l 20" using bytes_offset [of l 20 8 4] assms(2) by simp
  moreover have "fits (l + 8) 4" using assms(2) by (simp add: fits_def header_offset)
  ultimately show ?thesis
    using assms(3) unfolding list_size_def by (auto intro!: load32_same_on [OF assms(1)])
qed

lemma dll_same:
  assumes "dll m l ns" "same_on (list_bytes l ns) m m'"
  shows "dll m' l ns"
proof -
  have f: "fits l 20" "fits l 8" and n: "\<And>x. x \<in> set ns \<Longrightarrow> fits x 8"
    using assms(1) by (auto simp: dll_def header_ok_def nodes_ok_def fits_def)
  have "bytes l 8 \<subseteq> list_bytes l ns"
    using bytes_mono [of 8 20 l] by (auto simp: list_bytes_def)
  moreover have "bytes x 8 \<subseteq> list_bytes l ns" if "x \<in> set ns" for x
    using that by (auto simp: list_bytes_def)
  ultimately have rd: "node_next m' x = node_next m x" "node_prev m' x = node_prev m x"
    if "x \<in> insert l (set ns)" for x
    using that f n node_reads_same [OF assms(2), of x] by auto
  have "links m' (l # ns @ [l]) = links m (l # ns @ [l])"
    by (rule links_cong) (use rd in \<open>auto dest: in_set_butlastD\<close>)
  moreover have "list_size m' l = list_size m l"
    using list_size_same [OF assms(2) f(1)] by (simp add: list_bytes_def)
  ultimately show ?thesis using assms(1) by (simp add: dll_def)
qed

lemma set_node_off:
  assumes "fits x 8" "bytes x 8 \<subseteq> S"
  shows "same_off S m (set_node_next x v m)" "same_off S m (set_node_prev x v m)"
proof -
  have "bytes (x + 4) 4 \<subseteq> bytes x 8" using bytes_offset [of x 8 4 4] assms(1) by simp
  moreover have "fits (x + 4) 4" "fits x 4" using assms(1) by (simp_all add: fits_def node_offset)
  moreover have "bytes x 4 \<subseteq> bytes x 8" by (rule bytes_mono) simp
  ultimately show "same_off S m (set_node_next x v m)" "same_off S m (set_node_prev x v m)"
    using assms(2) unfolding set_node_next_def set_node_prev_def
    by (auto intro!: same_off_store32)
qed

lemma set_header_off:
  assumes "fits l 20" "bytes l 20 \<subseteq> S"
  shows "same_off S m (set_list_size l v m)" "same_off S m (set_list_err_code l v m)"
    "same_off S m (set_list_err_msg l v m)"
proof -
  have "bytes (l + 8) 4 \<subseteq> bytes l 20" "bytes (l + 12) 4 \<subseteq> bytes l 20"
    "bytes (l + 16) 4 \<subseteq> bytes l 20"
    using bytes_offset [of l 20 8 4] bytes_offset [of l 20 12 4] bytes_offset [of l 20 16 4] assms(1)
    by simp_all
  moreover have "fits (l + 8) 4" "fits (l + 12) 4" "fits (l + 16) 4"
    using assms(1) by (simp_all add: fits_def header_offset)
  ultimately show "same_off S m (set_list_size l v m)" "same_off S m (set_list_err_code l v m)"
    "same_off S m (set_list_err_msg l v m)"
    using assms(2) unfolding header_defs by (auto intro!: same_off_store32)
qed

section \<open>Insertion and removal\<close>

lemma dll_ends:
  assumes "dll m l ns"
  shows "node_next m l = hd (ns @ [l])" "node_prev m l = last (l # ns)"
proof -
  have lk: "links m (l # ns @ [l])" using assms by (simp add: dll_def)
  then show "node_next m l = hd (ns @ [l])" by (cases ns) simp_all
  have "links m ((butlast (l # ns)) @ [last (l # ns), l])"
    using lk by (metis append_Cons append_assoc append_Nil append_butlast_last_id list.distinct(1))
  then have "links m [last (l # ns), l]" by (subst (asm) links_append) simp
  then show "node_prev m l = last (l # ns)" by simp
qed

lemma dll_last: "dll m l ns \<Longrightarrow> node_next m (last (l # ns)) = l"
proof -
  assume "dll m l ns"
  then have "links m (l # ns @ [l])" by (simp add: dll_def)
  then have "links m ((butlast (l # ns)) @ [last (l # ns), l])"
    by (metis append_Cons append_assoc append_Nil append_butlast_last_id list.distinct(1))
  then have "links m [last (l # ns), l]" by (subst (asm) links_append) simp
  then show ?thesis by simp
qed

text \<open>A node that may be added: apart from the header and the nodes of the list.\<close>

definition addable :: "u32 \<Rightarrow> u32 list \<Rightarrow> u32 \<Rightarrow> bool" where
  "addable l ns x \<longleftrightarrow> x \<notin> set ns \<and> nodes_ok (set (x # ns)) \<and> header_ok l (set (x # ns))"

text \<open>There are not enough addresses for the size field to overflow.\<close>

lemma distinct_u32_length: "distinct (xs :: u32 list) \<Longrightarrow> length xs \<le> 4294967296"
  using card_mono [of UNIV "set xs"] distinct_card [of xs] by (simp add: card_word)

lemma addable_length:
  assumes "addable l ns x" "distinct ns"
  shows "Suc (length ns) < 4294967296"
proof -
  have "distinct (0 # x # ns)" using assms by (auto simp: addable_def nodes_ok_def)
  from distinct_u32_length [OF this] show ?thesis by simp
qed

lemma list_add_links:
  assumes ok: "nodes_ok (insert x (set (us @ [p]) \<union> set (q # vs)))"
    and x: "x \<notin> set (us @ [p])" "x \<notin> set (q # vs)"
    and lk: "links m (us @ [p])" "links m (q # vs)"
    and d: "p \<notin> set us" "p \<notin> set (butlast (q # vs))" "q \<notin> set vs" "q \<notin> set (tl (us @ [p]))"
  shows "links (list_add x p q m) (us @ p # x # q # vs)"
proof -
  let ?m = "list_add x p q m"
  have rd: "node_next ?m y = (if y = p then x else if y = x then q else node_next m y)"
    "node_prev ?m y = (if y = x then p else if y = q then x else node_prev m y)"
    if "y \<in> insert x (set (us @ [p]) \<union> set (q # vs))" for y
    using that x by (auto simp: list_add_def Let_def node_fields [OF ok])
  have "set (tl (us @ [p])) \<subseteq> set (us @ [p])" by (cases us) auto
  then have "links ?m (us @ [p]) = links m (us @ [p])"
    by (intro links_cong) (use rd d x in \<open>auto dest: in_set_butlastD\<close>)
  moreover have "links ?m (q # vs) = links m (q # vs)"
  proof (rule links_cong)
    fix y assume y: "y \<in> set (butlast (q # vs))"
    then have "y \<in> set (q # vs)" by (rule in_set_butlastD)
    moreover from this x y d have "y \<noteq> p" "y \<noteq> x" by auto
    ultimately show "node_next ?m y = node_next m y" using rd(1) [of y] by auto
  next
    fix y assume y: "y \<in> set (tl (q # vs))"
    with x d have "y \<noteq> q" "y \<noteq> x" by auto
    with y show "node_prev ?m y = node_prev m y" using rd(2) [of y] by auto
  qed
  moreover have "links ?m [p, x, q]" using rd x by auto
  ultimately show ?thesis
    using lk by (subst links_append) simp
qed

text \<open>The words written by the list operations.\<close>

lemma list_add_off:
  assumes "fits x 8" "fits p 8" "fits q 8" "bytes x 8 \<union> bytes p 8 \<union> bytes q 8 \<subseteq> S"
  shows "same_off S m (list_add x p q m)"
proof -
  have "bytes x 8 \<subseteq> S" "bytes p 8 \<subseteq> S" "bytes q 8 \<subseteq> S" using assms(4) by auto
  note w = set_node_off [OF assms(1) this(1)] set_node_off [OF assms(2) this(2)]
    set_node_off [OF assms(3) this(3)]
  show ?thesis
    unfolding list_add_def Let_def
    by (rule same_off_trans [OF same_off_trans [OF same_off_trans [OF w(6) w(1)] w(2)] w(3)])
qed

lemma list_add_size:
  assumes "header_ok l S" "nodes_ok S" "{x, p, q} \<subseteq> insert l S"
  shows "list_size (list_add x p q m) l = list_size m l"
  using assms by (simp add: list_add_def Let_def header_fields [OF assms(1) _ assms(2)])

lemma size_Suc: "U32 n + 1 = U32 (Suc n)"
  by simp

lemma set_list_size_links:
  assumes "nodes_ok (set ns)" "header_ok l (set ns)" "links m (l # ns @ [l])"
  shows "links (set_list_size l v m) (l # ns @ [l])"
proof -
  have "links (set_list_size l v m) (l # ns @ [l]) = links m (l # ns @ [l])"
    by (rule links_cong)
      (use header_fields(1,2) [OF assms(2) _ assms(1)] in \<open>auto dest: in_set_butlastD\<close>)
  with assms(3) show ?thesis by simp
qed

text \<open>Adding a node anywhere keeps a list and writes only list bytes.\<close>

lemma dll_insert:
  assumes dl: "dll m l (us @ vs)" and ad: "addable l (us @ vs) x"
    and m': "m' = set_list_size l (list_size (list_add x (last (l # us)) (hd (vs @ [l])) m) l + 1)
      (list_add x (last (l # us)) (hd (vs @ [l])) m)"
  shows "dll m' l (us @ x # vs) \<and> same_off (list_bytes l (x # us @ vs)) m m'"
proof -
  let ?p = "last (l # us)" and ?q = "hd (vs @ [l])" and ?S = "set (x # us @ vs)"
  let ?m = "list_add x ?p ?q m"
  have ok: "nodes_ok ?S" "header_ok l ?S" "x \<notin> set (us @ vs)" "Suc (length (us @ vs)) < 4294967296"
    using ad addable_length [OF ad] dl by (auto simp: addable_def dll_def)
  have l: "l \<notin> ?S" by (rule header_not_node [OF ok(2)])
  have d: "distinct (us @ vs)" and lk: "links m (l # (us @ vs) @ [l])" using dl by (auto simp: dll_def)
  have p: "l # us = butlast (l # us) @ [?p]" by simp
  have q: "vs @ [l] = ?q # tl (vs @ [l])" by simp
  have lk2: "links m (l # us)" "links m (vs @ [l])"
    using lk links_append [of m "butlast (l # us)" ?p "vs @ [l]"] p q
    by (metis append.assoc append_Cons append_Nil links_append)+
  have S: "insert x (set (l # us) \<union> set (vs @ [l])) = insert l ?S" by auto
  have "links ?m (butlast (l # us) @ ?p # x # ?q # tl (vs @ [l]))"
  proof (rule list_add_links)
    show "nodes_ok (insert x (set (butlast (l # us) @ [?p]) \<union> set (?q # tl (vs @ [l]))))"
      unfolding p [symmetric] q [symmetric] S by (rule nodes_with_root [OF ok(1,2)])
    show "x \<notin> set (butlast (l # us) @ [?p])" "x \<notin> set (?q # tl (vs @ [l]))"
      unfolding p [symmetric] q [symmetric] using l ok(3) by auto
    show "links m (butlast (l # us) @ [?p])" "links m (?q # tl (vs @ [l]))"
      unfolding p [symmetric] q [symmetric] by (fact lk2)+
    have "distinct (butlast (l # us) @ [?p])" unfolding p [symmetric] using d l by simp
    then show "?p \<notin> set (butlast (l # us))" by simp
    show "?q \<notin> set (tl (vs @ [l]))" using d l by (cases vs) auto
    show "?p \<notin> set (butlast (?q # tl (vs @ [l])))"
      unfolding q [symmetric] using d l by (cases us rule: rev_cases) auto
    show "?q \<notin> set (tl (butlast (l # us) @ [?p]))"
      unfolding p [symmetric] using d l by (cases vs) auto
  qed
  also have "butlast (l # us) @ ?p # x # ?q # tl (vs @ [l]) = l # (us @ x # vs) @ [l]"
    unfolding q [symmetric] by (metis p append.assoc append_Cons append_Nil)
  finally have "links ?m (l # (us @ x # vs) @ [l])" .
  moreover have mem: "{x, ?p, ?q} \<subseteq> insert l ?S" by (cases vs) auto
  then have "list_size ?m l = list_size m l" by (rule list_add_size [OF ok(2,1)])
  moreover have "?S = set (us @ x # vs)" by auto
  ultimately have "dll m' l (us @ x # vs)"
    using ok d l dl set_list_size_links [of "us @ x # vs" l ?m] unfolding m' dll_def by auto
  moreover have f: "fits l 20" "\<And>y. y \<in> insert l ?S \<Longrightarrow> fits y 8"
    using ok(1,2) by (auto simp: header_ok_def nodes_ok_def fits_def)
  have b: "bytes l 20 \<subseteq> list_bytes l (x # us @ vs)"
    "\<And>y. y \<in> insert l ?S \<Longrightarrow> bytes y 8 \<subseteq> list_bytes l (x # us @ vs)"
    using bytes_mono [of 8 20 l] by (auto simp: list_bytes_def)
  have "same_off (list_bytes l (x # us @ vs)) m ?m"
    using mem b(2) by (intro list_add_off f(2)) blast+
  then have "same_off (list_bytes l (x # us @ vs)) m m'"
    unfolding m' by (rule same_off_trans) (rule set_header_off(1) [OF f(1) b(1)])
  ultimately show ?thesis by blast
qed

lemma dll_around:
  assumes "dll m l (us @ x # vs)"
  shows "node_prev m x = last (l # us)" "node_next m x = hd (vs @ [l])"
    "links m (l # us)" "links m (vs @ [l])"
proof -
  have p: "l # us = butlast (l # us) @ [last (l # us)]" by simp
  have "links m (l # us @ x # vs @ [l])" using assms by (simp add: dll_def)
  then have "links m (butlast (l # us) @ last (l # us) # x # vs @ [l])"
    by (metis p append.assoc append_Cons append_Nil)
  then have a: "links m (l # us)" "links m (last (l # us) # x # vs @ [l])"
    unfolding links_append [of m "butlast (l # us)"] p [symmetric] by (rule conjunct1, rule conjunct2)
  then show "node_prev m x = last (l # us)" "links m (l # us)" by simp_all
  have "links m (x # vs @ [l])" using a(2) by simp
  then show "node_next m x = hd (vs @ [l])" "links m (vs @ [l])" by (cases vs; simp)+
qed

definition unlink :: "u32 \<Rightarrow> mem \<Rightarrow> mem" where
  "unlink node m =
     (let m = set_node_next (node_prev m node) (node_next m node) m;
          m = set_node_prev (node_next m node) (node_prev m node) m;
          m = set_node_next node 0 m
      in set_node_prev node 0 m)"

lemma list_remove_unlink:
  "l \<noteq> 0 \<Longrightarrow> x \<noteq> 0 \<Longrightarrow> x \<noteq> l \<Longrightarrow> list_size m l \<noteq> 0 \<Longrightarrow>
    list_remove_node l x m = (0, set_list_size l (list_size (unlink x m) l - 1) (unlink x m))"
  by (simp add: list_remove_node_def unlink_def Let_def)

lemma unlink_reads:
  assumes dl: "dll m l (us @ x # vs)"
  defines "p \<equiv> last (l # us)" and "q \<equiv> hd (vs @ [l])"
  shows "p \<in> insert l (set (us @ x # vs))" "q \<in> insert l (set (us @ x # vs))" "p \<noteq> x" "q \<noteq> x"
    "\<And>y. y \<in> insert l (set (us @ x # vs)) \<Longrightarrow> node_next (unlink x m) y = (if y = x then 0 else if y = p then q else node_next m y)"
    "\<And>y. y \<in> insert l (set (us @ x # vs)) \<Longrightarrow> node_prev (unlink x m) y = (if y = x then 0 else if y = q then p else node_prev m y)"
    "list_size (unlink x m) l = list_size m l" "same_off (list_bytes l (us @ x # vs)) m (unlink x m)"
proof -
  let ?S = "set (us @ x # vs)"
  have ok: "nodes_ok ?S" "header_ok l ?S" "distinct (us @ x # vs)" using dl by (auto simp: dll_def)
  have l: "l \<notin> ?S" by (rule header_not_node [OF ok(2)])
  note ok' = nodes_with_root [OF ok(1,2)] and around = dll_around [OF dl, folded p_def q_def]
  show mem: "p \<in> insert l ?S" "q \<in> insert l ?S" unfolding p_def q_def by (cases vs; auto)+
  have x: "x \<in> insert l ?S" by simp
  show ne: "p \<noteq> x" "q \<noteq> x"
    using l ok(3) by (cases us rule: rev_cases; auto simp: p_def) (cases vs; use l ok(3) in \<open>auto simp: q_def\<close>)
  have un: "unlink x m = set_node_prev x 0 (set_node_next x 0 (set_node_prev q p (set_node_next p q m)))"
    using ne mem x around by (simp add: unlink_def Let_def node_fields [OF ok'])
  show "node_next (unlink x m) y = (if y = x then 0 else if y = p then q else node_next m y)"
    "node_prev (unlink x m) y = (if y = x then 0 else if y = q then p else node_prev m y)" if "y \<in> insert l ?S" for y
    using that ne mem x unfolding un by (auto simp: node_fields [OF ok'])
  show "list_size (unlink x m) l = list_size m l"
    unfolding un using mem x by (simp add: header_fields [OF ok(2) _ ok(1)])
  have f: "fits y 8" if "y \<in> insert l ?S" for y using nodes_ok_fits [OF ok' that] .
  have b: "bytes y 8 \<subseteq> list_bytes l (us @ x # vs)" if "y \<in> insert l ?S" for y
    using that bytes_mono [of 8 20 l] by (auto simp: list_bytes_def)
  note w = set_node_off [OF f [OF mem(1)] b [OF mem(1)]]
    set_node_off [OF f [OF mem(2)] b [OF mem(2)]] set_node_off [OF f [OF x] b [OF x]]
  show "same_off (list_bytes l (us @ x # vs)) m (unlink x m)"
    unfolding un
    by (rule same_off_trans [OF same_off_trans [OF same_off_trans [OF w(1) w(4)] w(5)] w(6)])
qed

lemma unlink_links:
  assumes dl: "dll m l (us @ x # vs)"
  shows "links (unlink x m) (l # (us @ vs) @ [l])" "list_size (unlink x m) l = list_size m l"
    "same_off (list_bytes l (us @ x # vs)) m (unlink x m)"
    "node_next (unlink x m) x = 0 \<and> node_prev (unlink x m) x = 0"
proof -
  let ?p = "last (l # us)" and ?q = "hd (vs @ [l])" and ?S = "set (us @ x # vs)"
  let ?m = "unlink x m"
  have ok: "header_ok l ?S" "distinct (us @ x # vs)" using dl by (auto simp: dll_def)
  have l: "l \<notin> ?S" by (rule header_not_node [OF ok(1)])
  note around = dll_around [OF dl] and rds = unlink_reads [OF dl]
  note mem = rds(1,2) and ne = rds(3,4) and rd = rds(5,6)
  show "list_size ?m l = list_size m l" "same_off (list_bytes l (us @ x # vs)) m ?m" by (rule rds)+
  show "node_next ?m x = 0 \<and> node_prev ?m x = 0" using rd [of x] by simp
  have p: "l # us = butlast (l # us) @ [?p]" and q: "vs @ [l] = ?q # tl (vs @ [l])" by simp_all
  have "links ?m (l # us) = links m (l # us)"
  proof (rule links_cong)
    fix y assume y: "y \<in> set (butlast (l # us))"
    have "distinct (butlast (l # us) @ [?p])" unfolding p [symmetric] using ok(2) l by simp
    with y have "y \<noteq> ?p" by (metis distinct_append disjoint_iff list.set_intros(1))
    moreover have "y \<in> insert l (set us)" using in_set_butlastD [OF y] by simp
    then have "y \<noteq> x" "y \<in> insert l ?S" using l ok(2) by auto
    ultimately show "node_next ?m y = node_next m y" using rd(1) [of y] by simp
  next
    fix y assume y: "y \<in> set (tl (l # us))"
    then have "y \<noteq> x" "y \<noteq> ?q" "y \<in> insert l ?S" using l ok(2) by (cases vs; auto)+
    then show "node_prev ?m y = node_prev m y" using rd(2) [of y] by simp
  qed
  moreover have "links ?m (vs @ [l]) = links m (vs @ [l])"
  proof (rule links_cong)
    fix y assume "y \<in> set (butlast (vs @ [l]))"
    then have "y \<in> set vs" by simp
    then have "y \<noteq> x" "y \<noteq> ?p" "y \<in> insert l ?S"
      using l ok(2) by (cases us rule: rev_cases; auto)+
    then show "node_next ?m y = node_next m y" using rd(1) [of y] by simp
  next
    fix y assume y: "y \<in> set (tl (vs @ [l]))"
    then have "y \<noteq> x" "y \<noteq> ?q" "y \<in> insert l ?S" using l ok(2) by (cases vs; auto)+
    then show "node_prev ?m y = node_prev m y" using rd(2) [of y] by simp
  qed
  ultimately have "links ?m (butlast (l # us) @ ?p # ?q # tl (vs @ [l]))"
    using around(3,4) rd(1) [OF mem(1)] rd(2) [OF mem(2)] ne
    by (intro links_join) (unfold p [symmetric] q [symmetric], simp_all)
  also have "butlast (l # us) @ ?p # ?q # tl (vs @ [l]) = l # (us @ vs) @ [l]"
    unfolding q [symmetric] by (metis p append.assoc append_Cons append_Nil)
  finally show "links ?m (l # (us @ vs) @ [l])" .
qed

section \<open>The contract of a list\<close>

text \<open>
  What the clients of \<^verbatim>\<open>list.c\<close> rely on: each operation acts on the sequence of
  nodes like the operation of the same name on a list, and writes only bytes of the list
  and its nodes, so that lists with disjoint footprints do not disturb each other.
\<close>

locale node_list =
  fixes holds :: "mem \<Rightarrow> u32 \<Rightarrow> u32 list \<Rightarrow> bool"
    and footprint :: "u32 \<Rightarrow> u32 list \<Rightarrow> u32 set"
    and may_add :: "u32 \<Rightarrow> u32 list \<Rightarrow> u32 \<Rightarrow> bool"
    and push_head push_tail remove :: "u32 \<Rightarrow> u32 \<Rightarrow> mem \<Rightarrow> u32 \<times> mem"
    and pop_head pop_tail :: "u32 \<Rightarrow> mem \<Rightarrow> (u32 \<times> mem) result"
    and count :: "u32 \<Rightarrow> mem \<Rightarrow> u32"
  assumes holds_same: "holds m l ns \<Longrightarrow> same_on (footprint l ns) m m' \<Longrightarrow> holds m' l ns"
    and push_head_law: "holds m l ns \<Longrightarrow> may_add l ns x \<Longrightarrow>
      \<exists>m'. push_head l x m = (0, m') \<and> holds m' l (x # ns) \<and> same_off (footprint l (x # ns)) m m'"
    and push_tail_law: "holds m l ns \<Longrightarrow> may_add l ns x \<Longrightarrow>
      \<exists>m'. push_tail l x m = (0, m') \<and> holds m' l (ns @ [x]) \<and> same_off (footprint l (x # ns)) m m'"
    and remove_law: "holds m l (us @ x # vs) \<Longrightarrow>
      \<exists>m'. remove l x m = (0, m') \<and> holds m' l (us @ vs) \<and> may_add l (us @ vs) x \<and>
        same_off (footprint l (us @ x # vs)) m m'"
    and pop_head_law: "holds m l (x # ns) \<Longrightarrow> pop_head l m = Inr (x, snd (remove l x m))"
    and pop_tail_law: "holds m l (ns @ [x]) \<Longrightarrow> pop_tail l m = Inr (x, snd (remove l x m))"
    and count_law: "holds m l ns \<Longrightarrow> count l m = U32 (length ns)"
begin

lemma pop_head_ok:
  assumes "holds m l (x # ns)"
  shows "\<exists>m'. pop_head l m = Inr (x, m') \<and> holds m' l ns \<and> may_add l ns x \<and>
    same_off (footprint l (x # ns)) m m'"
  using remove_law [of m l "[]" x ns] pop_head_law [OF assms] assms by auto

lemma pop_tail_ok:
  assumes "holds m l (ns @ [x])"
  shows "\<exists>m'. pop_tail l m = Inr (x, m') \<and> holds m' l ns \<and> may_add l ns x \<and>
    same_off (footprint l (ns @ [x])) m m'"
  using remove_law [of m l ns x "[]"] pop_tail_law [OF assms] assms by auto

lemma disjoint_lists:
  "holds m k xs \<Longrightarrow> same_off (footprint l ns) m m' \<Longrightarrow> footprint l ns \<inter> footprint k xs = {} \<Longrightarrow>
    holds m' k xs"
  by (rule holds_same) (auto intro: same_off_on)

text \<open>Pushing at the head and popping there is the identity on the list.\<close>

lemma push_pop_head:
  assumes "holds m l ns" "may_add l ns x"
  shows "\<exists>m1 m2. push_head l x m = (0, m1) \<and> pop_head l m1 = Inr (x, m2) \<and> holds m2 l ns"
  using push_head_law [OF assms] pop_head_ok by blast

lemma push_pop_tail:
  assumes "holds m l ns" "may_add l ns x"
  shows "\<exists>m1 m2. push_tail l x m = (0, m1) \<and> pop_tail l m1 = Inr (x, m2) \<and> holds m2 l ns"
  using push_tail_law [OF assms] pop_tail_ok by blast

end

lemma dll_footprint_perm: "set ns = set ns' \<Longrightarrow> list_bytes l ns = list_bytes l ns'"
  by (simp add: list_bytes_def)

lemma push_head_dll:
  assumes "dll m l ns" "addable l ns x"
  shows "\<exists>m'. list_push_head l x m = (0, m') \<and> dll m' l (x # ns) \<and> same_off (list_bytes l (x # ns)) m m'"
proof -
  have "l \<noteq> 0" "x \<noteq> 0" using assms by (auto simp: dll_def header_ok_def addable_def nodes_ok_def)
  then show ?thesis
    using dll_insert [of m l "[]" ns x] assms
    by (simp add: list_push_head_def Let_def dll_ends(1))
qed

lemma push_tail_dll:
  assumes "dll m l ns" "addable l ns x"
  shows "\<exists>m'. list_push_tail l x m = (0, m') \<and> dll m' l (ns @ [x]) \<and> same_off (list_bytes l (x # ns)) m m'"
proof -
  have "l \<noteq> 0" "x \<noteq> 0" using assms by (auto simp: dll_def header_ok_def addable_def nodes_ok_def)
  then show ?thesis
    using dll_insert [of m l ns "[]" x] assms
    by (simp add: list_push_tail_def Let_def dll_ends(2))
qed

lemma dll_size_nonzero: "dll m l ns \<Longrightarrow> list_size m l = 0 \<longleftrightarrow> ns = []"
  by (auto simp: dll_def word_unat_eq_iff unat_of_nat_u32)

lemma remove_dll:
  assumes "dll m l (us @ x # vs)"
  shows "\<exists>m'. list_remove_node l x m = (0, m') \<and> dll m' l (us @ vs) \<and> addable l (us @ vs) x \<and>
    same_off (list_bytes l (us @ x # vs)) m m'"
proof -
  let ?S = "set (us @ x # vs)"
  have ok: "nodes_ok ?S" "header_ok l ?S" "distinct (us @ x # vs)"
    "length (us @ x # vs) < 4294967296" "list_size m l = U32 (length (us @ x # vs))"
    using assms by (auto simp: dll_def)
  have sub: "set (us @ vs) \<subseteq> ?S" by auto
  note ok' = nodes_ok_mono [OF ok(1) sub] header_ok_mono [OF ok(2) sub]
  note un = unlink_links [OF assms]
  have ne: "l \<noteq> 0" "x \<noteq> 0" "x \<noteq> l"
    using ok header_not_node [OF ok(2)] by (auto simp: header_ok_def nodes_ok_def)
  have rm: "list_remove_node l x m = (0, set_list_size l (list_size (unlink x m) l - 1) (unlink x m))"
    using dll_size_nonzero [OF assms] by (intro list_remove_unlink ne) simp
  have "dll (set_list_size l (list_size (unlink x m) l - 1) (unlink x m)) l (us @ vs)"
    using set_list_size_links [OF ok' un(1)] ok' ok(3-5) un(2) by (simp add: dll_def)
  moreover have "addable l (us @ vs) x"
    using ok by (simp add: addable_def)
  moreover have "same_off (list_bytes l (us @ x # vs)) m
      (set_list_size l (list_size (unlink x m) l - 1) (unlink x m))"
    by (rule same_off_trans [OF un(3)], rule set_header_off(1))
      (use ok(2) in \<open>auto simp: header_ok_def list_bytes_def\<close>)
  ultimately show ?thesis using rm by blast
qed

interpretation kl: node_list dll list_bytes addable list_push_head list_push_tail
  list_remove_node "list_pop_head literal" "list_pop_tail literal" list_get_size for literal
proof unfold_locales
  show "dll m l ns \<Longrightarrow> same_on (list_bytes l ns) m m' \<Longrightarrow> dll m' l ns" for m l ns m'
    by (rule dll_same)
  show "dll m l (x # ns) \<Longrightarrow> list_pop_head literal l m = Inr (x, snd (list_remove_node l x m))"
    for m l x ns
    using dll_size_nonzero [of m l "x # ns"] dll_ends(1) [of m l "x # ns"]
    by (auto simp: list_pop_head_def Let_def dll_def header_ok_def)
  show "dll m l (ns @ [x]) \<Longrightarrow> list_pop_tail literal l m = Inr (x, snd (list_remove_node l x m))"
    for m l x ns
    using dll_size_nonzero [of m l "ns @ [x]"] dll_ends(2) [of m l "ns @ [x]"]
    by (auto simp: list_pop_tail_def Let_def dll_def header_ok_def)
  show "dll m l ns \<Longrightarrow> list_get_size l m = U32 (length ns)" for m l ns
    by (simp add: list_get_size_def dll_def header_ok_def)
qed (fact push_head_dll push_tail_dll remove_dll)+

section \<open>Sequences of operations\<close>

datatype list_op = PushHead u32 | PushTail u32 | PopHead | PopTail | Remove u32

fun exec_op :: "u32 \<Rightarrow> u32 \<Rightarrow> list_op \<Rightarrow> mem \<Rightarrow> (u32 \<times> mem) result" where
  "exec_op literal l (PushHead x) m = Inr (list_push_head l x m)"
| "exec_op literal l (PushTail x) m = Inr (list_push_tail l x m)"
| "exec_op literal l PopHead m = list_pop_head literal l m"
| "exec_op literal l PopTail m = list_pop_tail literal l m"
| "exec_op literal l (Remove x) m = Inr (list_remove_node l x m)"

fun exec_ops :: "u32 \<Rightarrow> u32 \<Rightarrow> list_op list \<Rightarrow> mem \<Rightarrow> (u32 list \<times> mem) result" where
  "exec_ops literal l [] m = Inr ([], m)"
| "exec_ops literal l (c # cs) m =
     (case exec_op literal l c m of Inl f \<Rightarrow> Inl f
      | Inr (r, m) \<Rightarrow>
          (case exec_ops literal l cs m of Inl f \<Rightarrow> Inl f | Inr (rs, m) \<Rightarrow> Inr (r # rs, m)))"

text \<open>The same operations on sequences; \<open>None\<close> where the caller breaks the contract (a
  node pushed twice or overlapping another, a pop from an empty list, a node removed that is
  not there).\<close>

fun spec_op :: "u32 \<Rightarrow> list_op \<Rightarrow> u32 list \<Rightarrow> (u32 \<times> u32 list) option" where
  "spec_op l (PushHead x) ns = (if addable l ns x then Some (0, x # ns) else None)"
| "spec_op l (PushTail x) ns = (if addable l ns x then Some (0, ns @ [x]) else None)"
| "spec_op l PopHead ns = (if ns = [] then None else Some (hd ns, tl ns))"
| "spec_op l PopTail ns = (if ns = [] then None else Some (last ns, butlast ns))"
| "spec_op l (Remove x) ns = (if x \<in> set ns then Some (0, remove1 x ns) else None)"

fun spec_ops :: "u32 \<Rightarrow> list_op list \<Rightarrow> u32 list \<Rightarrow> (u32 list \<times> u32 list) option" where
  "spec_ops l [] ns = Some ([], ns)"
| "spec_ops l (c # cs) ns =
     (case spec_op l c ns of None \<Rightarrow> None
      | Some (r, ns) \<Rightarrow> (case spec_ops l cs ns of None \<Rightarrow> None | Some (rs, ns) \<Rightarrow> Some (r # rs, ns)))"

lemma exec_op_refines:
  assumes "dll m l ns" "spec_op l c ns = Some (r, ns')"
  shows "\<exists>m'. exec_op literal l c m = Inr (r, m') \<and> dll m' l ns'"
proof (cases c)
  case (PushHead x)
  with assms kl.push_head_law [of m l ns x] show ?thesis by (auto split: if_splits)
next
  case (PushTail x)
  with assms kl.push_tail_law [of m l ns x] show ?thesis by (auto split: if_splits)
next
  case PopHead
  with assms kl.pop_head_ok [of m l r ns' literal] show ?thesis by (auto split: if_splits)
next
  case PopTail
  with assms kl.pop_tail_ok [of m l ns' r literal] show ?thesis by (auto split: if_splits)
next
  case (Remove x)
  with assms have x: "x \<in> set ns" "r = 0" "ns' = remove1 x ns" by (auto split: if_splits)
  then obtain us vs where "ns = us @ x # vs" "x \<notin> set us" by (metis split_list_first)
  moreover from this x have "ns' = us @ vs" by (simp add: remove1_append)
  ultimately show ?thesis using Remove assms(1) kl.remove_law [of m l us x vs] x(2) by auto
qed

section \<open>Creation and disposal\<close>

definition root_self :: "u32 \<Rightarrow> mem \<Rightarrow> mem" where
  "root_self l m =
     set_list_err_code l 0 (set_list_size l 0 (set_node_prev l l (set_node_next l l m)))"

lemma err_fields:
  assumes "fits l 20"
  shows "node_next (set_list_err_code l v m) l = node_next m l"
    "node_prev (set_list_err_code l v m) l = node_prev m l"
    "list_size (set_list_err_code l v m) l = list_size m l"
    "list_err_msg (set_list_err_code l v m) l = list_err_msg m l"
    "list_err_code (set_list_err_code l v m) l = v"
    "list_err_msg (set_list_size l v m) l = list_err_msg m l"
    "list_err_msg (set_node_next l v m) l = list_err_msg m l"
    "list_err_msg (set_node_prev l v m) l = list_err_msg m l"
    "list_err_msg (set_list_err_msg l v m) l = v"
proof -
  note off = header_offset [OF assms]
  show "node_next (set_list_err_code l v m) l = node_next m l"
    "node_prev (set_list_err_code l v m) l = node_prev m l"
    "list_size (set_list_err_code l v m) l = list_size m l"
    "list_err_msg (set_list_err_code l v m) l = list_err_msg m l"
    "list_err_code (set_list_err_code l v m) l = v"
    "list_err_msg (set_list_size l v m) l = list_err_msg m l"
    "list_err_msg (set_node_next l v m) l = list_err_msg m l"
    "list_err_msg (set_node_prev l v m) l = list_err_msg m l"
    "list_err_msg (set_list_err_msg l v m) l = v"
    using assms off
    by (auto simp: node_defs header_defs fits_def apart_def intro!: load32_store32_apart)
qed

lemma root_self_dll:
  assumes "l \<noteq> 0" "fits l 20"
  shows "dll (root_self l m) l []" "list_err_code (root_self l m) l = 0"
    "list_err_msg (root_self l m) l = list_err_msg m l" "same_off (bytes l 20) m (root_self l m)"
proof -
  have h: "header_ok l {}" "nodes_ok {}" using assms by (simp_all add: header_ok_def nodes_ok_def)
  have n: "nodes_ok {l}" using nodes_with_root [OF h(2,1)] by simp
  show "dll (root_self l m) l []"
    using h by (simp add: dll_def root_self_def err_fields [OF assms(2)] header_fields [OF h(1) _ h(2)]
        node_fields [OF n])
  show "list_err_code (root_self l m) l = 0" "list_err_msg (root_self l m) l = list_err_msg m l"
    by (simp_all add: root_self_def err_fields [OF assms(2)])
  have "fits l 8" "bytes l 8 \<subseteq> bytes l 20" using assms(2) by (auto simp: fits_def bytes_mono)
  note w = set_node_off [OF this] set_header_off [OF assms(2) subset_refl]
  show "same_off (bytes l 20) m (root_self l m)"
    unfolding root_self_def
    by (rule same_off_trans [OF same_off_trans [OF same_off_trans [OF w(1) w(2)] w(3)] w(4)])
qed

lemma same_contents_trans:
  "same_contents live m m1 \<Longrightarrow> same_contents live m1 m2 \<Longrightarrow> same_contents live m m2"
  by (auto simp: same_contents_def)

lemma same_contents_sub:
  "same_contents live' m m' \<Longrightarrow> live \<subseteq>\<^sub>m live' \<Longrightarrow> same_contents live m m'"
  unfolding same_contents_def map_le_def by (metis domI)

lemma list_init_cases:
  assumes inv: "heap_inv hi a live m"
  obtains (full) m' where "list_init a e m = Some (0, 1, m')" "heap_inv hi a live m'"
      "same_contents live m m'" "same_off (heap_area a hi) m m'"
  | (made) l msg m' where "list_init a e m = Some (l, e, m')" "dll m' l []" "list_err_code m' l = 0"
      "list_err_msg m' l = msg" "live l = None" "live msg = None" "l \<noteq> msg"
      "heap_inv hi a (live(l \<mapsto> 20, msg \<mapsto> 256)) m'" "same_contents live m m'"
      "same_off (heap_area a hi) m m'"
proof -
  from inv show ?thesis
  proof (cases rule: kh.alloc_cases [where n = 20])
    case null
    with full [of m] inv show ?thesis by (simp add: list_init_def same_contents_def)
  next
    case l: (grant l m1)
    have li: "(live(l \<mapsto> 20)) l = Some 20" "(live(l \<mapsto> 20))(l := None) = live" using l(3) by auto
    have inv1: "heap_inv hi a (live(l \<mapsto> 20)) m1" using l(4) by simp
    have fl: "fits l 20" using kh.live_fits [OF inv1 li(1)] by simp
    have la: "bytes l 20 \<subseteq> heap_area a hi" using lh.live_area [OF inv1 li(1)] .
    have o1: "same_off (heap_area a hi) m m1" by (rule lh.alloc_area [OF inv l(1)])
    note w = set_header_off(3) [OF fl subset_refl]
    from inv1 show ?thesis
    proof (cases rule: kh.alloc_cases [where n = 256])
      case null
      let ?m = "set_list_err_msg l 0 m1"
      have w1: "heap_inv hi a (live(l \<mapsto> 20)) ?m" "same_contents live m1 ?m"
        using kh.client_write [OF inv1 li(1) w] unfolding li(2) by blast+
      obtain m' where "kfree a l ?m = Some m'" "heap_inv hi a live m'" "same_contents live ?m m'"
        using kh.release_ok [OF w1(1) li(1)] unfolding li(2) by blast
      moreover from this(1) have "same_off (heap_area a hi) m m'"
        using same_off_trans [OF same_off_trans [OF o1 same_off_mono [OF w la]] lh.release_area [OF w1(1) li(1)]] by blast
      ultimately show ?thesis using full [of m'] w1(2) l null
        by (simp add: list_init_def Let_def MAX_ERR_LENGTH_def err_fields [OF fl])
          (blast intro: same_contents_trans)
    next
      case g: (grant msg m2)
      let ?live = "live(l \<mapsto> 20, msg \<mapsto> 256)"
      let ?m = "set_list_err_msg l msg m2"
      have d: "l \<noteq> msg" "live msg = None" using g(3) by (auto split: if_splits)
      have inv2: "heap_inv hi a ?live m2" using g(4) by simp
      have lm: "?live l = Some 20" "live \<subseteq>\<^sub>m ?live(l := None)"
        "live \<subseteq>\<^sub>m live(l \<mapsto> 20)"
        using d l(3) by (auto simp: map_le_def)
      note r = root_self_dll [OF l(2) fl, of ?m]
      have w2: "same_off (bytes l 20) m2 (root_self l ?m)" by (rule same_off_trans [OF w r(4)])
      have init: "list_init a e m = Some (l, e, root_self l ?m)"
        using l g by (simp add: list_init_def Let_def MAX_ERR_LENGTH_def err_fields [OF fl] root_self_def)
      have inv3: "heap_inv hi a ?live (root_self l ?m)" "same_contents live m2 (root_self l ?m)"
        using kh.client_write [OF inv2 lm(1) w2] same_contents_sub [OF _ lm(2)] by blast+
      then have sc: "same_contents live m (root_self l ?m)"
        using same_contents_trans [OF same_contents_trans [OF l(5) same_contents_sub [OF g(5) lm(3)]]]
        by blast
      have "list_err_msg (root_self l ?m) l = msg" using r(3) by (simp add: err_fields [OF fl])
      moreover have "same_off (heap_area a hi) m (root_self l ?m)"
        using same_off_trans [OF same_off_trans [OF o1 lh.alloc_area [OF inv1 g(1)]] same_off_mono [OF w2 la]] .
      ultimately show ?thesis by (rule made [OF init r(1,2) _ l(3) d(2,1) inv3(1) sc])
    qed
  qed
qed

lemma err_msg_apart:
  assumes "header_ok l S" "nodes_ok S" "y \<in> insert l S"
  shows "list_err_msg (set_node_next y v m) l = list_err_msg m l"
    "list_err_msg (set_node_prev y v m) l = list_err_msg m l"
proof -
  have f: "fits l 20" "fits y 8" and ap: "y \<noteq> l \<Longrightarrow> apart l 20 y 8"
    using assms by (auto simp: header_ok_def nodes_ok_def fits_def)
  have "fits (l + 16) 4" "fits y 4" "fits (y + 4) 4" "apart y 4 (l + 16) 4" "apart (y + 4) 4 (l + 16) 4"
    using f ap header_offset [OF f(1)] node_offset [OF f(2)]
    by (cases "y = l"; auto simp: fits_def apart_def)+
  then show "list_err_msg (set_node_next y v m) l = list_err_msg m l"
    "list_err_msg (set_node_prev y v m) l = list_err_msg m l"
    by (simp_all add: node_defs header_defs load32_store32_apart)
qed

lemma remove_err_msg:
  assumes dl: "dll m l (us @ x # vs)"
  shows "list_err_msg (snd (list_remove_node l x m)) l = list_err_msg m l"
proof -
  let ?S = "set (us @ x # vs)"
  have ok: "nodes_ok ?S" "header_ok l ?S" using dl by (auto simp: dll_def)
  then have ne: "l \<noteq> 0" "x \<noteq> 0" "x \<noteq> l" "fits l 20"
    using header_not_node [OF ok(2)] by (auto simp: header_ok_def nodes_ok_def)
  note ok' = nodes_with_root [OF ok]
  have mem: "last (l # us) \<in> insert l ?S" "hd (vs @ [l]) \<in> insert l ?S" "x \<in> insert l ?S"
    by (cases vs; auto)+
  have "list_err_msg (unlink x m) l = list_err_msg m l"
    using mem dll_around(1,2) [OF dl]
    by (simp add: unlink_def Let_def node_fields [OF ok'] err_msg_apart [OF ok(2,1)])
  moreover have "list_size m l \<noteq> 0" using dll_size_nonzero [OF dl] by simp
  ultimately show ?thesis
    by (simp add: list_remove_unlink [OF ne(1-3)] err_fields [OF ne(4)])
qed

text \<open>The loop of \<open>list_free\<close> pops every node, so it ends after as many rounds as the
  list has nodes.\<close>

lemma list_free_loop_dll:
  assumes "dll m l ns"
  shows "\<exists>m'. list_free_loop literal l m = Some (Inr m') \<and> dll m' l [] \<and>
    same_off (list_bytes l ns) m m'"
  using assms
proof (induction ns arbitrary: m)
  case Nil
  then have "list_size m l = 0" by (simp add: dll_def)
  then have "list_free_loop literal l m = Some (Inr m)" by (subst list_free_loop.simps) simp
  with Nil show ?case by auto
next
  case (Cons x ns)
  obtain m1 where m1: "list_pop_head literal l m = Inr (x, m1)" "dll m1 l ns"
    "same_off (list_bytes l (x # ns)) m m1"
    using kl.pop_head_ok [OF Cons.prems, of literal] by blast
  obtain m2 where m2: "list_free_loop literal l m1 = Some (Inr m2)" "dll m2 l []"
    "same_off (list_bytes l ns) m1 m2"
    using Cons.IH [OF m1(2)] by blast
  have "0 < list_size m l" using dll_size_nonzero [OF Cons.prems] by (simp add: word_gt_0)
  then have "list_free_loop literal l m = Some (Inr m2)"
    using m1 m2 by (subst list_free_loop.simps) simp
  moreover have "same_off (list_bytes l (x # ns)) m m2"
    using same_off_trans [OF m1(3) same_off_mono [OF m2(3)]] by (auto simp: list_bytes_def)
  ultimately show ?case using m2 by blast
qed

text \<open>Only the header's link and size words are written by the removals, never \<open>err_msg\<close>.\<close>

lemma list_free_loop_err_msg:
  assumes "dll m l ns" "list_free_loop literal l m = Some (Inr m')"
  shows "list_err_msg m' l = list_err_msg m l"
  using assms
proof (induction ns arbitrary: m)
  case Nil
  then show ?case
    by (subst (asm) list_free_loop.simps) (simp add: dll_def)
next
  case (Cons x ns)
  obtain m1 where m1: "list_pop_head literal l m = Inr (x, m1)" "dll m1 l ns"
    using kl.pop_head_ok [OF Cons.prems(1), of literal] by blast
  have "0 < list_size m l" using dll_size_nonzero [OF Cons.prems(1)] by (simp add: word_gt_0)
  then have "list_free_loop literal l m1 = Some (Inr m')"
    using m1 Cons.prems(2) by (subst (asm) list_free_loop.simps) simp
  with Cons.IH m1(2) have "list_err_msg m' l = list_err_msg m1 l" by blast
  moreover have "list_err_msg m1 l = list_err_msg m l"
    using remove_err_msg [of m l "[]" x ns] Cons.prems(1) m1(1) kl.pop_head_law [of m l x ns literal]
    by simp
  ultimately show ?case by simp
qed

lemma header_reads_same:
  assumes "same_on (bytes l 20) m m'" "fits l 20"
  shows "list_err_code m' l = list_err_code m l" "list_err_msg m' l = list_err_msg m l"
proof -
  have "bytes (l + 12) 4 \<subseteq> bytes l 20" "bytes (l + 16) 4 \<subseteq> bytes l 20"
    using bytes_offset [of l 20 12 4] bytes_offset [of l 20 16 4] assms(2) by simp_all
  moreover have "fits (l + 12) 4" "fits (l + 16) 4"
    using assms(2) by (simp_all add: fits_def header_offset)
  ultimately show "list_err_code m' l = list_err_code m l" "list_err_msg m' l = list_err_msg m l"
    unfolding list_err_code_def list_err_msg_def by (auto intro!: load32_same_on [OF assms(1)])
qed

text \<open>The first list made on a fresh heap.\<close>

lemma fresh_list:
  obtains l m' where "list_init 0x1000 e (snd (kmalloc_init 0x1000 m)) = Some (l, e, m')" "dll m' l []"
    "l \<noteq> list_err_msg m' l" "heap_inv 0x7FFFFF 0x1000 [l \<mapsto> 20, list_err_msg m' l \<mapsto> 256] m'"
proof -
  let ?m = "snd (kmalloc_init 0x1000 m)"
  let ?c = "\<lparr>baddr = 0x1020, bsize = 0x7FEFD3, bfree = True\<rparr>"
  have inv: "heap_inv 0x7FFFFF 0x1000 Map.empty ?m" by (rule kmalloc_init_inv) simp_all
  obtain m1 where al: "kmalloc 0x1000 20 ?m = Some (0x100C, m1)"
    and ok: "heap_ok m1 0x7FFFFF 0x1000 [\<lparr>baddr = 0x1000, bsize = 20, bfree = False\<rparr>, ?c]"
    by (rule fresh_heap_alloc [of "0x1000" 20 m]) (simp_all add: take_block_def)
  obtain p m2 where "kmalloc 0x1000 256 m1 = Some (p, m2)" "p \<noteq> 0"
  proof (rule kmalloc_cases [OF ok, of 256])
    fix ps b qs m2
    assume "[\<lparr>baddr = 0x1000, bsize = 20, bfree = False\<rparr>, ?c] = ps @ b # qs" "suits 256 b"
      "kmalloc 0x1000 256 m1 = Some (baddr b + 12, m2)"
    moreover from this have "b = ?c" by (auto simp: Cons_eq_append_conv suits_def)
    ultimately show ?thesis using that by simp
  qed (simp_all add: suits_def)
  then have "list_init 0x1000 e ?m \<noteq> Some (0, 1, m')" for m'
    using al by (simp add: list_init_def MAX_ERR_LENGTH_def Let_def err_fields fits_def)
  with that inv show ?thesis by (cases rule: list_init_cases [OF inv, of e]) auto
qed

section \<open>Properties\<close>

text \<open>C25: a list implements a sequence of nodes: every sequence of pushes, pops and removals
  that keeps to the contract returns what the same operations on the sequence return, never
  faults, and leaves the list holding the resulting sequence.\<close>

theorem list_refines_sequence:
  assumes "dll m l ns" "spec_ops l cs ns = Some (rs, ns')"
  shows "\<exists>m'. exec_ops literal l cs m = Inr (rs, m') \<and> dll m' l ns'"
  using assms
proof (induction cs arbitrary: m ns rs)
  case (Cons c cs)
  from Cons.prems(2) obtain r rs1 ns1 where s: "spec_op l c ns = Some (r, ns1)"
    "spec_ops l cs ns1 = Some (rs1, ns')" "rs = r # rs1"
    by (auto split: option.splits)
  from exec_op_refines [OF Cons.prems(1) s(1)] obtain m1 where
    "exec_op literal l c m = Inr (r, m1)" "dll m1 l ns1" by blast
  with Cons.IH [OF this(2) s(2)] s(3) show ?case by auto
qed simp

theorem list_refines_sequence_witness:
  "\<exists>m m'. dll m 0x1000 [] \<and>
     exec_ops 0x500 0x1000 [PushTail 0x2000, PushHead 0x3000, PopTail] m = Inr ([0, 0, 0x2000], m') \<and>
     dll m' 0x1000 [0x3000]"
proof -
  have d: "dll (root_self 0x1000 (\<lambda>_. 0)) 0x1000 []" by (rule root_self_dll) (simp_all add: fits_def)
  have "spec_ops 0x1000 [PushTail 0x2000, PushHead 0x3000, PopTail] [] =
      Some ([0, 0, 0x2000], [0x3000])"
    by (simp add: addable_def nodes_ok_def header_ok_def fits_def apart_def)
  from list_refines_sequence [OF d this] d show ?thesis by blast
qed

text \<open>\<open>list_init\<close> always returns on a well-formed heap: either it reports failure,
  having released whatever it allocated, or it returns a new empty list whose header and
  256-byte error buffer are fresh allocations; other live data are not touched.\<close>

theorem list_init_spec:
  assumes "heap_inv hi a live m"
  shows "(\<exists>m'. list_init a e m = Some (0, 1, m') \<and> heap_inv hi a live m' \<and> same_contents live m m') \<or>
    (\<exists>l m'. list_init a e m = Some (l, e, m') \<and> dll m' l [] \<and> list_get_error_code l m' = 0 \<and>
      live l = None \<and> live (list_err_msg m' l) = None \<and>
      heap_inv hi a (live(l \<mapsto> 20, list_err_msg m' l \<mapsto> 256)) m' \<and> same_contents live m m')"
  using assms
proof (cases rule: list_init_cases [where e = e])
  case (made l msg m')
  moreover have "l \<noteq> 0" using made(2) by (simp add: dll_def header_ok_def)
  ultimately show ?thesis by (auto simp: list_get_error_code_def)
qed blast

theorem list_init_spec_witness:
  "\<exists>m l e m'. heap_inv 0x7FFFFF 0x1000 Map.empty m \<and> list_init 0x1000 7 m = Some (l, e, m') \<and>
     (l = 0 \<longrightarrow> e = 1) \<and> (l \<noteq> 0 \<longrightarrow> dll m' l [])"
proof -
  have inv: "heap_inv 0x7FFFFF 0x1000 Map.empty (snd (kmalloc_init 0x1000 (\<lambda>_. 0)))"
    by (rule kmalloc_init_inv) simp_all
  then show ?thesis using list_init_spec [OF inv, of 7] by (fastforce simp: dll_def header_ok_def)
qed

text \<open>C26: \<open>list_free\<close> returns for every list whose header and error buffer are two live
  allocations and whose nodes lie in live allocations, however many nodes it still holds: the
  loop ends, and afterwards the blocks in use are those from before less exactly the
  header's and the error buffer's.\<close>

theorem list_free_releases:
  assumes "heap_inv hi a live m" "dll m l ns" "live l = Some 20" "live (list_err_msg m l) = Some 256"
    and "list_err_msg m l \<noteq> l" "\<forall>x \<in> set ns. bytes x 8 \<subseteq> owned live"
  shows "\<exists>m'. list_free a literal l m = Some (Inr m') \<and>
    heap_inv hi a (live(list_err_msg m l := None, l := None)) m'"
proof -
  let ?msg = "list_err_msg m l"
  obtain m1 where m1: "list_free_loop literal l m = Some (Inr m1)" "same_off (list_bytes l ns) m m1"
    using list_free_loop_dll [OF assms(2)] by blast
  have msg: "list_err_msg m1 l = ?msg" by (rule list_free_loop_err_msg [OF assms(2) m1(1)])
  have "list_bytes l ns \<subseteq> owned live"
    using assms(3,6) by (auto simp: list_bytes_def owned_def bytes_def)
  then have "heap_inv hi a live m1"
    by (rule kh.client_writes [OF assms(1) same_off_mono [OF m1(2)]])
  from kh.release_ok [OF this assms(4)] obtain m2 where m2: "kfree a ?msg m1 = Some m2"
    "heap_inv hi a (live(?msg := None)) m2" by blast
  have "(live(?msg := None)) l = Some 20" using assms(3,5) by simp
  from kh.release_ok [OF m2(2) this] obtain m3 where "kfree a l m2 = Some m3"
    "heap_inv hi a (live(?msg := None, l := None)) m3" by blast
  moreover have "l \<noteq> 0" using assms(2) by (simp add: dll_def header_ok_def)
  ultimately show ?thesis using m1(1) m2(1) msg by (simp add: list_free_def)
qed

theorem list_free_releases_witness:
  "\<exists>m l m'. dll m l [] \<and> list_free 0x1000 0x500 l m = Some (Inr m') \<and>
     heap_inv 0x7FFFFF 0x1000 Map.empty m'"
proof -
  obtain l m where l: "dll m l []" "l \<noteq> list_err_msg m l"
    "heap_inv 0x7FFFFF 0x1000 [l \<mapsto> 20, list_err_msg m l \<mapsto> 256] m"
    by (rule fresh_list [of 0 "\<lambda>_. 0"])
  have "\<exists>m'. list_free 0x1000 0x500 l m = Some (Inr m') \<and> heap_inv 0x7FFFFF 0x1000
      ([l \<mapsto> 20, list_err_msg m l \<mapsto> 256](list_err_msg m l := None, l := None)) m'"
    by (rule list_free_releases [OF l(3,1)]) (use l(2) in simp_all)
  moreover have "[l \<mapsto> 20, list_err_msg m l \<mapsto> 256](list_err_msg m l := None, l := None) = Map.empty"
    by auto
  ultimately show ?thesis using l(1) by auto
qed

text \<open>C27: popping from an empty list fails with \<open>NULL\<close> and error code 1 and leaves the list
  as it is, but the message never reaches the caller: the arguments of \<open>kstrncpy\<close> are in the
  order (source, destination), so the error buffer is copied over the string literal and the
  buffer itself keeps its contents.\<close>

theorem pop_empty_message_lost:
  assumes "dll m l []" "str_at m (list_err_msg m l) s" "length s < 256"
    and "fits (list_err_msg m l) 256" "fits literal 256"
    and "apart l 20 (list_err_msg m l) 256" "apart literal 256 l 20"
    and "apart literal 256 (list_err_msg m l) 256"
  shows "\<exists>m'. list_pop_head literal l m = Inr (0, m') \<and> dll m' l [] \<and>
    list_get_error_code l m' = 1 \<and>
    str_at m' (list_get_err_msg other l m') s \<and> str_at m' literal s"
proof -
  let ?msg = "list_err_msg m l" and ?m = "set_list_err_code l 1 m"
  have l: "l \<noteq> 0" "fits l 20" "list_size m l = 0" using assms(1) by (auto simp: dll_def header_ok_def)
  have off: "same_off (bytes l 20) m ?m" by (rule set_header_off(2) [OF l(2) subset_refl])
  have "bytes l 20 \<inter> bytes ?msg 256 = {}"
    using assms(6) by (auto simp: bytes_def in_range_def apart_def)
  from str_at_same [OF assms(2,4,3) same_off_on [OF off this]] have str: "str_at ?m ?msg s" .
  have "\<exists>m'. kstrncpy ?msg literal 256 ?m = (literal, m') \<and>
    str_at m' literal (strncpy_text (unat (256 :: u32)) s) \<and>
    (\<forall>x. unat (256 :: u32) \<le> unat (x - literal) \<longrightarrow> m' x = ?m x)"
  proof (rule kstrncpy_str [OF str])
    fix i j assume ij: "i \<le> length s" "j < unat (256 :: u32)"
    then have "unat (?msg + U32 i) = unat ?msg + i" "unat (literal + U32 j) = unat literal + j"
      using assms(3-5) by (auto intro!: unat_offset [where n = 256])
    then show "?msg + U32 i \<noteq> literal + U32 j"
      using assms(3,8) ij by (auto simp: apart_def word_unat_eq_iff)
  qed (use assms(3) in simp_all)
  moreover have "strncpy_text (unat (256 :: u32)) s = s" using assms(3) by (simp add: strncpy_text_def)
  ultimately obtain m' where m': "kstrncpy ?msg literal 256 ?m = (literal, m')" "str_at m' literal s"
    "\<forall>x. 256 \<le> unat (x - literal) \<longrightarrow> m' x = ?m x" by auto
  have off': "same_off (bytes literal 256) ?m m'"
    using m'(3) offset_outside [OF assms(5)] by (simp add: same_off_def)
  have disj: "bytes literal 256 \<inter> bytes l 20 = {}" "bytes literal 256 \<inter> bytes ?msg 256 = {}"
    using assms(7,8) by (auto simp: bytes_def in_range_def apart_def)
  have d: "dll ?m l []" using assms(1) by (simp add: dll_def err_fields [OF l(2)])
  then have "dll m' l []"
    by (rule dll_same) (use same_off_on [OF off' disj(1)] in \<open>simp add: list_bytes_def\<close>)
  moreover have "list_err_code m' l = 1" "list_err_msg m' l = ?msg"
    using header_reads_same [OF same_off_on [OF off' disj(1)] l(2)] by (simp_all add: err_fields [OF l(2)])
  moreover have "str_at m' ?msg s" by (rule str_at_same [OF str assms(4,3) same_off_on [OF off' disj(2)]])
  moreover have "list_pop_head literal l m = Inr (0, m')"
    using l m'(1) by (simp add: list_pop_head_def Let_def MAX_ERR_LENGTH_def err_fields)
  ultimately show ?thesis using l m'(2) by (auto simp: list_get_error_code_def list_get_err_msg_def)
qed

theorem pop_empty_message_lost_witness:
  "\<exists>m m'. list_pop_head 0x5000 0x1000 m = Inr (0, m') \<and> list_get_error_code 0x1000 m' = 1 \<and>
     str_at m' (list_get_err_msg 0x6000 0x1000 m') [] \<and> str_at m' 0x5000 []"
proof -
  let ?base = "set_list_err_msg 0x1000 0x2000 (\<lambda>_. 0)"
  let ?m = "root_self 0x1000 ?base"
  have f: "fits 0x1000 20" by (simp add: fits_def)
  have d: "dll ?m 0x1000 []" and msg: "list_err_msg ?m 0x1000 = 0x2000"
    and off: "same_off (bytes 0x1000 20) ?base ?m"
    using root_self_dll [of "0x1000" ?base] f by (simp_all add: err_fields)
  have "same_off (bytes 0x1000 20) (\<lambda>_. 0) ?m"
    by (rule same_off_trans [OF set_header_off(3) [OF f subset_refl] off])
  then have "?m 0x2000 = 0" by (simp add: same_off_def bytes_def in_range_def)
  then have str: "str_at ?m (list_err_msg ?m 0x1000) []" by (simp add: msg load8_def)
  show ?thesis
    using pop_empty_message_lost [OF d str, of "0x5000" "0x6000"]
    by (simp add: msg fits_def apart_def) blast
qed

end
