(* ===== verification/Pcb.thy ===== *)
theory Pcb
  imports Klist
begin

text \<open>
  \<^verbatim>\<open>src/include/proc/proc.h\<close>: the process control block, 40 bytes: \<open>pid\<close> at 0,
  \<open>sched_node\<close> at 4, \<open>state\<close> at 12, \<open>priority\<close> at 16, \<open>quantum_remaining\<close>
  at 20, \<open>age_ticks\<close> at 24, \<open>address_space\<close> at 28, \<open>address_space_physical\<close> at
  32 and \<open>kernel_stack_ptr\<close> at 36.  The second part is about families of lists whose
  nodes are the \<open>sched_node\<close> fields of distinct control blocks, the shape of the
  scheduler's queues.
\<close>

section \<open>Control blocks\<close>

datatype ProcessState = STATE_NEW | STATE_READY | STATE_RUNNING | STATE_WAITING | STATE_TERMINATING

fun state_code :: "ProcessState \<Rightarrow> u32" where
  "state_code STATE_NEW = 0"
| "state_code STATE_READY = 1"
| "state_code STATE_RUNNING = 2"
| "state_code STATE_WAITING = 3"
| "state_code STATE_TERMINATING = 4"

lemma state_code_inj [simp]: "state_code s = state_code t \<longleftrightarrow> s = t"
  by (cases s; cases t) simp_all

definition sched_node :: "u32 \<Rightarrow> u32" where
  "sched_node p = p + 4"

definition pcb_of_node :: "u32 \<Rightarrow> u32" where
  "pcb_of_node n = n - 4"

definition pcb_pid :: "mem \<Rightarrow> u32 \<Rightarrow> u32" where
  "pcb_pid m p = load32 m p"

definition pcb_state :: "mem \<Rightarrow> u32 \<Rightarrow> u32" where
  "pcb_state m p = load32 m (p + 12)"

definition pcb_priority :: "mem \<Rightarrow> u32 \<Rightarrow> u32" where
  "pcb_priority m p = load32 m (p + 16)"

definition pcb_quantum :: "mem \<Rightarrow> u32 \<Rightarrow> u32" where
  "pcb_quantum m p = load32 m (p + 20)"

definition pcb_age :: "mem \<Rightarrow> u32 \<Rightarrow> u32" where
  "pcb_age m p = load32 m (p + 24)"

definition pcb_address_space :: "mem \<Rightarrow> u32 \<Rightarrow> u32" where
  "pcb_address_space m p = load32 m (p + 28)"

definition pcb_space_phys :: "mem \<Rightarrow> u32 \<Rightarrow> u32" where
  "pcb_space_phys m p = load32 m (p + 32)"

definition pcb_stack :: "mem \<Rightarrow> u32 \<Rightarrow> u32" where
  "pcb_stack m p = load32 m (p + 36)"

definition set_pcb_state :: "u32 \<Rightarrow> ProcessState \<Rightarrow> mem \<Rightarrow> mem" where
  "set_pcb_state p v m = store32 (p + 12) (state_code v) m"

definition set_pcb_priority :: "u32 \<Rightarrow> u32 \<Rightarrow> mem \<Rightarrow> mem" where
  "set_pcb_priority p v m = store32 (p + 16) v m"

definition set_pcb_quantum :: "u32 \<Rightarrow> u32 \<Rightarrow> mem \<Rightarrow> mem" where
  "set_pcb_quantum p v m = store32 (p + 20) v m"

definition set_pcb_age :: "u32 \<Rightarrow> u32 \<Rightarrow> mem \<Rightarrow> mem" where
  "set_pcb_age p v m = store32 (p + 24) v m"

lemmas pcb_defs = pcb_pid_def pcb_state_def pcb_priority_def pcb_quantum_def pcb_age_def
  pcb_address_space_def pcb_space_phys_def pcb_stack_def
lemmas set_pcb_defs = set_pcb_state_def set_pcb_priority_def set_pcb_quantum_def set_pcb_age_def

lemma pcb_of_sched_node [simp]: "pcb_of_node (sched_node p) = p"
  by (simp add: pcb_of_node_def sched_node_def)

lemma sched_node_inj [simp]: "sched_node p = sched_node q \<longleftrightarrow> p = q"
  by (simp add: sched_node_def)

section \<open>List headers and control blocks that do not overlap\<close>

definition arena :: "u32 list \<Rightarrow> u32 set \<Rightarrow> bool" where
  "arena H P \<longleftrightarrow> distinct H \<and> (\<forall>h \<in> set H. h \<noteq> 0 \<and> fits h 20) \<and> (\<forall>p \<in> P. p \<noteq> 0 \<and> fits p 40) \<and>
     (\<forall>h \<in> set H. \<forall>k \<in> set H. h \<noteq> k \<longrightarrow> apart h 20 k 20) \<and>
     (\<forall>h \<in> set H. \<forall>p \<in> P. apart h 20 p 40) \<and>
     (\<forall>p \<in> P. \<forall>q \<in> P. p \<noteq> q \<longrightarrow> apart p 40 q 40)"

text \<open>The bytes the list operations may write.\<close>

definition link_bytes :: "u32 list \<Rightarrow> u32 set \<Rightarrow> u32 set" where
  "link_bytes H P = (\<Union>h \<in> set H. bytes h 20) \<union> (\<Union>p \<in> P. bytes (sched_node p) 8)"

lemma arenaD:
  assumes "arena H P"
  shows "h \<in> set H \<Longrightarrow> h \<noteq> 0" "h \<in> set H \<Longrightarrow> fits h 20" "p \<in> P \<Longrightarrow> p \<noteq> 0" "p \<in> P \<Longrightarrow> fits p 40"
    "h \<in> set H \<Longrightarrow> k \<in> set H \<Longrightarrow> h \<noteq> k \<Longrightarrow> apart h 20 k 20"
    "h \<in> set H \<Longrightarrow> p \<in> P \<Longrightarrow> apart h 20 p 40"
    "p \<in> P \<Longrightarrow> q \<in> P \<Longrightarrow> p \<noteq> q \<Longrightarrow> apart p 40 q 40"
  using assms by (auto simp: arena_def)

lemma sched_node_unat: "fits p 40 \<Longrightarrow> unat (sched_node p) = unat p + 4"
  using unat_offset [of p 40 4] by (simp add: sched_node_def)

text \<open>Words of control blocks: reading after a store.\<close>

lemma pcb_word:
  assumes "arena H P" "p \<in> P" "q \<in> P" "j \<le> 36" "k \<le> 36" "j mod 4 = 0" "k mod 4 = 0"
  shows "load32 (store32 (p + U32 j) v m) (q + U32 k) =
    (if p = q \<and> j = k then v else load32 m (q + U32 k))"
proof (cases "p = q \<and> j = k")
  case False
  have f: "fits p 40" "fits q 40" using arenaD(4) [OF assms(1)] assms(2,3) by auto
  have u: "unat (p + U32 j) = unat p + j" "unat (q + U32 k) = unat q + k"
    using f assms(4,5) by (simp_all add: unat_offset)
  have "apart (p + U32 j) 4 (q + U32 k) 4"
  proof (cases "p = q")
    case True
    with False have "j \<noteq> k" by simp
    then have "j + 4 \<le> k \<or> k + 4 \<le> j" using assms(6,7) by presburger
    with True u show ?thesis by (auto simp: apart_def)
  next
    case False
    with arenaD(7) [OF assms(1-3)] u assms(4,5) show ?thesis by (auto simp: apart_def)
  qed
  moreover have "fits (p + U32 j) 4" "fits (q + U32 k) 4"
    using f u assms(4,5) by (auto simp: fits_def)
  ultimately show ?thesis using False by (auto simp: load32_store32_apart)
qed simp

lemma pcb_fields:
  assumes "arena H P" "p \<in> P" "q \<in> P"
  shows "pcb_state (set_pcb_state p s m) q = (if p = q then state_code s else pcb_state m q)"
    "pcb_state (set_pcb_priority p v m) q = pcb_state m q"
    "pcb_state (set_pcb_quantum p v m) q = pcb_state m q"
    "pcb_state (set_pcb_age p v m) q = pcb_state m q"
    "pcb_priority (set_pcb_state p s m) q = pcb_priority m q"
    "pcb_priority (set_pcb_priority p v m) q = (if p = q then v else pcb_priority m q)"
    "pcb_priority (set_pcb_quantum p v m) q = pcb_priority m q"
    "pcb_priority (set_pcb_age p v m) q = pcb_priority m q"
    "pcb_quantum (set_pcb_state p s m) q = pcb_quantum m q"
    "pcb_quantum (set_pcb_priority p v m) q = pcb_quantum m q"
    "pcb_quantum (set_pcb_quantum p v m) q = (if p = q then v else pcb_quantum m q)"
    "pcb_quantum (set_pcb_age p v m) q = pcb_quantum m q"
    "pcb_age (set_pcb_state p s m) q = pcb_age m q"
    "pcb_age (set_pcb_priority p v m) q = pcb_age m q"
    "pcb_age (set_pcb_quantum p v m) q = pcb_age m q"
    "pcb_age (set_pcb_age p v m) q = (if p = q then v else pcb_age m q)"
  using pcb_word [OF assms, of 12 12] pcb_word [OF assms, of 12 16] pcb_word [OF assms, of 12 20]
    pcb_word [OF assms, of 12 24] pcb_word [OF assms, of 16 12] pcb_word [OF assms, of 16 16]
    pcb_word [OF assms, of 16 20] pcb_word [OF assms, of 16 24] pcb_word [OF assms, of 20 12]
    pcb_word [OF assms, of 20 16] pcb_word [OF assms, of 20 20] pcb_word [OF assms, of 20 24]
    pcb_word [OF assms, of 24 12] pcb_word [OF assms, of 24 16] pcb_word [OF assms, of 24 20]
    pcb_word [OF assms, of 24 24]
  by (simp_all add: pcb_defs set_pcb_defs)

section \<open>Families of queues\<close>

text \<open>\<open>queues m H P Ls\<close>: the list at \<open>H ! i\<close> holds the control blocks \<open>Ls ! i\<close>, and
  no control block is in two lists.\<close>

definition queues :: "mem \<Rightarrow> u32 list \<Rightarrow> u32 set \<Rightarrow> u32 list list \<Rightarrow> bool" where
  "queues m H P Ls \<longleftrightarrow> arena H P \<and> length Ls = length H \<and> distinct (concat Ls) \<and>
     set (concat Ls) \<subseteq> P \<and> (\<forall>i < length H. dll m (H ! i) (map sched_node (Ls ! i)))"

lemma queues_dll: "queues m H P Ls \<Longrightarrow> i < length H \<Longrightarrow> dll m (H ! i) (map sched_node (Ls ! i))"
  by (simp add: queues_def)

lemma queues_mem:
  assumes "queues m H P Ls" "i < length H" "p \<in> set (Ls ! i)"
  shows "p \<in> P"
proof -
  have "Ls ! i \<in> set Ls" using assms(1,2) by (simp add: queues_def)
  with assms(3) have "p \<in> set (concat Ls)" by auto
  with assms(1) show ?thesis by (auto simp: queues_def)
qed

lemma concat_update_set:
  "i < length Ls \<Longrightarrow> set (concat (Ls[i := xs])) \<subseteq> set (concat Ls) \<union> set xs"
  using set_update_subset_insert [of Ls i xs] by (auto simp: subset_iff)

lemma concat_update:
  "i < length Ls \<Longrightarrow> concat (Ls[i := xs]) = concat (take i Ls) @ xs @ concat (drop (Suc i) Ls)"
  by (simp add: upd_conv_take_nth_drop)

lemma concat_split:
  "i < length Ls \<Longrightarrow> concat Ls = concat (take i Ls) @ Ls ! i @ concat (drop (Suc i) Ls)"
  using concat_update [of i Ls "Ls ! i"] by simp

lemma distinct_concat_disjoint:
  "distinct (concat Ls) \<Longrightarrow> i < length Ls \<Longrightarrow> j < length Ls \<Longrightarrow> i \<noteq> j \<Longrightarrow> p \<in> set (Ls ! i) \<Longrightarrow>
    p \<notin> set (Ls ! j)"
proof
  assume d: "distinct (concat Ls)" "i < length Ls" "j < length Ls" "i \<noteq> j"
    and p: "p \<in> set (Ls ! i)" "p \<in> set (Ls ! j)"
  have "Ls ! j \<in> set (take i Ls) \<or> Ls ! j \<in> set (drop (Suc i) Ls)"
    using d(2-4) in_set_conv_nth [of "Ls ! j"]
    by (cases "j < i") (force, intro disjI2, simp add: in_set_conv_nth,
        intro exI [of _ "j - Suc i"], simp)
  with p d(1) show False unfolding concat_split [OF d(2)] by auto
qed

lemma node_bytes: "fits p 40 \<Longrightarrow> bytes (sched_node p) 8 \<subseteq> bytes p 40"
  using bytes_offset [of p 40 4 8] by (simp add: sched_node_def)

lemma arena_nodes:
  assumes "arena H P" "S \<subseteq> P"
  shows "nodes_ok (sched_node ` S)"
  unfolding nodes_ok_def
proof (intro ballI conjI impI)
  fix x assume "x \<in> sched_node ` S"
  then obtain p where p: "p \<in> P" "x = sched_node p" using assms(2) by auto
  note fp = arenaD(4) [OF assms(1) p(1)]
  show "x \<noteq> 0" "fits x 8"
    using sched_node_unat [OF fp] fp by (auto simp: p(2) fits_def word_unat_eq_iff)
  fix y assume "y \<in> sched_node ` S" "x \<noteq> y"
  then obtain q where q: "q \<in> P" "y = sched_node q" "p \<noteq> q" using assms(2) p(2) by auto
  from arenaD(7) [OF assms(1) p(1) q(1,3)] show "apart x 8 y 8"
    using sched_node_unat [OF fp] sched_node_unat [OF arenaD(4) [OF assms(1) q(1)]]
    by (auto simp: p(2) q(2) apart_def)
qed

lemma arena_header:
  assumes "arena H P" "S \<subseteq> P" "h \<in> set H"
  shows "header_ok h (sched_node ` S)"
  unfolding header_ok_def
proof (intro ballI conjI)
  show "h \<noteq> 0" "fits h 20" using arenaD [OF assms(1)] assms(3) by auto
  fix x assume "x \<in> sched_node ` S"
  then obtain p where p: "p \<in> P" "x = sched_node p" using assms(2) by auto
  from arenaD(6) [OF assms(1,3) p(1)] show "apart h 20 x 8"
    using sched_node_unat [OF arenaD(4) [OF assms(1) p(1)]] by (auto simp: p(2) apart_def)
qed

lemma arena_all_nodes:
  assumes "arena H P"
  shows "nodes_ok (set H \<union> sched_node ` P)"
proof -
  note ar = arenaD [OF assms]
  have n: "nodes_ok (sched_node ` P)" by (rule arena_nodes [OF assms subset_refl])
  have h: "header_ok h (sched_node ` P)" if "h \<in> set H" for h
    by (rule arena_header [OF assms subset_refl that])
  have hk: "apart h 8 k 8" if "h \<in> set H" "k \<in> set H" "h \<noteq> k" for h k
    using ar(5) [OF that] by (auto simp: apart_def)
  have hx: "apart h 8 x 8 \<and> apart x 8 h 8" if "h \<in> set H" "x \<in> sched_node ` P" for h x
  proof -
    have "apart h 20 x 8" using h [OF that(1)] that(2) unfolding header_ok_def by blast
    then show ?thesis by (auto simp: apart_def)
  qed
  show ?thesis
    unfolding nodes_ok_def
  proof (intro ballI conjI impI)
    fix x assume x: "x \<in> set H \<union> sched_node ` P"
    have "x \<noteq> 0 \<and> fits x 8" if "x \<in> set H" using ar(1,2) [OF that] by (simp add: fits_def)
    moreover have "x \<noteq> 0 \<and> fits x 8" if "x \<in> sched_node ` P" using n that unfolding nodes_ok_def by blast
    ultimately show "x \<noteq> 0" "fits x 8" using x by auto
    fix y assume y: "y \<in> set H \<union> sched_node ` P" "x \<noteq> y"
    show "apart x 8 y 8" using x y hk hx n unfolding nodes_ok_def by (metis UnE)
  qed
qed

lemma arena_head_apart:
  assumes "arena H P" "h \<in> set H"
  shows "header_ok h (set H \<union> sched_node ` P - {h})"
proof -
  have "apart h 20 k 8" if "k \<in> set H" "k \<noteq> h" for k
    using arenaD(5) [OF assms that(1)] that(2) by (auto simp: apart_def)
  then show ?thesis
    using arena_header [OF assms(1) subset_refl assms(2)] by (auto simp: header_ok_def)
qed

lemma list_bytes_link: "h \<in> set H \<Longrightarrow> set L \<subseteq> P \<Longrightarrow> list_bytes h (map sched_node L) \<subseteq> link_bytes H P"
  by (auto simp: list_bytes_def link_bytes_def)

lemma list_bytes_disjoint:
  assumes "arena H P" "h \<in> set H" "k \<in> set H" "h \<noteq> k" "set L \<subseteq> P" "set M \<subseteq> P" "set L \<inter> set M = {}"
  shows "list_bytes h (map sched_node L) \<inter> list_bytes k (map sched_node M) = {}"
proof -
  note ar = arenaD [OF assms(1)]
  have nb: "bytes (sched_node p) 8 \<subseteq> bytes p 40" if "p \<in> P" for p
    by (rule node_bytes [OF ar(4) [OF that]])
  have "bytes h 20 \<inter> bytes k 20 = {}" using apart_bytes [OF ar(5)] assms(2-4) by auto
  moreover have "bytes h 20 \<inter> bytes (sched_node p) 8 = {}" "bytes (sched_node p) 8 \<inter> bytes k 20 = {}"
    if "p \<in> P" for p
    using apart_bytes [OF ar(6) [OF assms(2) that]] apart_bytes [OF ar(6) [OF assms(3) that]] nb [OF that]
    by auto
  moreover have "bytes (sched_node p) 8 \<inter> bytes (sched_node q) 8 = {}"
    if "p \<in> P" "q \<in> P" "p \<noteq> q" for p q
    using apart_bytes [OF ar(7) [OF that]] nb [OF that(1)] nb [OF that(2)] by auto
  then have "bytes (sched_node p) 8 \<inter> bytes (sched_node q) 8 = {}" if "p \<in> set L" "q \<in> set M" for p q
    using that assms(5-7) by blast
  moreover have "set (map sched_node L) = sched_node ` set L" "set (map sched_node M) = sched_node ` set M"
    by simp_all
  ultimately show ?thesis
    using assms(5,6) unfolding list_bytes_def by (simp add: Int_Un_distrib Int_Un_distrib2 UN_simps) blast
qed

text \<open>Replacing the contents of one list, when its operation wrote only bytes of that list
  with the nodes \<open>N\<close> involved.\<close>

lemma queues_update:
  assumes q: "queues m H P Ls" and i: "i < length H" and N: "set N \<subseteq> P"
    and "\<forall>j < length H. j \<noteq> i \<longrightarrow> set N \<inter> set (Ls ! j) = {}"
    and "dll m' (H ! i) (map sched_node L)" "same_off (list_bytes (H ! i) (map sched_node N)) m m'"
    and "distinct (concat (Ls[i := L]))" "set L \<subseteq> P"
  shows "queues m' H P (Ls[i := L]) \<and> same_off (link_bytes H P) m m'"
proof
  have ar: "arena H P" and len: "length Ls = length H" and sub: "set (concat Ls) \<subseteq> P"
    using q by (auto simp: queues_def)
  have "dll m' (H ! j) (map sched_node (Ls[i := L] ! j))" if j: "j < length H" for j
  proof (cases "j = i")
    case True
    then show ?thesis using assms(5) i len by simp
  next
    case False
    have "H ! i \<noteq> H ! j" using ar False i j by (simp add: arena_def nth_eq_iff_index_eq)
    moreover have "set (Ls ! j) \<subseteq> P" using queues_mem [OF q j] by blast
    moreover have "set N \<inter> set (Ls ! j) = {}" using assms(4) False j by blast
    ultimately have "list_bytes (H ! i) (map sched_node N) \<inter> list_bytes (H ! j) (map sched_node (Ls ! j)) = {}"
      using list_bytes_disjoint [OF ar, of "H ! i" "H ! j"] i j N by simp
    with kl.disjoint_lists [OF queues_dll [OF q j] assms(6)] False show ?thesis by simp
  qed
  moreover have "set (concat (Ls[i := L])) \<subseteq> P"
    by (rule order_trans [OF concat_update_set]) (use sub assms(8) i len in simp_all)
  ultimately show "queues m' H P (Ls[i := L])"
    using ar len assms(7) by (simp only: queues_def length_list_update) simp
  show "same_off (link_bytes H P) m m'"
    using assms(6) by (rule same_off_mono) (use list_bytes_link i N in auto)
qed

lemma queues_push_tail:
  assumes q: "queues m H P Ls" and i: "i < length H" and p: "p \<in> P" "p \<notin> set (concat Ls)"
  shows "\<exists>m'. list_push_tail (H ! i) (sched_node p) m = (0, m') \<and>
    queues m' H P (Ls[i := Ls ! i @ [p]]) \<and> same_off (link_bytes H P) m m'"
proof -
  have ar: "arena H P" and len: "length Ls = length H" and d: "distinct (concat Ls)"
    using q by (auto simp: queues_def)
  let ?N = "p # Ls ! i"
  have sub: "set ?N \<subseteq> P" using p queues_mem [OF q i] by auto
  have fresh: "p \<notin> set (Ls ! j)" if "j < length H" for j
    using p(2) nth_mem [of j Ls] that len by auto
  have "addable (H ! i) (map sched_node (Ls ! i)) (sched_node p)"
    using arena_nodes [OF ar sub] arena_header [OF ar sub] i fresh [OF i] unfolding addable_def by auto
  from kl.push_tail_law [OF queues_dll [OF q i] this] obtain m' where
    m': "list_push_tail (H ! i) (sched_node p) m = (0, m')"
    "dll m' (H ! i) (map sched_node (Ls ! i @ [p]))"
    "same_off (list_bytes (H ! i) (map sched_node ?N)) m m'" by auto
  have "set ?N \<inter> set (Ls ! j) = {}" if "j < length H" "j \<noteq> i" for j
    using distinct_concat_disjoint [OF d, of i j] fresh [OF that(1)] that i len by auto
  moreover have "distinct (concat (Ls[i := Ls ! i @ [p]]))"
    using d p(2) i len unfolding concat_update [of i Ls, unfolded len, OF i] concat_split [of i Ls, unfolded len, OF i]
    by auto
  ultimately show ?thesis
    using queues_update [OF q i sub _ m'(2,3)] m'(1) sub by auto
qed

lemma queues_remove:
  assumes q: "queues m H P Ls" and i: "i < length H" and L: "Ls ! i = us @ p # vs"
  shows "\<exists>m'. list_remove_node (H ! i) (sched_node p) m = (0, m') \<and>
    queues m' H P (Ls[i := us @ vs]) \<and> same_off (link_bytes H P) m m' \<and>
    p \<in> P \<and> p \<notin> set (concat (Ls[i := us @ vs]))"
proof -
  have len: "length Ls = length H" and d: "distinct (concat Ls)"
    using q by (auto simp: queues_def)
  have sub: "set (Ls ! i) \<subseteq> P" using queues_mem [OF q i] by auto
  have "dll m (H ! i) (map sched_node us @ sched_node p # map sched_node vs)"
    using queues_dll [OF q i] by (simp add: L)
  from kl.remove_law [OF this] obtain m' where
    m': "list_remove_node (H ! i) (sched_node p) m = (0, m')" "dll m' (H ! i) (map sched_node (us @ vs))"
    "same_off (list_bytes (H ! i) (map sched_node (Ls ! i))) m m'" by (auto simp: L)
  note cu = concat_update [of i Ls, unfolded len, OF i] and cs = concat_split [of i Ls, unfolded len, OF i]
  have "set (Ls ! i) \<inter> set (Ls ! j) = {}" if "j < length H" "j \<noteq> i" for j
    using distinct_concat_disjoint [OF d, of i j] that i len by auto
  moreover have "distinct (concat (Ls[i := us @ vs]))" "p \<notin> set (concat (Ls[i := us @ vs]))"
    using d unfolding cu cs L by auto
  ultimately show ?thesis
    using queues_update [OF q i sub _ m'(2,3)] m'(1) sub L by auto
qed

text \<open>Writes outside the links keep all queues; writes to the links keep all other words.\<close>

lemma queues_same:
  assumes "queues m H P Ls" "same_on (link_bytes H P) m m'"
  shows "queues m' H P Ls"
proof -
  have "dll m' (H ! i) (map sched_node (Ls ! i))" if "i < length H" for i
  proof (rule dll_same [OF queues_dll [OF assms(1) that]])
    have "list_bytes (H ! i) (map sched_node (Ls ! i)) \<subseteq> link_bytes H P"
      using list_bytes_link [of "H ! i" H "Ls ! i" P] queues_mem [OF assms(1) that] that by auto
    then show "same_on (list_bytes (H ! i) (map sched_node (Ls ! i))) m m'"
      by (rule same_on_mono [OF assms(2)])
  qed
  with assms(1) show ?thesis by (simp add: queues_def)
qed

lemma pcb_word_link_disjoint:
  assumes "arena H P" "p \<in> P" "k + 4 \<le> 40" "12 \<le> k \<or> k = 0"
  shows "bytes (p + U32 k) 4 \<inter> link_bytes H P = {}"
proof -
  note ar = arenaD [OF assms(1)]
  have fp: "fits p 40" by (rule ar(4) [OF assms(2)])
  have u: "unat (p + U32 k) = unat p + k" using unat_offset [OF fp] assms(3) by simp
  have sub: "bytes (p + U32 k) 4 \<subseteq> bytes p 40" using bytes_offset [OF fp] assms(3) by simp
  have "bytes (p + U32 k) 4 \<inter> bytes h 20 = {}" if "h \<in> set H" for h
    using apart_bytes [OF ar(6) [OF that assms(2)]] sub by auto
  moreover have "bytes (p + U32 k) 4 \<inter> bytes (sched_node q) 8 = {}" if "q \<in> P" for q
  proof (cases "p = q")
    case True
    then show ?thesis
      using u sched_node_unat [OF fp] assms(4) by (intro apart_bytes) (auto simp: apart_def)
  next
    case False
    with apart_bytes [OF ar(7) [OF assms(2) that]] sub node_bytes [OF ar(4) [OF that]]
    show ?thesis by auto
  qed
  ultimately show ?thesis unfolding link_bytes_def by blast
qed

lemma pcb_word_link:
  assumes "arena H P" "p \<in> P" "same_off (link_bytes H P) m m'" "k \<in> {0, 12, 16, 20, 24, 28, 32, 36}"
  shows "load32 m' (p + U32 k) = load32 m (p + U32 k)"
proof (rule load32_same_on)
  have fp: "fits p 40" by (rule arenaD(4) [OF assms(1,2)])
  show "same_on (bytes (p + U32 k) 4) m m'"
    using pcb_word_link_disjoint [OF assms(1,2), of k] assms(4) by (intro same_off_on [OF assms(3)]) auto
  show "fits (p + U32 k) 4" using unat_offset [OF fp, of k] fp assms(4) by (auto simp: fits_def)
qed simp

lemma pcb_link_frame:
  assumes "arena H P" "p \<in> P" "same_off (link_bytes H P) m m'"
  shows "pcb_state m' p = pcb_state m p" "pcb_priority m' p = pcb_priority m p"
    "pcb_quantum m' p = pcb_quantum m p" "pcb_age m' p = pcb_age m p"
  using pcb_word_link [OF assms, of 12] pcb_word_link [OF assms, of 16] pcb_word_link [OF assms, of 20]
    pcb_word_link [OF assms, of 24] by (simp_all add: pcb_defs)

text \<open>All bytes the scheduler writes: links, list headers and the four scheduling words.\<close>

definition sched_bytes :: "u32 list \<Rightarrow> u32 set \<Rightarrow> u32 set" where
  "sched_bytes H P = link_bytes H P \<union> (\<Union>p \<in> P. bytes (p + 12) 16)"

lemma set_pcb_keeps:
  assumes "queues m H P Ls" "p \<in> P"
  shows "queues (set_pcb_state p s m) H P Ls" "queues (set_pcb_priority p v m) H P Ls"
    "queues (set_pcb_quantum p v m) H P Ls" "queues (set_pcb_age p v m) H P Ls"
    "same_off (sched_bytes H P) m (set_pcb_state p s m)"
    "same_off (sched_bytes H P) m (set_pcb_priority p v m)"
    "same_off (sched_bytes H P) m (set_pcb_quantum p v m)"
    "same_off (sched_bytes H P) m (set_pcb_age p v m)"
proof -
  have ar: "arena H P" using assms(1) by (simp add: queues_def)
  have fp: "fits p 40" by (rule arenaD(4) [OF ar assms(2)])
  have off: "same_off (bytes (p + U32 k) 4) m (store32 (p + U32 k) w m)" if "k + 4 \<le> 40" for k w
    using unat_offset [OF fp, of k] that fp by (intro same_off_store32) (auto simp: fits_def)
  have q: "queues (store32 (p + U32 k) w m) H P Ls" if "k + 4 \<le> 40" "12 \<le> k" for k w
    using pcb_word_link_disjoint [OF ar assms(2) that(1)] that(2)
    by (intro queues_same [OF assms(1)] same_off_on [OF off]) (auto simp: that)
  show "queues (set_pcb_state p s m) H P Ls" "queues (set_pcb_priority p v m) H P Ls"
    "queues (set_pcb_quantum p v m) H P Ls" "queues (set_pcb_age p v m) H P Ls"
    using q [of 12] q [of 16] q [of 20] q [of 24] by (simp_all add: set_pcb_defs)
  have w: "same_off (sched_bytes H P) m (store32 (p + U32 k) w m)" if "12 \<le> k" "k + 4 \<le> 28" for k w
  proof (rule same_off_mono [OF off])
    have "unat (p + U32 k) = unat p + k" "unat (p + 12) = unat p + 12"
      using unat_offset [OF fp, of k] unat_offset [OF fp, of 12] that by simp_all
    then have "bytes (p + U32 k) 4 \<subseteq> bytes (p + 12) 16"
      using that by (auto simp: bytes_def in_range_def)
    then show "bytes (p + U32 k) 4 \<subseteq> sched_bytes H P"
      using assms(2) by (auto simp: sched_bytes_def)
  qed (use that in simp)
  show "same_off (sched_bytes H P) m (set_pcb_state p s m)"
    "same_off (sched_bytes H P) m (set_pcb_priority p v m)"
    "same_off (sched_bytes H P) m (set_pcb_quantum p v m)"
    "same_off (sched_bytes H P) m (set_pcb_age p v m)"
    using w [of 12] w [of 16] w [of 20] w [of 24] by (simp_all add: set_pcb_defs)
qed

lemma link_off_sched: "same_off (link_bytes H P) m m' \<Longrightarrow> same_off (sched_bytes H P) m m'"
  by (rule same_off_mono) (auto simp: sched_bytes_def)

text \<open>The words a context switch needs are never written by the scheduler.\<close>

lemma sched_off_context:
  assumes "arena H P" "p \<in> P" "same_off (sched_bytes H P) m m'"
  shows "pcb_stack m' p = pcb_stack m p" "pcb_space_phys m' p = pcb_space_phys m p"
proof -
  have fp: "fits p 40" by (rule arenaD(4) [OF assms(1,2)])
  have rd: "load32 m' (p + U32 k) = load32 m (p + U32 k)" if k: "k + 4 \<le> 40" "28 \<le> k" for k
  proof (rule load32_same_on)
    have u: "unat (p + U32 k) = unat p + k" using unat_offset [OF fp, of k] k by simp
    have "bytes (q + 12) 16 \<inter> bytes (p + U32 k) 4 = {}" if "q \<in> P" for q
    proof -
      have "unat (q + 12) = unat q + 12"
        using unat_offset [OF arenaD(4) [OF assms(1) that], of 12] by simp
      then show ?thesis
        using arenaD(7) [OF assms(1) assms(2) that] u k
        by (intro apart_bytes) (cases "p = q"; auto simp: apart_def)
    qed
    then have "sched_bytes H P \<inter> bytes (p + U32 k) 4 = {}"
      using pcb_word_link_disjoint [OF assms(1,2) k(1)] k(2) unfolding sched_bytes_def by auto
    then show "same_on (bytes (p + U32 k) 4) m m'" by (rule same_off_on [OF assms(3)])
    show "fits (p + U32 k) 4" using u fp k by (simp add: fits_def)
  qed simp
  show "pcb_stack m' p = pcb_stack m p" "pcb_space_phys m' p = pcb_space_phys m p"
    using rd [of 36] rd [of 32] by (simp_all add: pcb_defs)
qed

section \<open>Every arrangement of queues exists\<close>

text \<open>Lists whose roots point at themselves are empty queues.\<close>

lemma empty_queues_upto:
  assumes "arena H P" "n \<le> length H"
  shows "\<forall>i < n. dll (fold root_self (take n H) m) (H ! i) []"
  using assms(2)
proof (induction n)
  case (Suc n)
  let ?m = "fold root_self (take n H) m"
  have n: "H ! n \<in> set H" using Suc.prems by simp
  note r = root_self_dll [of "H ! n" ?m, OF arenaD(1,2) [OF assms(1) n]]
  have "fold root_self (take (Suc n) H) m = root_self (H ! n) ?m"
    using Suc.prems by (simp add: take_Suc_conv_app_nth)
  moreover have "dll (root_self (H ! n) ?m) (H ! i) []" if i: "i < n" for i
  proof (rule dll_same)
    show "dll ?m (H ! i) []" using Suc i by simp
    have "H ! n \<noteq> H ! i" using assms(1) i Suc.prems by (simp add: arena_def nth_eq_iff_index_eq)
    then have "bytes (H ! n) 20 \<inter> bytes (H ! i) 20 = {}"
      using arenaD(5) [OF assms(1) n, of "H ! i"] i Suc.prems by (intro apart_bytes) simp
    then show "same_on (list_bytes (H ! i) []) ?m (root_self (H ! n) ?m)"
      using same_off_on [OF r(4)] by (simp add: list_bytes_def)
  qed
  ultimately show ?case using r(1) by (auto simp: less_Suc_eq)
qed simp

lemma empty_queues:
  "arena H P \<Longrightarrow> queues (fold root_self H m) H P (replicate (length H) [])"
  using empty_queues_upto [of H P "length H" m] by (simp add: queues_def)

lemma exists_queues:
  assumes "arena H P"
  shows "length Ls = length H \<Longrightarrow> distinct (concat Ls) \<Longrightarrow> set (concat Ls) \<subseteq> P \<Longrightarrow> \<exists>m. queues m H P Ls"
proof (induction "length (concat Ls)" arbitrary: Ls)
  case 0
  have "concat Ls = []" using 0(1) by simp
  then have "\<forall>l \<in> set Ls. l = []" by simp
  then have "Ls = replicate (length Ls) []" by (induction Ls) auto
  then have "Ls = replicate (length H) []" using 0(2) by simp
  with empty_queues [OF assms] show ?case by blast
next
  case (Suc n)
  have "length (concat Ls) \<noteq> 0" using Suc.hyps(2) by linarith
  then have "concat Ls \<noteq> []" by (metis list.size(3))
  then obtain L where L: "L \<in> set Ls" "L \<noteq> []" by auto
  then obtain i where "i < length Ls" "Ls ! i = L" by (auto simp: in_set_conv_nth)
  moreover obtain xs x where "L = xs @ [x]" using L(2) by (cases L rule: rev_cases) auto
  ultimately have i: "i < length Ls" "Ls ! i = xs @ [x]" by simp_all
  let ?Ls = "Ls[i := xs]"
  note cu = concat_update [OF i(1), of xs] and cs = concat_split [OF i(1), unfolded i(2)]
  have "length (concat ?Ls) = n" using Suc.hyps(2) unfolding cu cs by simp
  moreover have d: "distinct (concat ?Ls)" "x \<notin> set (concat ?Ls)" "set (concat ?Ls) \<subseteq> P" "x \<in> P"
    using Suc.prems(2,3) unfolding cu cs by auto
  ultimately obtain m where "queues m H P ?Ls" using Suc.hyps(1) [of ?Ls] Suc.prems(1) by auto
  from queues_push_tail [OF this, of i x] d i Suc.prems(1)
  obtain m' where "queues m' H P (?Ls[i := ?Ls ! i @ [x]])" by auto
  moreover have "?Ls[i := ?Ls ! i @ [x]] = Ls"
    using i(1) list_update_id [of Ls i] by (simp add: i(2))
  ultimately show ?case by auto
qed

end
