(* ===== verification/Io.thy ===== *)
theory Io
  imports Prelude
begin

text \<open>
  \<^verbatim>\<open>src/include/asm.h\<close> and \<^verbatim>\<open>src/kernel/arch/i386/io.c\<close>: port
  input and output and the VGA text memory.  The state of the hardware is what the program
  did to it: the sequence of port accesses so far and the cells of the text memory at
  \<open>0xB8000\<close>.  What a device answers to an \<open>inb\<close> is not in the repository; it is the
  parameter \<open>dev\<close>, a function of the accesses so far and the port.
\<close>

datatype port_event = Out u16 u8 | In u16 u8

record hardware =
  ports :: "port_event list"
  framebuffer :: "nat \<Rightarrow> u16"

type_synonym device = "port_event list \<Rightarrow> u16 \<Rightarrow> u8"

definition outb :: "u16 \<Rightarrow> u8 \<Rightarrow> hardware \<Rightarrow> hardware" where
  "outb port v hw = hw\<lparr>ports := ports hw @ [Out port v]\<rparr>"

definition inb :: "device \<Rightarrow> u16 \<Rightarrow> hardware \<Rightarrow> u8 \<times> hardware" where
  "inb dev port hw =
     (let v = dev (ports hw) port in (v, hw\<lparr>ports := ports hw @ [In port v]\<rparr>))"

section \<open>Constants\<close>

definition CRTC_CMD_PORT :: u16 where "CRTC_CMD_PORT = 0x3D4"
definition CRTC_DATA_PORT :: u16 where "CRTC_DATA_PORT = 0x3D5"
definition CURSOR_STYLE_START_CMD :: u8 where "CURSOR_STYLE_START_CMD = 0x0A"
definition CURSOR_STYLE_END_CMD :: u8 where "CURSOR_STYLE_END_CMD = 0x0B"
definition SCREEN_START_POS_HIGH_BYTE_CMD :: u8 where "SCREEN_START_POS_HIGH_BYTE_CMD = 0x0C"
definition SCREEN_START_POS_LOW_BYTE_CMD :: u8 where "SCREEN_START_POS_LOW_BYTE_CMD = 0x0D"
definition CURSOR_POS_HIGH_BYTE_CMD :: u8 where "CURSOR_POS_HIGH_BYTE_CMD = 0x0E"
definition CURSOR_POS_LOW_BYTE_CMD :: u8 where "CURSOR_POS_LOW_BYTE_CMD = 0x0F"
definition SCREEN_COLS :: u16 where "SCREEN_COLS = 80"
definition SCREEN_ROWS :: u16 where "SCREEN_ROWS = 25"

definition VGA_COLOR_BLACK :: u8 where "VGA_COLOR_BLACK = 0x0"
definition VGA_COLOR_BLUE :: u8 where "VGA_COLOR_BLUE = 0x1"
definition VGA_COLOR_GREEN :: u8 where "VGA_COLOR_GREEN = 0x2"
definition VGA_COLOR_CYAN :: u8 where "VGA_COLOR_CYAN = 0x3"
definition VGA_COLOR_RED :: u8 where "VGA_COLOR_RED = 0x4"
definition VGA_COLOR_MAGENTA :: u8 where "VGA_COLOR_MAGENTA = 0x5"
definition VGA_COLOR_BROWN :: u8 where "VGA_COLOR_BROWN = 0x6"
definition VGA_COLOR_LIGHTGREY :: u8 where "VGA_COLOR_LIGHTGREY = 0x7"
definition VGA_COLOR_DARKGREY :: u8 where "VGA_COLOR_DARKGREY = 0x8"
definition VGA_COLOR_LIGHTBLUE :: u8 where "VGA_COLOR_LIGHTBLUE = 0x9"
definition VGA_COLOR_LIGHTGREEN :: u8 where "VGA_COLOR_LIGHTGREEN = 0xA"
definition VGA_COLOR_LIGHTCYAN :: u8 where "VGA_COLOR_LIGHTCYAN = 0xB"
definition VGA_COLOR_LIGHTRED :: u8 where "VGA_COLOR_LIGHTRED = 0xC"
definition VGA_COLOR_LIGHTMAGENTA :: u8 where "VGA_COLOR_LIGHTMAGENTA = 0xD"
definition VGA_COLOR_LIGHTBROWN :: u8 where "VGA_COLOR_LIGHTBROWN = 0xE"
definition VGA_COLOR_WHITE :: u8 where "VGA_COLOR_WHITE = 0xF"

lemmas vga_color_defs =
  VGA_COLOR_BLACK_def VGA_COLOR_BLUE_def VGA_COLOR_GREEN_def VGA_COLOR_CYAN_def
  VGA_COLOR_RED_def VGA_COLOR_MAGENTA_def VGA_COLOR_BROWN_def VGA_COLOR_LIGHTGREY_def
  VGA_COLOR_DARKGREY_def VGA_COLOR_LIGHTBLUE_def VGA_COLOR_LIGHTGREEN_def VGA_COLOR_LIGHTCYAN_def
  VGA_COLOR_LIGHTRED_def VGA_COLOR_LIGHTMAGENTA_def VGA_COLOR_LIGHTBROWN_def VGA_COLOR_WHITE_def

section \<open>Operations\<close>

text \<open>One cell of text memory: character, foreground and background colour.\<close>

definition vga_cell :: "u8 \<Rightarrow> u8 \<Rightarrow> u8 \<Rightarrow> u16" where
  "vga_cell character fg_color bg_color =
     (let character_framebuffer = 0x00FF AND ucast character;
          bg_color_framebuffer = push_bit 12 (0x000F AND ucast bg_color);
          fg_color_framebuffer = push_bit 8 (0x000F AND ucast fg_color)
      in character_framebuffer OR fg_color_framebuffer OR bg_color_framebuffer)"

definition write_char_to_framebuffer :: "u8 \<Rightarrow> u16 \<Rightarrow> u16 \<Rightarrow> u8 \<Rightarrow> u8 \<Rightarrow> hardware \<Rightarrow> hardware" where
  "write_char_to_framebuffer character row col fg_color bg_color hw =
     hw\<lparr>framebuffer := (framebuffer hw)
       (unat col + unat row * unat SCREEN_COLS := vga_cell character fg_color bg_color)\<rparr>"

definition update_hardware_cursor_position :: "u16 \<Rightarrow> hardware \<Rightarrow> hardware" where
  "update_hardware_cursor_position pos hw =
     (let hw = outb CRTC_CMD_PORT CURSOR_POS_HIGH_BYTE_CMD hw;
          hw = outb CRTC_DATA_PORT (ucast (drop_bit 8 pos AND 0x00FF)) hw;
          hw = outb CRTC_CMD_PORT CURSOR_POS_LOW_BYTE_CMD hw
      in outb CRTC_DATA_PORT (ucast (pos AND 0x00FF)) hw)"

definition set_hardware_screen_start :: "u16 \<Rightarrow> hardware \<Rightarrow> hardware" where
  "set_hardware_screen_start row hw =
     (let pos = SCREEN_COLS * row;
          hw = outb CRTC_CMD_PORT SCREEN_START_POS_HIGH_BYTE_CMD hw;
          hw = outb CRTC_DATA_PORT (ucast (drop_bit 8 pos AND 0x00FF)) hw;
          hw = outb CRTC_CMD_PORT SCREEN_START_POS_LOW_BYTE_CMD hw
      in outb CRTC_DATA_PORT (ucast (pos AND 0x00FF)) hw)"

section \<open>Laws\<close>

lemma outb_simps [simp]:
  "ports (outb port v hw) = ports hw @ [Out port v]" "framebuffer (outb port v hw) = framebuffer hw"
  by (simp_all add: outb_def)

lemma inb_simps [simp]:
  "fst (inb dev port hw) = dev (ports hw) port"
  "ports (snd (inb dev port hw)) = ports hw @ [In port (dev (ports hw) port)]"
  "framebuffer (snd (inb dev port hw)) = framebuffer hw"
  by (simp_all add: inb_def Let_def)

lemma hardware_eqI: "ports a = ports b \<Longrightarrow> framebuffer a = framebuffer b \<Longrightarrow> a = (b :: hardware)"
  by simp

end
