(* ===== verification/Pic.thy ===== *)
theory Pic
  imports Io
begin

text \<open>
  \<^verbatim>\<open>src/kernel/arch/i386/interrupts/pic.c\<close>: the two 8259 interrupt controllers.
  The shifts of \<open>pic_set_irq_mask\<close> are of an \<open>int\<close>, so a line whose adjusted number is
  32 or more has no defined behaviour.
\<close>

definition PIC1_COMMAND :: u16 where "PIC1_COMMAND = 0x20"
definition PIC1_DATA :: u16 where "PIC1_DATA = 0x21"
definition PIC2_COMMAND :: u16 where "PIC2_COMMAND = 0xA0"
definition PIC2_DATA :: u16 where "PIC2_DATA = 0xA1"
definition ICW1_INIT :: u8 where "ICW1_INIT = 0x11"
definition ICW4_8086 :: u8 where "ICW4_8086 = 0x01"
definition PIC_EOI :: u8 where "PIC_EOI = 0x20"

lemmas pic_consts = PIC1_COMMAND_def PIC1_DATA_def PIC2_COMMAND_def PIC2_DATA_def ICW1_INIT_def
  ICW4_8086_def PIC_EOI_def

section \<open>Operations\<close>

definition io_wait :: "hardware \<Rightarrow> hardware" where
  "io_wait hw = outb 0x80 0 hw"

definition pic_remap :: "device \<Rightarrow> hardware \<Rightarrow> hardware" where
  "pic_remap dev hw =
     (let (mask1, hw) = inb dev PIC1_DATA hw;
          (mask2, hw) = inb dev PIC2_DATA hw;
          hw = io_wait (outb PIC1_COMMAND ICW1_INIT hw);
          hw = io_wait (outb PIC2_COMMAND ICW1_INIT hw);
          hw = io_wait (outb PIC1_DATA 0x20 hw);
          hw = io_wait (outb PIC2_DATA 0x28 hw);
          hw = io_wait (outb PIC1_DATA 0x04 hw);
          hw = io_wait (outb PIC2_DATA 0x02 hw);
          hw = io_wait (outb PIC1_DATA ICW4_8086 hw);
          hw = io_wait (outb PIC2_DATA ICW4_8086 hw);
          hw = outb PIC1_DATA mask1 hw
      in outb PIC2_DATA mask2 hw)"

definition pic_send_eoi :: "u8 \<Rightarrow> hardware \<Rightarrow> hardware" where
  "pic_send_eoi irq_line hw =
     (let hw = (if 8 \<le> irq_line then outb PIC2_COMMAND PIC_EOI hw else hw)
      in outb PIC1_COMMAND PIC_EOI hw)"

definition pic_set_irq_mask :: "device \<Rightarrow> u8 \<Rightarrow> bool \<Rightarrow> hardware \<Rightarrow> hardware result" where
  "pic_set_irq_mask dev irq_line masked hw =
     (let (port, irq_line) =
        (if irq_line < 8 then (PIC1_DATA, irq_line) else (PIC2_DATA, irq_line - 8))
      in
      if 32 \<le> irq_line then Inl UndefinedShift
      else
        let (value, hw) = inb dev port hw;
            bit_value = (ucast (push_bit (unat irq_line) (1 :: u32)) :: u8);
            value = (if masked then value OR bit_value else value AND NOT bit_value)
        in Inr (outb port value hw))"

end
