(* ===== verification/Sched.thy ===== *)
theory Sched
  imports Pcb Pic
begin

text \<open>
  \<^verbatim>\<open>src/kernel/proc/sched.c\<close>: a multi-level feedback queue with four levels, quanta of
  40, 80, 120 and 160 ticks, demotion on expiry and promotion after 600 ticks of waiting.
  The static \<open>scheduler\<close> is a record, the queues and control blocks are in memory.  Indexing
  an array of four by a priority of four or more is \<open>OutOfBounds\<close>; dereferencing a null
  queue or control block is a page fault.  The assembly routines \<open>context_switch\<close> and
  \<open>bootstrap_first_process\<close> end the model of a timer interrupt: it returns which of
  them is called and with which arguments.
\<close>

section \<open>State\<close>

definition MLFQ_LEVELS :: nat where "MLFQ_LEVELS = 4"
definition AGE_TICK_MAX :: u32 where "AGE_TICK_MAX = 600"
definition MLFQ_QUANTUMS :: "u32 list" where "MLFQ_QUANTUMS = [40, 80, 120, 160]"

record Scheduler =
  priority_queues :: "u32 list"
  waiting_queue :: u32
  current_pcb :: u32
  idle_pcb :: u32

definition at_level :: "'a list \<Rightarrow> u32 \<Rightarrow> 'a result" where
  "at_level xs i = (if unat i < length xs then Inr (xs ! unat i) else Inl OutOfBounds)"

section \<open>Operations\<close>

definition sched_enqueue :: "u32 \<Rightarrow> Scheduler \<Rightarrow> mem \<Rightarrow> mem result" where
  "sched_enqueue pcb s m =
     (if pcb = 0 then Inr m
      else if pcb_state m pcb = state_code STATE_READY then
        (case at_level (priority_queues s) (pcb_priority m pcb) of
           Inl f \<Rightarrow> Inl f
         | Inr q \<Rightarrow> Inr (snd (list_push_tail q (sched_node pcb) m)))
      else if pcb_state m pcb = state_code STATE_WAITING then
        Inr (snd (list_push_tail (waiting_queue s) (sched_node pcb) m))
      else Inr m)"

fun pick_loop :: "u32 \<Rightarrow> u32 list \<Rightarrow> mem \<Rightarrow> (u32 \<times> mem) result" where
  "pick_loop literal [] m = Inr (0, m)"
| "pick_loop literal (q # qs) m =
     (if 0 < list_get_size q m then
        (case list_pop_head literal q m of
           Inl f \<Rightarrow> Inl f
         | Inr (node, m) \<Rightarrow> Inr (pcb_of_node node, m))
      else pick_loop literal qs m)"

definition sched_pick_next_process :: "u32 \<Rightarrow> Scheduler \<Rightarrow> mem \<Rightarrow> (Scheduler \<times> mem) result" where
  "sched_pick_next_process literal s m =
     (case pick_loop literal (priority_queues s) m of
        Inl f \<Rightarrow> Inl f
      | Inr (next_pcb, m) \<Rightarrow>
          (let next_pcb = (if next_pcb = 0 then idle_pcb s else next_pcb);
               s = s\<lparr>current_pcb := next_pcb\<rparr>
           in if next_pcb = 0 then Inl (PageFault 12)
              else Inr (s, set_pcb_state next_pcb STATE_RUNNING m)))"

text \<open>The promotion of one process that has waited long enough.\<close>

definition sched_promote :: "Scheduler \<Rightarrow> u32 \<Rightarrow> u32 \<Rightarrow> mem \<Rightarrow> mem result" where
  "sched_promote s q current_node m =
     (let waiting_pcb = pcb_of_node current_node;
          m = set_pcb_age waiting_pcb 0 m;
          m = snd (list_remove_node q current_node m);
          m = set_pcb_priority waiting_pcb (pcb_priority m waiting_pcb - 1) m
      in case at_level MLFQ_QUANTUMS (pcb_priority m waiting_pcb) of
           Inl f \<Rightarrow> Inl f
         | Inr quantum \<Rightarrow>
             (let m = set_pcb_quantum waiting_pcb quantum m in
              case at_level (priority_queues s) (pcb_priority m waiting_pcb) of
                Inl f \<Rightarrow> Inl f
              | Inr q' \<Rightarrow> Inr (snd (list_push_tail q' (sched_node waiting_pcb) m))))"

partial_function (option) age_loop :: "Scheduler \<Rightarrow> u32 \<Rightarrow> u32 \<Rightarrow> mem \<Rightarrow> mem result option" where
  "age_loop s q current_node m =
     (if current_node \<noteq> q then
        (let next_node = node_next m current_node;
             waiting_pcb = pcb_of_node current_node;
             m = set_pcb_age waiting_pcb (pcb_age m waiting_pcb + 1) m
         in if AGE_TICK_MAX \<le> pcb_age m waiting_pcb then
              (case sched_promote s q current_node m of
                 Inl f \<Rightarrow> Some (Inl f)
               | Inr m \<Rightarrow> age_loop s q next_node m)
            else age_loop s q next_node m)
      else Some (Inr m))"

fun age_levels :: "Scheduler \<Rightarrow> u32 list \<Rightarrow> mem \<Rightarrow> mem result option" where
  "age_levels s [] m = Some (Inr m)"
| "age_levels s (q # qs) m =
     (if q = 0 then Some (Inl (PageFault 0))
      else case age_loop s q (node_next m q) m of
             None \<Rightarrow> None
           | Some (Inl f) \<Rightarrow> Some (Inl f)
           | Some (Inr m) \<Rightarrow> age_levels s qs m)"

definition sched_tick :: "Scheduler \<Rightarrow> mem \<Rightarrow> (Scheduler \<times> mem) result option" where
  "sched_tick s m =
     (if current_pcb s = 0 then Some (Inr (s, m))
      else
        let cur = current_pcb s in
        if cur = idle_pcb s then Some (Inr (s, m))
        else
          let m = set_pcb_quantum cur (pcb_quantum m cur - 1) m in
          if pcb_quantum m cur = 0 then
            (let m = set_pcb_state cur STATE_READY m;
                 m = (if pcb_priority m cur < 3
                      then set_pcb_priority cur (pcb_priority m cur + 1) m else m)
             in case at_level MLFQ_QUANTUMS (pcb_priority m cur) of
                  Inl f \<Rightarrow> Some (Inl f)
                | Inr quantum \<Rightarrow>
                    (let m = set_pcb_quantum cur quantum m in
                     case sched_enqueue cur s m of
                       Inl f \<Rightarrow> Some (Inl f)
                     | Inr m \<Rightarrow> Some (Inr (s\<lparr>current_pcb := 0\<rparr>, m))))
          else
            (case age_levels s (drop 1 (priority_queues s)) m of
               None \<Rightarrow> None
             | Some (Inl f) \<Rightarrow> Some (Inl f)
             | Some (Inr m) \<Rightarrow> Some (Inr (s, m))))"

definition sched_block_process :: "Scheduler \<Rightarrow> mem \<Rightarrow> mem result" where
  "sched_block_process s m =
     (let cur = current_pcb s in
      if cur = 0 \<or> cur = idle_pcb s then Inr m
      else sched_enqueue cur s (set_pcb_state cur STATE_WAITING m))"

definition sched_unblock_process :: "u32 \<Rightarrow> Scheduler \<Rightarrow> mem \<Rightarrow> mem result" where
  "sched_unblock_process pcb s m =
     (if pcb = 0 \<or> pcb_state m pcb \<noteq> state_code STATE_WAITING then Inr m
      else
        let m = snd (list_remove_node (waiting_queue s) (sched_node pcb) m);
            m = set_pcb_state pcb STATE_READY m;
            m = set_pcb_age pcb 0 m
        in case at_level MLFQ_QUANTUMS (pcb_priority m pcb) of
             Inl f \<Rightarrow> Inl f
           | Inr quantum \<Rightarrow> sched_enqueue pcb s (set_pcb_quantum pcb quantum m))"

text \<open>What the timer interrupt does last: return to the interrupted process, or call one of
  the two assembly routines (the stack slot of the old process, then stack pointer and page
  directory of the new one).\<close>

datatype switch = Resume | Bootstrap u32 u32 | Switch u32 u32 u32

definition sched_timer_handler ::
  "u32 \<Rightarrow> Scheduler \<Rightarrow> mem \<Rightarrow> hardware \<Rightarrow> (switch \<times> Scheduler \<times> mem \<times> hardware) result option" where
  "sched_timer_handler literal s m hw =
     (let old_pcb = current_pcb s in
      case sched_tick s m of
        None \<Rightarrow> None
      | Some (Inl f) \<Rightarrow> Some (Inl f)
      | Some (Inr (s, m)) \<Rightarrow>
          (let hw = pic_send_eoi 0 hw in
           if current_pcb s = 0 \<or> old_pcb = 0 then
             (case sched_pick_next_process literal s m of
                Inl f \<Rightarrow> Some (Inl f)
              | Inr (s, m) \<Rightarrow>
                  (let next_pcb = current_pcb s in
                   if old_pcb = 0
                   then Some (Inr (Bootstrap (pcb_stack m next_pcb) (pcb_space_phys m next_pcb), s, m, hw))
                   else Some (Inr (Switch (old_pcb + 36) (pcb_stack m next_pcb)
                          (pcb_space_phys m next_pcb), s, m, hw))))
           else Some (Inr (Resume, s, m, hw))))"

section \<open>Promotion\<close>

definition heads :: "Scheduler \<Rightarrow> u32 list" where
  "heads s = priority_queues s @ [waiting_queue s]"

lemma at_level_nat: "i < length xs \<Longrightarrow> i < 4294967296 \<Longrightarrow> at_level xs (U32 i) = Inr (xs ! i)"
  by (simp add: at_level_def unat_of_nat_u32)

lemma heads_level: "i < length (priority_queues s) \<Longrightarrow> heads s ! i = priority_queues s ! i"
  by (simp add: heads_def nth_append)

text \<open>The scheduling words of every control block, as a function of those before.\<close>

definition words_are :: "u32 set \<Rightarrow> (u32 \<Rightarrow> u32) \<Rightarrow> (u32 \<Rightarrow> u32) \<Rightarrow> (u32 \<Rightarrow> u32) \<Rightarrow> (u32 \<Rightarrow> u32) \<Rightarrow> mem \<Rightarrow> bool" where
  "words_are P st pr qu ag m \<longleftrightarrow> (\<forall>x \<in> P. pcb_state m x = st x \<and> pcb_priority m x = pr x \<and>
     pcb_quantum m x = qu x \<and> pcb_age m x = ag x)"

lemma words_are_refl: "words_are P (pcb_state m) (pcb_priority m) (pcb_quantum m) (pcb_age m) m"
  by (simp add: words_are_def)

lemma words_are_link:
  assumes "queues m H P Ls" "same_off (link_bytes H P) m m'" "words_are P st pr qu ag m"
  shows "words_are P st pr qu ag m'"
  using assms pcb_link_frame [of H P _ m m'] by (simp add: words_are_def queues_def)

lemma words_are_set:
  assumes "queues m H P Ls" "p \<in> P" "words_are P st pr qu ag m"
  shows "words_are P (st(p := state_code v)) pr qu ag (set_pcb_state p v m)"
    "words_are P st (pr(p := w)) qu ag (set_pcb_priority p w m)"
    "words_are P st pr (qu(p := w)) ag (set_pcb_quantum p w m)"
    "words_are P st pr qu (ag(p := w)) (set_pcb_age p w m)"
proof -
  have "arena H P" using assms(1) by (simp add: queues_def)
  note f = pcb_fields [OF this assms(2)]
  show "words_are P (st(p := state_code v)) pr qu ag (set_pcb_state p v m)"
    "words_are P st (pr(p := w)) qu ag (set_pcb_priority p w m)"
    "words_are P st pr (qu(p := w)) ag (set_pcb_quantum p w m)"
    "words_are P st pr qu (ag(p := w)) (set_pcb_age p w m)"
    using assms(3) by (auto simp: words_are_def f)
qed

lemma sched_promote_ok:
  assumes q: "queues m (heads s) P Ls" and len: "length (priority_queues s) = 4"
    and k: "k < 3" and L: "Ls ! Suc k = us @ p # vs"
    and w: "words_are P st pr qu ag m" and pr: "pr p = U32 (Suc k)"
  shows "\<exists>m'. sched_promote s (priority_queues s ! Suc k) (sched_node p) m = Inr m' \<and>
    queues m' (heads s) P (Ls[Suc k := us @ vs, k := Ls ! k @ [p]]) \<and>
    words_are P st (pr(p := U32 k)) (qu(p := MLFQ_QUANTUMS ! k)) (ag(p := 0)) m' \<and>
    same_off (sched_bytes (heads s) P) m m'"
proof -
  let ?H = "heads s"
  have iH: "Suc k < length ?H" "k < length ?H" using k len by (simp_all add: heads_def)
  have p: "p \<in> P" using queues_mem [OF q iH(1)] by (simp add: L)
  let ?m1 = "set_pcb_age p 0 m"
  note k1 = set_pcb_keeps(4,8) [OF q p, of 0] and w1 = words_are_set(4) [OF q p w, of 0]
  obtain m2 where m2: "list_remove_node (?H ! Suc k) (sched_node p) ?m1 = (0, m2)"
    "queues m2 ?H P (Ls[Suc k := us @ vs])" "same_off (link_bytes ?H P) ?m1 m2"
    "p \<notin> set (concat (Ls[Suc k := us @ vs]))"
    using queues_remove [OF k1(1) iH(1) L] by blast
  have w2: "words_are P st pr qu (ag(p := 0)) m2" by (rule words_are_link [OF k1(1) m2(3) w1])
  let ?m3 = "set_pcb_priority p (U32 k) m2"
  note k3 = set_pcb_keeps(2,6) [OF m2(2) p, of "U32 k"] and w3 = words_are_set(2) [OF m2(2) p w2, of "U32 k"]
  let ?m4 = "set_pcb_quantum p (MLFQ_QUANTUMS ! k) ?m3"
  note k4 = set_pcb_keeps(3,7) [OF k3(1) p, of "MLFQ_QUANTUMS ! k"]
    and w4 = words_are_set(3) [OF k3(1) p w3, of "MLFQ_QUANTUMS ! k"]
  obtain m5 where m5: "list_push_tail (?H ! k) (sched_node p) ?m4 = (0, m5)"
    "queues m5 ?H P (Ls[Suc k := us @ vs, k := Ls ! k @ [p]])" "same_off (link_bytes ?H P) ?m4 m5"
    using queues_push_tail [OF k4(1) iH(2) p m2(4)] by auto
  have w5: "words_are P st (pr(p := U32 k)) (qu(p := MLFQ_QUANTUMS ! k)) (ag(p := 0)) m5"
    by (rule words_are_link [OF k4(1) m5(3) w4])
  have dec: "pcb_priority m2 p - 1 = U32 k" "pcb_priority ?m3 p = U32 k" "pcb_priority ?m4 p = U32 k"
    using w2 w3 w4 p pr by (auto simp: words_are_def)
  have "k < 4" using k by simp
  then have lv: "at_level MLFQ_QUANTUMS (U32 k) = Inr (MLFQ_QUANTUMS ! k)"
    "at_level (priority_queues s) (U32 k) = Inr (?H ! k)"
    using len by (simp_all add: at_level_nat MLFQ_QUANTUMS_def heads_level)
  have "sched_promote s (priority_queues s ! Suc k) (sched_node p) m = Inr m5"
    using m2(1) m5(1) k len
    by (simp add: sched_promote_def Let_def heads_level dec lv)
  moreover have "same_off (sched_bytes ?H P) m m5"
    by (rule same_off_trans [OF same_off_trans [OF same_off_trans [OF same_off_trans
      [OF k1(2) link_off_sched [OF m2(3)]] k3(2)] k4(2)] link_off_sched [OF m5(3)]])
  ultimately show ?thesis using m5(2) w5 by blast
qed

section \<open>The abstract scheduler\<close>

text \<open>What the scheduler is about, without addresses of nodes: the processes of each level and
  of the waiting queue in order, the current and the idle process, and the four scheduling
  words of every process.\<close>

record sched_view =
  levels :: "u32 list list"
  waiting :: "u32 list"
  cur :: u32
  idle :: u32
  vstate :: "u32 \<Rightarrow> u32"
  vprio :: "u32 \<Rightarrow> u32"
  vquantum :: "u32 \<Rightarrow> u32"
  vage :: "u32 \<Rightarrow> u32"

definition represents :: "Scheduler \<Rightarrow> mem \<Rightarrow> u32 set \<Rightarrow> sched_view \<Rightarrow> bool" where
  "represents s m P v \<longleftrightarrow> length (priority_queues s) = 4 \<and> length (levels v) = 4 \<and>
     queues m (heads s) P (levels v @ [waiting v]) \<and>
     words_are P (vstate v) (vprio v) (vquantum v) (vage v) m \<and>
     current_pcb s = cur v \<and> idle_pcb s = idle v"

definition age_one :: "nat \<Rightarrow> u32 \<Rightarrow> sched_view \<Rightarrow> sched_view" where
  "age_one k p v =
     (if AGE_TICK_MAX \<le> vage v p + 1
      then v\<lparr>levels := (levels v)[Suc k := remove1 p (levels v ! Suc k), k := levels v ! k @ [p]],
             vprio := (vprio v)(p := U32 k), vquantum := (vquantum v)(p := MLFQ_QUANTUMS ! k),
             vage := (vage v)(p := 0)\<rparr>
      else v\<lparr>vage := (vage v)(p := vage v p + 1)\<rparr>)"

definition age_level :: "nat \<Rightarrow> sched_view \<Rightarrow> sched_view" where
  "age_level k v = fold (age_one k) (levels v ! Suc k) v"

definition spec_age :: "sched_view \<Rightarrow> sched_view" where
  "spec_age v = age_level 2 (age_level 1 (age_level 0 v))"

definition spec_tick :: "sched_view \<Rightarrow> sched_view" where
  "spec_tick v =
     (if cur v = 0 \<or> cur v = idle v then v
      else
        let p = cur v; left = vquantum v p - 1 in
        if left = 0 then
          let level = (if vprio v p < 3 then vprio v p + 1 else vprio v p) in
          v\<lparr>levels := (levels v)[unat level := levels v ! unat level @ [p]], cur := 0,
            vstate := (vstate v)(p := state_code STATE_READY), vprio := (vprio v)(p := level),
            vquantum := (vquantum v)(p := MLFQ_QUANTUMS ! unat level)\<rparr>
        else spec_age (v\<lparr>vquantum := (vquantum v)(p := left)\<rparr>))"

text \<open>The head of the first nonempty level, or the idle process.\<close>

fun first_ready :: "u32 list list \<Rightarrow> (nat \<times> u32 \<times> u32 list) option" where
  "first_ready [] = None"
| "first_ready ((p # ps) # ls) = Some (0, p, ps)"
| "first_ready ([] # ls) =
     (case first_ready ls of None \<Rightarrow> None | Some (i, p, ps) \<Rightarrow> Some (Suc i, p, ps))"

definition spec_pick :: "sched_view \<Rightarrow> sched_view" where
  "spec_pick v =
     (case first_ready (levels v) of
        None \<Rightarrow> v\<lparr>cur := idle v, vstate := (vstate v)(idle v := state_code STATE_RUNNING)\<rparr>
      | Some (i, p, ps) \<Rightarrow> v\<lparr>levels := (levels v)[i := ps], cur := p,
          vstate := (vstate v)(p := state_code STATE_RUNNING)\<rparr>)"

text \<open>A timer interrupt: a tick, then a choice if there was no current process or it used up
  its quantum.\<close>

definition spec_timer :: "sched_view \<Rightarrow> sched_view" where
  "spec_timer v =
     (let v' = spec_tick v in if cur v' = 0 \<or> cur v = 0 then spec_pick v' else v')"

section \<open>The aging loop\<close>

lemma represents_dll:
  assumes "represents s m P v" "i < 4"
  shows "dll m (priority_queues s ! i) (map sched_node (levels v ! i))"
  using queues_dll [of m "heads s" P "levels v @ [waiting v]" i] assms
  by (simp add: represents_def heads_level nth_append) (simp add: heads_def)

lemma levels_update: "i < 4 \<Longrightarrow> length (levels v) = 4 \<Longrightarrow>
    (levels v @ [waiting v])[i := xs] = (levels v)[i := xs] @ [waiting v]"
  by (simp add: list_update_append)

lemma level_mem:
  assumes "represents s m P v" "i < 4" "p \<in> set (levels v ! i)"
  shows "p \<in> P"
  using queues_mem [of m "heads s" P "levels v @ [waiting v]" i p] assms
  by (simp add: represents_def heads_def nth_append)

lemma node_after:
  assumes "dll m l (us @ x # vs)"
  shows "node_next m x = hd (vs @ [l])"
  by (rule dll_around(2) [OF assms])

lemma age_one_refines:
  assumes r: "represents s m P v" and k: "k < 3" and L: "levels v ! Suc k = us @ p # vs"
    and pr: "vprio v p = U32 (Suc k)"
  shows "\<exists>m'. represents s m' P (age_one k p v) \<and> same_off (sched_bytes (heads s) P) m m' \<and>
    age_loop s (priority_queues s ! Suc k) (sched_node p) m =
      age_loop s (priority_queues s ! Suc k) (hd (map sched_node vs @ [priority_queues s ! Suc k])) m'"
proof -
  let ?q = "priority_queues s ! Suc k" and ?H = "heads s"
  let ?m1 = "set_pcb_age p (vage v p + 1) m"
  have q: "queues m ?H P (levels v @ [waiting v])" and len: "length (priority_queues s) = 4"
    "length (levels v) = 4" and w: "words_are P (vstate v) (vprio v) (vquantum v) (vage v) m"
    and cs: "current_pcb s = cur v" "idle_pcb s = idle v"
    using r by (auto simp: represents_def)
  have p: "p \<in> P" using level_mem [OF r, of "Suc k" p] k L by simp
  have dl: "dll m ?q (map sched_node us @ sched_node p # map sched_node vs)"
    using represents_dll [OF r, of "Suc k"] k L by simp
  note k1 = set_pcb_keeps(4,8) [OF q p, of "vage v p + 1"]
    and w1 = words_are_set(4) [OF q p w, of "vage v p + 1"]
  have ne: "sched_node p \<noteq> ?q"
    using dl header_not_node [of ?q "set (map sched_node us @ sched_node p # map sched_node vs)"]
    by (auto simp: dll_def)
  have ages: "pcb_age m p = vage v p" "pcb_age ?m1 p = vage v p + 1"
    using w w1 p by (auto simp: words_are_def)
  note step = age_loop.simps [of s ?q "sched_node p" m]
  show ?thesis
  proof (cases "AGE_TICK_MAX \<le> vage v p + 1")
    case False
    then have "age_loop s ?q (sched_node p) m = age_loop s ?q (hd (map sched_node vs @ [?q])) ?m1"
      using ne node_after [OF dl] ages by (subst step) (simp add: Let_def)
    moreover have "represents s ?m1 P (age_one k p v)"
      using False len k1 w1 cs by (simp add: age_one_def represents_def)
    ultimately show ?thesis using k1(2) by blast
  next
    case True
    have L': "(levels v @ [waiting v]) ! Suc k = us @ p # vs" using k L len by (simp add: nth_append)
    obtain m2 where m2: "sched_promote s ?q (sched_node p) ?m1 = Inr m2"
      "queues m2 ?H P ((levels v @ [waiting v])[Suc k := us @ vs, k := (levels v @ [waiting v]) ! k @ [p]])"
      "words_are P (vstate v) ((vprio v)(p := U32 k)) ((vquantum v)(p := MLFQ_QUANTUMS ! k))
        (((vage v)(p := vage v p + 1))(p := 0)) m2"
      "same_off (sched_bytes ?H P) ?m1 m2"
      using sched_promote_ok [OF k1(1) len(1) k L' w1 pr] by blast
    have "age_loop s ?q (sched_node p) m = age_loop s ?q (hd (map sched_node vs @ [?q])) m2"
      using True ne node_after [OF dl] ages m2(1) by (subst step) (simp add: Let_def)
    moreover have "p \<notin> set us"
      using dl by (auto simp: dll_def)
    then have "remove1 p (levels v ! Suc k) = us @ vs" by (simp add: L remove1_append)
    then have "represents s m2 P (age_one k p v)"
      using True len m2(2,3) cs k
      by (simp add: age_one_def represents_def levels_update list_update_append nth_append)
    ultimately show ?thesis using same_off_trans [OF k1(2) m2(4)] by blast
  qed
qed

lemma age_one_level:
  assumes "levels v ! Suc k = us @ p # vs" "distinct (us @ p # vs)" "Suc k < length (levels v)"
  shows "\<exists>us'. levels (age_one k p v) ! Suc k = us' @ vs"
proof (cases "AGE_TICK_MAX \<le> vage v p + 1")
  case True
  have "remove1 p (us @ p # vs) = us @ vs" using assms(2) by (simp add: remove1_append)
  then show ?thesis using True assms by (auto simp: age_one_def)
next
  case False
  then show ?thesis using assms(1) by (intro exI [of _ "us @ [p]"]) (simp add: age_one_def)
qed

lemma age_loop_refines:
  assumes "represents s m P v" "k < 3" "levels v ! Suc k = us @ vs"
    and "\<forall>p \<in> set vs. vprio v p = U32 (Suc k)"
  shows "\<exists>m'. age_loop s (priority_queues s ! Suc k)
      (hd (map sched_node vs @ [priority_queues s ! Suc k])) m = Some (Inr m') \<and>
    represents s m' P (fold (age_one k) vs v) \<and> same_off (sched_bytes (heads s) P) m m'"
  using assms(1,3,4)
proof (induction vs arbitrary: m v us)
  case Nil
  have "age_loop s (priority_queues s ! Suc k) (priority_queues s ! Suc k) m = Some (Inr m)"
    by (subst age_loop.simps) simp
  with Nil show ?case by auto
next
  case (Cons p vs)
  have d: "distinct (us @ p # vs)" and len: "length (levels v) = 4"
    using represents_dll [OF Cons.prems(1), of "Suc k"] assms(2) Cons.prems(1,2)
    by (auto simp: dll_def distinct_map represents_def)
  obtain m1 where m1: "represents s m1 P (age_one k p v)" "same_off (sched_bytes (heads s) P) m m1"
    "age_loop s (priority_queues s ! Suc k) (sched_node p) m =
      age_loop s (priority_queues s ! Suc k) (hd (map sched_node vs @ [priority_queues s ! Suc k])) m1"
    using age_one_refines [OF Cons.prems(1) assms(2) Cons.prems(2)] Cons.prems(3) by auto
  obtain us' where "levels (age_one k p v) ! Suc k = us' @ vs"
    using age_one_level [OF Cons.prems(2) d] len assms(2) by auto
  moreover have "\<forall>x \<in> set vs. vprio (age_one k p v) x = U32 (Suc k)"
    using Cons.prems(3) d by (auto simp: age_one_def)
  ultimately obtain m2 where m2: "age_loop s (priority_queues s ! Suc k)
      (hd (map sched_node vs @ [priority_queues s ! Suc k])) m1 = Some (Inr m2)"
    "represents s m2 P (fold (age_one k) vs (age_one k p v))" "same_off (sched_bytes (heads s) P) m1 m2"
    using Cons.IH [OF m1(1)] by blast
  show ?case
    using m1(3) m2(1,2) same_off_trans [OF m1(2) m2(3)] by auto
qed

section \<open>Aging in closed form\<close>

definition stays :: "sched_view \<Rightarrow> u32 \<Rightarrow> bool" where
  "stays v p \<longleftrightarrow> \<not> AGE_TICK_MAX \<le> vage v p + 1"

text \<open>Level \<open>Suc k\<close> after a tick: the processes that have waited long enough move to the end
  of level \<open>k\<close> with a full quantum and age 0, the others are one tick older.\<close>

definition aged :: "nat \<Rightarrow> u32 list \<Rightarrow> u32 list \<Rightarrow> sched_view \<Rightarrow> sched_view" where
  "aged k us vs v = v\<lparr>
     levels := (levels v)[Suc k := us @ filter (stays v) vs,
                          k := levels v ! k @ filter (\<lambda>p. \<not> stays v p) vs],
     vprio := (\<lambda>x. if x \<in> set vs \<and> \<not> stays v x then U32 k else vprio v x),
     vquantum := (\<lambda>x. if x \<in> set vs \<and> \<not> stays v x then MLFQ_QUANTUMS ! k else vquantum v x),
     vage := (\<lambda>x. if x \<in> set vs then if stays v x then vage v x + 1 else 0 else vage v x)\<rparr>"

lemma stays_age_one: "x \<noteq> p \<Longrightarrow> stays (age_one k p v) x = stays v x"
  by (simp add: stays_def age_one_def)

lemma fold_age_one:
  assumes "levels v ! Suc k = us @ vs" "distinct (us @ vs)" "Suc k < length (levels v)"
  shows "fold (age_one k) vs v = aged k us vs v"
  using assms
proof (induction vs arbitrary: us v)
  case Nil
  have "(levels v)[Suc k := us] = levels v" using Nil(1) by (metis append_Nil2 list_update_id)
  then show ?case by (simp add: aged_def)
next
  case (Cons p vs)
  have p: "p \<notin> set us" "p \<notin> set vs" using Cons.prems(2) by auto
  then have st: "\<And>x. x \<in> set vs \<Longrightarrow> stays (age_one k p v) x = stays v x"
    by (intro stays_age_one) auto
  have fl: "filter (stays (age_one k p v)) vs = filter (stays v) vs"
    "filter (\<lambda>x. \<not> stays (age_one k p v) x) vs = filter (\<lambda>x. \<not> stays v x) vs"
    using st by (auto cong: filter_cong)
  show ?case
  proof (cases "stays v p")
    case True
    then have one: "age_one k p v = v\<lparr>vage := (vage v)(p := vage v p + 1)\<rparr>"
      by (simp add: age_one_def stays_def)
    have "fold (age_one k) (p # vs) v = aged k (us @ [p]) vs (age_one k p v)"
      using Cons.prems by (simp, intro Cons.IH) (simp_all add: one)
    also have "\<dots> = aged k us (p # vs) v"
      unfolding aged_def fl
      by (intro sched_view.equality ext) (use True p(2) st in \<open>auto simp: one\<close>)
    finally show ?thesis .
  next
    case False
    have "remove1 p (us @ p # vs) = us @ vs" using p(1) by (simp add: remove1_append)
    then have one: "age_one k p v = v\<lparr>levels := (levels v)[Suc k := us @ vs, k := levels v ! k @ [p]],
        vprio := (vprio v)(p := U32 k), vquantum := (vquantum v)(p := MLFQ_QUANTUMS ! k),
        vage := (vage v)(p := 0)\<rparr>"
      using False Cons.prems(1) by (simp add: age_one_def stays_def)
    have "fold (age_one k) (p # vs) v = aged k us vs (age_one k p v)"
      using Cons.prems by (simp, intro Cons.IH) (simp_all add: one)
    also have "\<dots> = aged k us (p # vs) v"
      unfolding aged_def fl
      by (intro sched_view.equality ext)
        (use False p(2) st Cons.prems(3) in \<open>auto simp: one list_update_swap\<close>)
    finally show ?thesis .
  qed
qed

section \<open>Well-formed scheduler states\<close>

definition level_ok :: "sched_view \<Rightarrow> nat \<Rightarrow> u32 \<Rightarrow> bool" where
  "level_ok v i p \<longleftrightarrow> vstate v p = state_code STATE_READY \<and> vprio v p = U32 i \<and>
     vquantum v p \<noteq> 0 \<and> unat (vage v p) < 600"

definition queued :: "sched_view \<Rightarrow> u32 set" where
  "queued v = set (concat (levels v @ [waiting v]))"

definition placed_ok :: "u32 set \<Rightarrow> sched_view \<Rightarrow> bool" where
  "placed_ok P v \<longleftrightarrow> idle v \<in> P \<and> idle v \<notin> queued v \<and> (cur v = 0 \<or> cur v \<in> P \<and> cur v \<notin> queued v)"

definition waiting_ok :: "u32 set \<Rightarrow> sched_view \<Rightarrow> bool" where
  "waiting_ok P v \<longleftrightarrow>
     (\<forall>p \<in> set (waiting v). vstate v p = state_code STATE_WAITING \<and> unat (vprio v p) < 4) \<and>
     (\<forall>p \<in> P. vstate v p = state_code STATE_WAITING \<longrightarrow> p \<in> set (waiting v))"

definition running_ok :: "sched_view \<Rightarrow> bool" where
  "running_ok v \<longleftrightarrow> (cur v \<noteq> 0 \<and> cur v \<noteq> idle v \<longrightarrow>
     vstate v (cur v) = state_code STATE_RUNNING \<and> unat (vprio v (cur v)) < 4 \<and>
     vquantum v (cur v) \<noteq> 0 \<and> unat (vage v (cur v)) < 600)"

definition sched_wf :: "u32 set \<Rightarrow> sched_view \<Rightarrow> bool" where
  "sched_wf P v \<longleftrightarrow> placed_ok P v \<and> (\<forall>i < 4. \<forall>p \<in> set (levels v ! i). level_ok v i p) \<and>
     waiting_ok P v \<and> running_ok v"

lemmas wf_defs = sched_wf_def placed_ok_def waiting_ok_def running_ok_def level_ok_def queued_def

lemma all_less4: "(\<forall>i < (4 :: nat). Q i) \<longleftrightarrow> Q 0 \<and> Q 1 \<and> Q 2 \<and> Q 3"
  by (auto simp: less_Suc_eq numeral_eq_Suc)

lemma sched_wfI:
  assumes "placed_ok P v" "\<And>i p. i < 4 \<Longrightarrow> p \<in> set (levels v ! i) \<Longrightarrow> level_ok v i p"
    "waiting_ok P v" "running_ok v"
  shows "sched_wf P v"
  using assms by (simp add: sched_wf_def)

lemma sched_wfD:
  assumes "sched_wf P v"
  shows "placed_ok P v" "waiting_ok P v" "running_ok v"
  using assms by (simp_all add: sched_wf_def)

lemma wf_level: "sched_wf P v \<Longrightarrow> i < 4 \<Longrightarrow> p \<in> set (levels v ! i) \<Longrightarrow> level_ok v i p"
  by (simp add: sched_wf_def)

lemma wf_idle: "sched_wf P v \<Longrightarrow> idle v \<in> P \<and> idle v \<notin> queued v"
  by (simp add: sched_wf_def placed_ok_def)

lemma wf_running:
  assumes "sched_wf P v" "cur v \<noteq> 0" "cur v \<noteq> idle v"
  shows "cur v \<in> P" "cur v \<notin> queued v" "vstate v (cur v) = state_code STATE_RUNNING"
    "unat (vprio v (cur v)) < 4" "vquantum v (cur v) \<noteq> 0" "unat (vage v (cur v)) < 600"
  using assms by (auto simp: sched_wf_def placed_ok_def running_ok_def)

lemma set_nth_concat: "i < length ls \<Longrightarrow> set (ls ! i) \<subseteq> set (concat ls)"
  by (auto intro!: bexI [of _ "ls ! i"])

lemma queued_iff:
  assumes "length (levels v) = 4"
  shows "p \<in> queued v \<longleftrightarrow> (\<exists>i < 4. p \<in> set (levels v ! i)) \<or> p \<in> set (waiting v)"
proof -
  have "p \<in> set (concat (levels v)) \<longleftrightarrow> (\<exists>i < 4. p \<in> set (levels v ! i))"
  proof
    assume "p \<in> set (concat (levels v))"
    then obtain L where "L \<in> set (levels v)" "p \<in> set L" by auto
    with assms show "\<exists>i < 4. p \<in> set (levels v ! i)" by (metis in_set_conv_nth)
  next
    assume "\<exists>i < 4. p \<in> set (levels v ! i)"
    with assms set_nth_concat [of _ "levels v"] show "p \<in> set (concat (levels v))" by fastforce
  qed
  then show ?thesis by (simp add: queued_def)
qed

lemma level_split:
  assumes "represents s m P v" "i < 4" "j < 4" "i \<noteq> j" "p \<in> set (levels v ! i)"
  shows "p \<notin> set (levels v ! j)"
  using distinct_concat_disjoint [of "levels v @ [waiting v]" i j p] assms
  by (simp add: represents_def queues_def nth_append)

lemma waiting_split:
  assumes "represents s m P v" "i < 4" "p \<in> set (levels v ! i)"
  shows "p \<notin> set (waiting v)"
  using distinct_concat_disjoint [of "levels v @ [waiting v]" i 4 p] assms
  by (simp add: represents_def queues_def nth_append)

lemma level_distinct:
  assumes "represents s m P v" "i < 4"
  shows "distinct (levels v ! i)"
  using represents_dll [OF assms] by (simp add: dll_def distinct_map)

lemma age_level_aged:
  assumes "represents s m P v" "k < 3"
  shows "age_level k v = aged k [] (levels v ! Suc k) v"
  using fold_age_one [of v k "[]" "levels v ! Suc k"] level_distinct [OF assms(1), of "Suc k"] assms
  by (simp add: age_level_def represents_def)

lemma aged_length [simp]: "length (levels (aged k us vs v)) = length (levels v)"
  by (simp add: aged_def)

lemma MLFQ_nonzero: "k < 4 \<Longrightarrow> MLFQ_QUANTUMS ! k \<noteq> 0"
  using less_Suc_eq [of k 3] less_Suc_eq [of k 2] less_Suc_eq [of k 1]
  by (auto simp: MLFQ_QUANTUMS_def)

lemma stays_unat: "unat (vage v p) < 600 \<Longrightarrow> stays v p \<longleftrightarrow> unat (vage v p) + 1 < 600"
  by (subst stays_def, subst word_le_nat_alt, subst unat_add_u32) (auto simp: AGE_TICK_MAX_def)

lemma wf_age_level:
  assumes r: "represents s m P v" and k: "k < 3" and wf: "sched_wf P v"
  shows "sched_wf P (age_level k v)"
proof -
  let ?v = "aged k [] (levels v ! Suc k) v"
  have len: "length (levels v) = 4" using r by (simp add: represents_def)
  have same: "vprio ?v x = vprio v x" "vquantum ?v x = vquantum v x" "vage ?v x = vage v x"
    if "x \<notin> set (levels v ! Suc k)" for x
    using that by (simp_all add: aged_def)
  have c: "cur ?v = cur v" "idle ?v = idle v" "waiting ?v = waiting v" "vstate ?v = vstate v"
    by (simp_all add: aged_def)
  have lev: "p \<in> set (levels v ! i) \<or> p \<in> set (levels v ! Suc k)"
    if "i < 4" "p \<in> set (levels ?v ! i)" for i p
    using that len k by (auto simp: aged_def nth_list_update split: if_splits)
  have sub: "p \<in> queued v" if p: "p \<in> queued ?v" for p
  proof -
    have "Suc k < 4" "length (levels ?v) = 4" using k len by simp_all
    with p c(3) obtain i where "i < 4 \<and> p \<in> set (levels ?v ! i) \<or> p \<in> set (waiting v)"
      by (auto simp: queued_iff)
    with lev [of i p] \<open>Suc k < 4\<close> show ?thesis unfolding queued_iff [OF len] by blast
  qed
  have old: "level_ok v (Suc k) p" if "p \<in> set (levels v ! Suc k)" for p
    using wf_level [OF wf] that k by simp
  have grown: "level_ok ?v (Suc k) p" if "p \<in> set (levels v ! Suc k)" "stays v p" for p
  proof -
    have a: "unat (vage v p) < 600" using old [OF that(1)] by (simp add: level_ok_def)
    then have "unat (vage v p + 1) < 600"
      using that(2) stays_unat [OF a] by (subst unat_add_u32) auto
    with old [OF that(1)] that show ?thesis by (simp add: level_ok_def aged_def)
  qed
  have raised: "level_ok ?v k p" if "p \<in> set (levels v ! Suc k)" "\<not> stays v p" for p
    using old [OF that(1)] that MLFQ_nonzero [of k] k by (simp add: level_ok_def aged_def)
  have kept: "level_ok ?v i p" if "i < 4" "i \<noteq> Suc k" "p \<in> set (levels v ! i)" for i p
  proof -
    have "p \<notin> set (levels v ! Suc k)" using level_split [OF r that(1) _ that(2,3)] k by simp
    with wf_level [OF wf that(1,3)] show ?thesis by (simp add: level_ok_def same c)
  qed
  have "sched_wf P ?v"
  proof (rule sched_wfI)
    show "placed_ok P ?v" using sched_wfD(1) [OF wf] sub by (auto simp: placed_ok_def c)
    show "level_ok ?v i p" if i: "i < 4" "p \<in> set (levels ?v ! i)" for i p
      using i grown raised kept len k by (auto simp: aged_def nth_list_update split: if_splits)
    have "vprio ?v p = vprio v p" if "p \<in> set (waiting v)" for p
      using same(1) [of p] waiting_split [OF r, of "Suc k" p] that k by auto
    then show "waiting_ok P ?v" using sched_wfD(2) [OF wf] by (simp add: waiting_ok_def c)
    have "x \<notin> queued v \<Longrightarrow> x \<notin> set (levels v ! Suc k)" for x
      using queued_iff [OF len, of x] k by auto
    then show "running_ok ?v"
      using sched_wfD(1,3) [OF wf] same by (auto simp: running_ok_def placed_ok_def c)
  qed
  then show ?thesis by (simp add: age_level_aged [OF r k])
qed

section \<open>Refinement\<close>

lemma age_level_refines:
  assumes r: "represents s m P v" and k: "k < 3" and wf: "sched_wf P v"
  shows "\<exists>m'. age_loop s (priority_queues s ! Suc k) (node_next m (priority_queues s ! Suc k)) m =
      Some (Inr m') \<and> represents s m' P (age_level k v) \<and> sched_wf P (age_level k v) \<and>
    same_off (sched_bytes (heads s) P) m m'"
proof -
  have "dll m (priority_queues s ! Suc k) (map sched_node (levels v ! Suc k))"
    using represents_dll [OF r, of "Suc k"] k by simp
  note ends = dll_ends(1) [OF this]
  have "\<forall>p \<in> set (levels v ! Suc k). vprio v p = U32 (Suc k)"
    using wf_level [OF wf, of "Suc k"] k by (auto simp: level_ok_def)
  from age_loop_refines [OF r k _ this, of "[]"] ends wf_age_level [OF r k wf] show ?thesis
    by (simp add: age_level_def)
qed

lemma age_levels_refines:
  assumes r: "represents s m P v" and wf: "sched_wf P v"
  shows "\<exists>m'. age_levels s (drop 1 (priority_queues s)) m = Some (Inr m') \<and>
    represents s m' P (spec_age v) \<and> sched_wf P (spec_age v) \<and>
    same_off (sched_bytes (heads s) P) m m'"
proof -
  let ?q = "\<lambda>i. priority_queues s ! i"
  have len: "length (priority_queues s) = 4" using r by (simp add: represents_def)
  then have qs: "drop 1 (priority_queues s) = [?q (Suc 0), ?q (Suc 1), ?q (Suc 2)]"
    by (auto simp: list_eq_iff_nth_eq less_Suc_eq numeral_eq_Suc)
  have nz: "?q i \<noteq> 0" if "i < 4" for i
    using represents_dll [OF r that] by (simp add: dll_def header_ok_def)
  obtain m1 where m1: "age_loop s (?q (Suc 0)) (node_next m (?q (Suc 0))) m = Some (Inr m1)"
    "represents s m1 P (age_level 0 v)" "sched_wf P (age_level 0 v)"
    "same_off (sched_bytes (heads s) P) m m1"
    using age_level_refines [OF r, of 0] wf by auto
  obtain m2 where m2: "age_loop s (?q (Suc 1)) (node_next m1 (?q (Suc 1))) m1 = Some (Inr m2)"
    "represents s m2 P (age_level 1 (age_level 0 v))" "sched_wf P (age_level 1 (age_level 0 v))"
    "same_off (sched_bytes (heads s) P) m1 m2"
    using age_level_refines [OF m1(2) _ m1(3), of 1] by auto
  obtain m3 where m3: "age_loop s (?q (Suc 2)) (node_next m2 (?q (Suc 2))) m2 = Some (Inr m3)"
    "represents s m3 P (spec_age v)" "sched_wf P (spec_age v)"
    "same_off (sched_bytes (heads s) P) m2 m3"
    using age_level_refines [OF m2(2) _ m2(3), of 2] by (auto simp: spec_age_def)
  have "age_levels s (drop 1 (priority_queues s)) m = Some (Inr m3)"
    unfolding qs using nz [of "Suc 0"] nz [of "Suc 1"] nz [of "Suc 2"] m1(1) m2(1) m3(1)
    by (simp del: One_nat_def)
  with m3(2,3) same_off_trans [OF same_off_trans [OF m1(4) m2(4)] m3(4)] show ?thesis by blast
qed

lemma enqueue_ready_refines:
  assumes q: "queues m (heads s) P (levels v @ [waiting v])" and len: "length (priority_queues s) = 4"
    "length (levels v) = 4" and p: "p \<in> P" "p \<notin> set (concat (levels v @ [waiting v]))"
    and st: "pcb_state m p = state_code STATE_READY" "unat (pcb_priority m p) < 4"
  defines "i \<equiv> unat (pcb_priority m p)"
  shows "\<exists>m'. sched_enqueue p s m = Inr m' \<and>
    queues m' (heads s) P ((levels v)[i := levels v ! i @ [p]] @ [waiting v]) \<and>
    same_off (link_bytes (heads s) P) m m'"
proof -
  have i: "i < 4" "i < length (heads s)" using st(2) len by (simp_all add: i_def heads_def)
  obtain m' where "list_push_tail (heads s ! i) (sched_node p) m = (0, m')"
    "queues m' (heads s) P ((levels v @ [waiting v])[i := (levels v @ [waiting v]) ! i @ [p]])"
    "same_off (link_bytes (heads s) P) m m'"
    using queues_push_tail [OF q i(2) p] by blast
  moreover have "p \<noteq> 0" using q p(1) by (auto simp: queues_def dest: arenaD(3))
  moreover have "at_level (priority_queues s) (pcb_priority m p) = Inr (heads s ! i)"
    using i len by (simp add: at_level_def i_def heads_level)
  ultimately show ?thesis
    using st i len by (auto simp: sched_enqueue_def levels_update nth_append)
qed

lemma expired_level:
  assumes "unat (x :: u32) < 4"
  shows "unat (if x < 3 then x + 1 else x) = min 3 (Suc (unat x))"
proof (cases "x < 3")
  case True
  then have "unat x < 3" by (simp add: word_less_nat_alt)
  moreover from this have "unat (x + 1) = unat x + 1" by (subst unat_add_u32) simp_all
  ultimately show ?thesis using True by simp
next
  case False
  then have "\<not> unat x < 3" by (simp add: word_less_nat_alt)
  with assms False show ?thesis by simp
qed

text \<open>The expiry path up to the enqueueing, whatever the queues hold.\<close>

lemma tick_expired_prefix:
  assumes q: "queues m (heads s) P Ls" and w: "words_are P st pr qu ag m"
    and c: "current_pcb s = p" "p \<in> P" "p \<noteq> idle_pcb s" and pr: "unat (pr p) < 4" and qu: "qu p - 1 = 0"
  defines "lv \<equiv> if pr p < 3 then pr p + 1 else pr p"
  shows "\<exists>m'. sched_tick s m =
      (case sched_enqueue p s m' of Inl f \<Rightarrow> Some (Inl f) | Inr m \<Rightarrow> Some (Inr (s\<lparr>current_pcb := 0\<rparr>, m))) \<and>
    queues m' (heads s) P Ls \<and>
    words_are P (st(p := state_code STATE_READY)) (pr(p := lv)) (qu(p := MLFQ_QUANTUMS ! unat lv)) ag m' \<and>
    same_off (sched_bytes (heads s) P) m m'"
proof -
  let ?H = "heads s"
  have lv: "unat lv < 4" using expired_level [OF pr] by (simp add: lv_def)
  have nz: "p \<noteq> 0" using q c(2) by (auto simp: queues_def dest: arenaD(3))
  let ?m1 = "set_pcb_quantum p 0 m"
  note k1 = set_pcb_keeps(3,7) [OF q c(2), of 0] and w1 = words_are_set(3) [OF q c(2) w, of 0]
  let ?m2 = "set_pcb_state p STATE_READY ?m1"
  note k2 = set_pcb_keeps(1,5) [OF k1(1) c(2), of STATE_READY]
    and w2 = words_are_set(1) [OF k1(1) c(2) w1, of STATE_READY]
  let ?m3 = "if pr p < 3 then set_pcb_priority p (pr p + 1) ?m2 else ?m2"
  have k3: "queues ?m3 ?H P Ls" "same_off (sched_bytes ?H P) ?m2 ?m3"
    using set_pcb_keeps(2,6) [OF k2(1) c(2)] k2(1) by auto
  have w3: "words_are P (st(p := state_code STATE_READY)) (pr(p := lv)) (qu(p := 0)) ag ?m3"
    using words_are_set(2) [OF k2(1) c(2) w2] w2 by (simp add: lv_def)
  let ?m4 = "set_pcb_quantum p (MLFQ_QUANTUMS ! unat lv) ?m3"
  note k4 = set_pcb_keeps(3,7) [OF k3(1) c(2), of "MLFQ_QUANTUMS ! unat lv"]
    and w4 = words_are_set(3) [OF k3(1) c(2) w3, of "MLFQ_QUANTUMS ! unat lv"]
  have rd: "pcb_quantum m p = qu p" "pcb_quantum ?m1 p = 0" "pcb_priority ?m2 p = pr p"
    "pcb_priority ?m3 p = lv"
    using w w1 w2 w3 c(2) by (simp_all add: words_are_def)
  have "at_level MLFQ_QUANTUMS lv = Inr (MLFQ_QUANTUMS ! unat lv)"
    using lv by (simp add: at_level_def MLFQ_QUANTUMS_def)
  then have "sched_tick s m = (case sched_enqueue p s ?m4 of Inl f \<Rightarrow> Some (Inl f)
      | Inr m \<Rightarrow> Some (Inr (s\<lparr>current_pcb := 0\<rparr>, m)))"
    using c nz rd qu unfolding sched_tick_def Let_def by (simp only: if_False if_True simp_thms sum.case)
  moreover have "same_off (sched_bytes ?H P) m ?m4"
    by (rule same_off_trans [OF same_off_trans [OF same_off_trans [OF k1(2) k2(2)] k3(2)] k4(2)])
  ultimately show ?thesis using k4(1) w4 by (intro exI [of _ ?m4]) simp
qed

lemma tick_expired:
  assumes r: "represents s m P v" and wf: "sched_wf P v" and c: "cur v \<noteq> 0" "cur v \<noteq> idle v"
    and ex: "vquantum v (cur v) - 1 = 0"
  shows "\<exists>m'. sched_tick s m = Some (Inr (s\<lparr>current_pcb := 0\<rparr>, m')) \<and>
    represents (s\<lparr>current_pcb := 0\<rparr>) m' P (spec_tick v) \<and> same_off (sched_bytes (heads s) P) m m'"
proof -
  let ?p = "cur v" and ?H = "heads s"
  define lv where "lv = (if vprio v ?p < 3 then vprio v ?p + 1 else vprio v ?p)"
  have q: "queues m ?H P (levels v @ [waiting v])" and len: "length (priority_queues s) = 4"
    "length (levels v) = 4" and w: "words_are P (vstate v) (vprio v) (vquantum v) (vage v) m"
    and cs: "current_pcb s = ?p" "idle_pcb s = idle v"
    using r by (auto simp: represents_def)
  note p = wf_running(1) [OF wf c] wf_running(2) [OF wf c, unfolded queued_def] wf_running(4) [OF wf c]
  have lv: "unat lv < 4" using expired_level [OF p(3)] by (simp add: lv_def)
  have "?p \<noteq> idle_pcb s" using c(2) cs(2) by simp
  from tick_expired_prefix [OF q w cs(1) p(1) this p(3) ex, folded lv_def] obtain m4 where
    t: "sched_tick s m = (case sched_enqueue ?p s m4 of Inl f \<Rightarrow> Some (Inl f)
      | Inr m \<Rightarrow> Some (Inr (s\<lparr>current_pcb := 0\<rparr>, m)))"
    "queues m4 ?H P (levels v @ [waiting v])"
    "words_are P ((vstate v)(?p := state_code STATE_READY)) ((vprio v)(?p := lv))
      ((vquantum v)(?p := MLFQ_QUANTUMS ! unat lv)) (vage v) m4"
    "same_off (sched_bytes ?H P) m m4" by blast
  have rd: "pcb_priority m4 ?p = lv" "pcb_state m4 ?p = state_code STATE_READY"
    using t(3) p(1) by (simp_all add: words_are_def)
  obtain m5 where m5: "sched_enqueue ?p s m4 = Inr m5"
    "queues m5 ?H P ((levels v)[unat lv := levels v ! unat lv @ [?p]] @ [waiting v])"
    "same_off (link_bytes ?H P) m4 m5"
    using enqueue_ready_refines [OF t(2) len p(1,2)] rd lv by auto
  note w5 = words_are_link [OF t(2) m5(3) t(3)]
  have "represents (s\<lparr>current_pcb := 0\<rparr>) m5 P (spec_tick v)"
    using m5(2) w5 c ex len cs unfolding represents_def spec_tick_def Let_def lv_def heads_def by simp
  with t(1) m5(1) same_off_trans [OF t(4) link_off_sched [OF m5(3)]] show ?thesis by auto
qed

lemma tick_running_view:
  assumes r: "represents s m P v" and wf: "sched_wf P v" and c: "cur v \<noteq> 0" "cur v \<noteq> idle v"
    and ex: "vquantum v (cur v) - 1 \<noteq> 0"
  defines "v' \<equiv> v\<lparr>vquantum := (vquantum v)(cur v := vquantum v (cur v) - 1)\<rparr>"
    and "m' \<equiv> set_pcb_quantum (cur v) (vquantum v (cur v) - 1) m"
  shows "represents s m' P v' \<and> sched_wf P v' \<and> spec_tick v = spec_age v' \<and>
    pcb_quantum m (cur v) = vquantum v (cur v) \<and> pcb_quantum m' (cur v) = vquantum v (cur v) - 1 \<and>
    same_off (sched_bytes (heads s) P) m m'"
proof -
  let ?p = "cur v" and ?left = "vquantum v (cur v) - 1"
  have q: "queues m (heads s) P (levels v @ [waiting v])"
    and w: "words_are P (vstate v) (vprio v) (vquantum v) (vage v) m"
    and len: "length (levels v) = 4"
    using r by (auto simp: represents_def)
  note p = wf_running(1,2) [OF wf c]
  note k1 = set_pcb_keeps(3,7) [OF q p(1), of ?left] and w1 = words_are_set(3) [OF q p(1) w, of ?left]
  have "sched_wf P v'"
  proof (rule sched_wfI)
    have "queued v' = queued v" by (simp add: queued_def v'_def)
    then show "placed_ok P v'" using sched_wfD(1) [OF wf] by (simp add: placed_ok_def v'_def)
    show "level_ok v' i x" if "i < 4" "x \<in> set (levels v' ! i)" for i x
      using wf_level [OF wf that(1), of x] that p(2) queued_iff [OF len, of ?p]
      by (auto simp: level_ok_def v'_def)
    show "waiting_ok P v'" using sched_wfD(2) [OF wf] by (simp add: waiting_ok_def v'_def)
    show "running_ok v'" using sched_wfD(3) [OF wf] ex by (simp add: running_ok_def v'_def)
  qed
  moreover have "represents s m' P v'"
    using r k1(1) w1 by (simp add: represents_def v'_def m'_def)
  moreover have "pcb_quantum m ?p = vquantum v ?p" "pcb_quantum m' ?p = ?left"
    using w w1 p(1) by (simp_all add: words_are_def m'_def)
  moreover have "spec_tick v = spec_age v'" using c ex by (simp add: spec_tick_def Let_def v'_def)
  ultimately show ?thesis using k1(2) by (simp add: m'_def)
qed

lemma tick_running:
  assumes r: "represents s m P v" and wf: "sched_wf P v" and c: "cur v \<noteq> 0" "cur v \<noteq> idle v"
    and ex: "vquantum v (cur v) - 1 \<noteq> 0"
  shows "\<exists>m'. sched_tick s m = Some (Inr (s, m')) \<and> represents s m' P (spec_tick v) \<and>
    sched_wf P (spec_tick v) \<and> same_off (sched_bytes (heads s) P) m m'"
proof -
  let ?v = "v\<lparr>vquantum := (vquantum v)(cur v := vquantum v (cur v) - 1)\<rparr>"
  let ?m1 = "set_pcb_quantum (cur v) (vquantum v (cur v) - 1) m"
  have v1: "represents s ?m1 P ?v" "sched_wf P ?v" "spec_tick v = spec_age ?v"
    and rd: "pcb_quantum m (cur v) = vquantum v (cur v)" "pcb_quantum ?m1 (cur v) = vquantum v (cur v) - 1"
    and off: "same_off (sched_bytes (heads s) P) m ?m1"
    using tick_running_view [OF r wf c ex] by blast+
  have cs: "current_pcb s = cur v" "idle_pcb s = idle v" using r by (auto simp: represents_def)
  obtain m2 where m2: "age_levels s (drop 1 (priority_queues s)) ?m1 = Some (Inr m2)"
    "represents s m2 P (spec_age ?v)" "sched_wf P (spec_age ?v)" "same_off (sched_bytes (heads s) P) ?m1 m2"
    using age_levels_refines [OF v1(1,2)] by blast
  have "sched_tick s m = Some (Inr (s, m2))"
    using cs c rd m2(1) ex unfolding sched_tick_def Let_def
    by (simp only: if_False simp_thms option.case sum.case)
  then show ?thesis using m2(2,3) same_off_trans [OF off m2(4)] v1(3) by auto
qed

lemma wf_tick_expired:
  assumes r: "represents s m P v" and wf: "sched_wf P v" and c: "cur v \<noteq> 0" "cur v \<noteq> idle v"
    and ex: "vquantum v (cur v) - 1 = 0"
  shows "sched_wf P (spec_tick v)" "cur (spec_tick v) = 0"
proof -
  let ?p = "cur v"
  define lv where "lv = (if vprio v ?p < 3 then vprio v ?p + 1 else vprio v ?p)"
  have len: "length (levels v) = 4" using r by (simp add: represents_def)
  note p = wf_running(1,2,4,6) [OF wf c]
  have lv: "unat lv < 4" using expired_level [OF p(3)] by (simp add: lv_def)
  have tick: "spec_tick v = v\<lparr>levels := (levels v)[unat lv := levels v ! unat lv @ [?p]], cur := 0,
      vstate := (vstate v)(?p := state_code STATE_READY), vprio := (vprio v)(?p := lv),
      vquantum := (vquantum v)(?p := MLFQ_QUANTUMS ! unat lv)\<rparr>" (is "_ = ?v")
    using c ex by (simp add: spec_tick_def Let_def lv_def)
  then show "cur (spec_tick v) = 0" by simp
  have mem: "?p \<notin> set (levels v ! i)" if "i < 4" for i
    using p(2) that queued_iff [OF len, of ?p] by auto
  have lev: "x = ?p \<and> i = unat lv \<or> x \<noteq> ?p \<and> x \<in> set (levels v ! i)"
    if "i < 4" "x \<in> set (levels ?v ! i)" for i x
    using that mem [OF that(1)] len lv by (cases "i = unat lv") auto
  have "sched_wf P ?v"
  proof (rule sched_wfI)
    have "x = ?p \<or> x \<in> queued v" if "x \<in> queued ?v" for x
      using that lev [of _ x] len by (auto simp: queued_iff)
    from this [of "idle v"] show "placed_ok P ?v"
      using wf_idle [OF wf] c unfolding placed_ok_def by auto
    show "level_ok ?v i x" if "i < 4" "x \<in> set (levels ?v ! i)" for i x
      using lev [OF that] wf_level [OF wf that(1), of x] p(4) MLFQ_nonzero [OF lv] by (auto simp: level_ok_def)
    have "?p \<notin> set (waiting v)" using p(2) by (simp add: queued_iff [OF len])
    then show "waiting_ok P ?v" using sched_wfD(2) [OF wf] by (auto simp: waiting_ok_def)
    show "running_ok ?v" by (simp add: running_ok_def)
  qed
  then show "sched_wf P (spec_tick v)" unfolding tick .
qed

lemma sched_tick_refines:
  assumes r: "represents s m P v" and wf: "sched_wf P v"
  shows "\<exists>s' m'. sched_tick s m = Some (Inr (s', m')) \<and> represents s' m' P (spec_tick v) \<and>
    sched_wf P (spec_tick v) \<and> heads s' = heads s \<and> same_off (sched_bytes (heads s) P) m m'"
proof -
  consider "cur v = 0 \<or> cur v = idle v" | "cur v \<noteq> 0" "cur v \<noteq> idle v" "vquantum v (cur v) - 1 = 0"
    | "cur v \<noteq> 0" "cur v \<noteq> idle v" "vquantum v (cur v) - 1 \<noteq> 0" by blast
  then show ?thesis
  proof cases
    case 1
    then have "sched_tick s m = Some (Inr (s, m))" "spec_tick v = v"
      using r by (auto simp: sched_tick_def spec_tick_def represents_def Let_def)
    with assms show ?thesis by auto
  next
    case 2
    from tick_expired [OF r wf 2] wf_tick_expired(1) [OF r wf 2] show ?thesis by (auto simp: heads_def)
  next
    case 3
    from tick_running [OF r wf 3] show ?thesis by auto
  qed
qed

section \<open>Choosing the next process\<close>

lemma first_ready_Some:
  "first_ready ls = Some (i, p, ps) \<Longrightarrow> i < length ls \<and> ls ! i = p # ps \<and> (\<forall>j < i. ls ! j = [])"
proof (induction ls arbitrary: i rule: first_ready.induct)
  case (3 ls)
  then show ?case by (auto simp: less_Suc_eq_0_disj split: option.splits)
qed auto

lemma first_ready_None: "first_ready ls = None \<longleftrightarrow> (\<forall>l \<in> set ls. l = [])"
  by (induction ls rule: first_ready.induct) (auto split: option.splits)

lemma pick_loop_spec:
  assumes "length qs = length ls" "\<forall>i < length qs. dll m (qs ! i) (map sched_node (ls ! i))"
  shows "pick_loop literal qs m =
    (case first_ready ls of None \<Rightarrow> Inr (0, m)
     | Some (i, p, ps) \<Rightarrow> Inr (p, snd (list_remove_node (qs ! i) (sched_node p) m)))"
  using assms
proof (induction qs ls rule: list_induct2)
  case (Cons q qs l ls)
  have d: "dll m q (map sched_node l)" using Cons.prems by auto
  have size: "list_get_size q m = U32 (length l)" using kl.count_law [OF d] by simp
  show ?case
  proof (cases l)
    case Nil
    have "\<forall>i < length qs. dll m (qs ! i) (map sched_node (ls ! i))" using Cons.prems by auto
    from Cons.IH [OF this] Nil size show ?thesis by (auto split: option.splits)
  next
    case (Cons p ps)
    have "0 < list_get_size q m"
      using size Cons dll_size_nonzero [OF d] d
      by (auto simp: word_gt_0 list_get_size_def dll_def header_ok_def)
    then show ?thesis using kl.pop_head_law [of m q "sched_node p" "map sched_node ps" literal] d Cons
      by simp
  qed
qed simp

lemma pick_idle_refines:
  assumes r: "represents s m P v" and wf: "sched_wf P v" and none: "first_ready (levels v) = None"
  shows "\<exists>s' m'. sched_pick_next_process literal s m = Inr (s', m') \<and> represents s' m' P (spec_pick v) \<and>
    heads s' = heads s \<and> same_off (sched_bytes (heads s) P) m m'"
proof -
  let ?p = "idle v" and ?m = "set_pcb_state (idle v) STATE_RUNNING m"
  have q: "queues m (heads s) P (levels v @ [waiting v])"
    and w: "words_are P (vstate v) (vprio v) (vquantum v) (vage v) m"
    and len: "length (priority_queues s) = 4" "length (levels v) = 4"
    and p: "?p \<in> P" and cs: "idle_pcb s = idle v"
    using r wf_idle [OF wf] by (auto simp: represents_def)
  have nz: "?p \<noteq> 0" using q p by (auto simp: queues_def dest: arenaD(3))
  have "pick_loop literal (priority_queues s) m = Inr (0, m)"
    using pick_loop_spec [of "priority_queues s" "levels v" m literal] represents_dll [OF r] len none by simp
  then have pick: "sched_pick_next_process literal s m = Inr (s\<lparr>current_pcb := ?p\<rparr>, ?m)"
    using nz cs by (simp add: sched_pick_next_process_def Let_def)
  have "represents (s\<lparr>current_pcb := ?p\<rparr>) ?m P (spec_pick v)"
    using r none set_pcb_keeps(1) [OF q p, of STATE_RUNNING] words_are_set(1) [OF q p w, of STATE_RUNNING]
    by (simp add: spec_pick_def represents_def heads_def)
  with pick set_pcb_keeps(5) [OF q p] show ?thesis by (auto simp: heads_def)
qed

lemma pick_ready_refines:
  assumes r: "represents s m P v" and wf: "sched_wf P v" and some: "first_ready (levels v) = Some (i, p, ps)"
  shows "\<exists>s' m'. sched_pick_next_process literal s m = Inr (s', m') \<and> represents s' m' P (spec_pick v) \<and>
    heads s' = heads s \<and> same_off (sched_bytes (heads s) P) m m'"
proof -
  have q: "queues m (heads s) P (levels v @ [waiting v])"
    and w: "words_are P (vstate v) (vprio v) (vquantum v) (vage v) m"
    and len: "length (priority_queues s) = 4" "length (levels v) = 4"
    using r by (auto simp: represents_def)
  have i: "i < 4" "levels v ! i = p # ps" using first_ready_Some [OF some] len by auto
  have p: "p \<in> P" using level_mem [OF r i(1)] i(2) by simp
  have nz: "p \<noteq> 0" using q p by (auto simp: queues_def dest: arenaD(3))
  obtain m1 where m1: "list_remove_node (heads s ! i) (sched_node p) m = (0, m1)"
    "queues m1 (heads s) P ((levels v @ [waiting v])[i := [] @ ps])" "same_off (link_bytes (heads s) P) m m1"
    using queues_remove [OF q, of i "[]" p ps] i len by (auto simp: heads_def nth_append)
  have q1: "queues m1 (heads s) P ((levels v)[i := ps] @ [waiting v])"
    using m1(2) i len by (simp add: levels_update)
  note w1 = words_are_link [OF q m1(3) w]
  let ?m = "set_pcb_state p STATE_RUNNING m1"
  have "pick_loop literal (priority_queues s) m = Inr (p, m1)"
    using pick_loop_spec [of "priority_queues s" "levels v" m literal] represents_dll [OF r] len some m1(1) i
    by (simp add: heads_level)
  then have pick: "sched_pick_next_process literal s m = Inr (s\<lparr>current_pcb := p\<rparr>, ?m)"
    using nz by (simp add: sched_pick_next_process_def Let_def)
  have "represents (s\<lparr>current_pcb := p\<rparr>) ?m P (spec_pick v)"
    using r some set_pcb_keeps(1) [OF q1 p, of STATE_RUNNING] words_are_set(1) [OF q1 p w1, of STATE_RUNNING]
    by (simp add: spec_pick_def represents_def heads_def)
  with pick same_off_trans [OF link_off_sched [OF m1(3)] set_pcb_keeps(5) [OF q1 p]]
  show ?thesis by (auto simp: heads_def)
qed

lemma wf_pick:
  assumes r: "represents s m P v" and wf: "sched_wf P v"
    and c: "cur v = 0 \<or> cur v = idle v"
  shows "sched_wf P (spec_pick v)" "cur (spec_pick v) \<noteq> 0"
proof -
  have len: "length (levels v) = 4" and ar: "arena (heads s) P"
    using r by (auto simp: represents_def queues_def)
  note idle = wf_idle [OF wf]
  have "sched_wf P (spec_pick v) \<and> cur (spec_pick v) \<noteq> 0"
  proof (cases "first_ready (levels v)")
    case None
    let ?v = "v\<lparr>cur := idle v, vstate := (vstate v)(idle v := state_code STATE_RUNNING)\<rparr>"
    have "sched_wf P ?v"
    proof (rule sched_wfI)
      show "placed_ok P ?v" using idle by (simp add: placed_ok_def queued_def)
      show "level_ok ?v i x" if "i < 4" "x \<in> set (levels ?v ! i)" for i x
        using wf_level [OF wf that(1), of x] that idle queued_iff [OF len, of "idle v"]
        by (auto simp: level_ok_def)
      show "waiting_ok P ?v"
        using sched_wfD(2) [OF wf] idle queued_iff [OF len, of "idle v"] by (auto simp: waiting_ok_def)
      show "running_ok ?v" by (simp add: running_ok_def)
    qed
    then show ?thesis using None arenaD(3) [OF ar] idle by (simp add: spec_pick_def)
  next
    case (Some t)
    then obtain i p ps where t: "first_ready (levels v) = Some (i, p, ps)" by (cases t) auto
    have i: "i < 4" "levels v ! i = p # ps" using first_ready_Some [OF t] len by auto
    have p: "p \<in> P" "p \<notin> set (waiting v)"
      using level_mem [OF r i(1)] waiting_split [OF r i(1)] i(2) by auto
    have ok: "level_ok v i p" using wf_level [OF wf i(1)] i(2) by simp
    let ?v = "v\<lparr>levels := (levels v)[i := ps], cur := p,
        vstate := (vstate v)(p := state_code STATE_RUNNING)\<rparr>"
    have sub: "x \<in> set (levels v ! j) \<and> x \<noteq> p" if "j < 4" "x \<in> set (levels ?v ! j)" for j x
      using that level_distinct [OF r i(1)] level_split [OF r i(1) that(1), of p] i(2) len
      by (cases "j = i") auto
    have "sched_wf P ?v"
    proof (rule sched_wfI)
      have "x \<in> queued v \<and> x \<noteq> p" if "x \<in> queued ?v" for x
        using that sub [of _ x] len p(2) by (auto simp: queued_iff)
      then show "placed_ok P ?v" using idle p(1) by (auto simp: placed_ok_def)
      show "level_ok ?v j x" if "j < 4" "x \<in> set (levels ?v ! j)" for j x
        using wf_level [OF wf that(1), of x] sub [OF that] by (simp add: level_ok_def)
      show "waiting_ok P ?v" using sched_wfD(2) [OF wf] p(2) by (auto simp: waiting_ok_def)
      show "running_ok ?v" using ok i(1) by (simp add: running_ok_def level_ok_def unat_of_nat_u32)
    qed
    then show ?thesis using t arenaD(3) [OF ar p(1)] by (simp add: spec_pick_def)
  qed
  then show "sched_wf P (spec_pick v)" "cur (spec_pick v) \<noteq> 0" by auto
qed

section \<open>The timer interrupt\<close>

lemma age_level_cur [simp]: "cur (age_level k v) = cur v"
proof -
  have "cur (fold (age_one k) ps v) = cur v" for ps
    by (induction ps arbitrary: v) (simp_all add: age_one_def)
  then show ?thesis by (simp add: age_level_def)
qed

lemma spec_tick_cur: "cur (spec_tick v) = 0 \<or> cur (spec_tick v) = cur v"
  by (simp add: spec_tick_def spec_age_def Let_def)

lemma sched_pick_refines:
  assumes r: "represents s m P v" and wf: "sched_wf P v" and c: "cur v = 0 \<or> cur v = idle v"
  shows "\<exists>s' m'. sched_pick_next_process literal s m = Inr (s', m') \<and> represents s' m' P (spec_pick v) \<and>
    sched_wf P (spec_pick v) \<and> cur (spec_pick v) \<noteq> 0 \<and> heads s' = heads s \<and>
    same_off (sched_bytes (heads s) P) m m'"
proof (cases "first_ready (levels v)")
  case None
  from pick_idle_refines [OF r wf None] wf_pick [OF r wf c] show ?thesis by blast
next
  case (Some t)
  then obtain i p ps where "first_ready (levels v) = Some (i, p, ps)" by (cases t) auto
  from pick_ready_refines [OF r wf this] wf_pick [OF r wf c] show ?thesis by blast
qed

definition spec_switch :: "mem \<Rightarrow> sched_view \<Rightarrow> switch" where
  "spec_switch m v =
     (let next = cur (spec_timer v) in
      if cur v = 0 then Bootstrap (pcb_stack m next) (pcb_space_phys m next)
      else if cur (spec_tick v) = 0 then Switch (cur v + 36) (pcb_stack m next) (pcb_space_phys m next)
      else Resume)"

lemma wf_cur_mem: "sched_wf P v \<Longrightarrow> cur v \<noteq> 0 \<Longrightarrow> cur v \<in> P"
  by (auto simp: sched_wf_def placed_ok_def)

lemma sched_timer_ok:
  assumes r: "represents s m P v" and wf: "sched_wf P v"
  shows "\<exists>s' m'. sched_timer_handler literal s m hw =
      Some (Inr (spec_switch m v, s', m', pic_send_eoi 0 hw)) \<and>
    represents s' m' P (spec_timer v) \<and> sched_wf P (spec_timer v) \<and> cur (spec_timer v) \<noteq> 0 \<and>
    heads s' = heads s \<and> same_off (sched_bytes (heads s) P) m m'"
proof -
  have c: "current_pcb s = cur v" and ar: "arena (heads s) P" using r by (auto simp: represents_def queues_def)
  obtain s1 m1 where t: "sched_tick s m = Some (Inr (s1, m1))" "represents s1 m1 P (spec_tick v)"
    "sched_wf P (spec_tick v)" "heads s1 = heads s" "same_off (sched_bytes (heads s) P) m m1"
    using sched_tick_refines [OF r wf] by blast
  have c1: "current_pcb s1 = cur (spec_tick v)" using t(2) by (simp add: represents_def)
  show ?thesis
  proof (cases "cur (spec_tick v) = 0 \<or> cur v = 0")
    case False
    then have "sched_timer_handler literal s m hw = Some (Inr (Resume, s1, m1, pic_send_eoi 0 hw))"
      using t(1) c c1 by (simp add: sched_timer_handler_def Let_def)
    moreover have "spec_switch m v = Resume" "spec_timer v = spec_tick v" "cur (spec_timer v) \<noteq> 0"
      using False by (auto simp: spec_switch_def spec_timer_def Let_def)
    ultimately show ?thesis using t by auto
  next
    case True
    then have st: "spec_timer v = spec_pick (spec_tick v)" by (auto simp: spec_timer_def Let_def)
    have "cur (spec_tick v) = 0 \<or> cur (spec_tick v) = idle (spec_tick v)"
      using True spec_tick_cur [of v] by auto
    from sched_pick_refines [OF t(2,3) this] obtain s2 m2 where
      p: "sched_pick_next_process literal s1 m1 = Inr (s2, m2)" "represents s2 m2 P (spec_timer v)"
      "sched_wf P (spec_timer v)" "cur (spec_timer v) \<noteq> 0" "heads s2 = heads s"
      "same_off (sched_bytes (heads s) P) m1 m2"
      unfolding st t(4) by blast
    note off = same_off_trans [OF t(5) p(6)]
    note ctx = sched_off_context [OF ar wf_cur_mem [OF p(3,4)] off]
    have "sched_timer_handler literal s m hw = Some (Inr (spec_switch m v, s2, m2, pic_send_eoi 0 hw))"
      using t(1) c c1 p(1,2) True ctx
      by (auto simp: sched_timer_handler_def Let_def spec_switch_def represents_def)
    with p off show ?thesis by blast
  qed
qed

section \<open>What a tick does to a waiting process\<close>

text \<open>The scheduling words of a process, with the level it is in.\<close>

definition at_level_with :: "sched_view \<Rightarrow> nat \<Rightarrow> u32 \<Rightarrow> u32 \<Rightarrow> u32 \<Rightarrow> u32 \<Rightarrow> bool" where
  "at_level_with v i p pr qu ag \<longleftrightarrow>
     p \<in> set (levels v ! i) \<and> vprio v p = pr \<and> vquantum v p = qu \<and> vage v p = ag"

lemma age_level_effect:
  assumes r: "represents s m P v" and k: "k < 3" and p: "at_level_with v i p pr qu ag" "i < 4"
  shows "i \<noteq> Suc k \<Longrightarrow> at_level_with (age_level k v) i p pr qu ag"
    and "i = Suc k \<Longrightarrow> stays v p \<Longrightarrow> at_level_with (age_level k v) i p pr qu (ag + 1)"
    and "i = Suc k \<Longrightarrow> \<not> stays v p \<Longrightarrow>
      at_level_with (age_level k v) k p (U32 k) (MLFQ_QUANTUMS ! k) 0"
proof -
  have len: "length (levels v) = 4" using r by (simp add: represents_def)
  note a = age_level_aged [OF r k]
  show "at_level_with (age_level k v) i p pr qu ag" if "i \<noteq> Suc k"
    using that level_split [OF r p(2), of "Suc k" p] p k len unfolding a
    by (auto simp: at_level_with_def aged_def nth_list_update)
  show "at_level_with (age_level k v) i p pr qu (ag + 1)" if "i = Suc k" "stays v p"
    using that p k len unfolding a by (auto simp: at_level_with_def aged_def nth_list_update)
  show "at_level_with (age_level k v) k p (U32 k) (MLFQ_QUANTUMS ! k) 0" if "i = Suc k" "\<not> stays v p"
    using that p k len unfolding a by (auto simp: at_level_with_def aged_def nth_list_update)
qed

lemma spec_age_effect:
  assumes r: "represents s m P v" and wf: "sched_wf P v" and k: "k < 3"
    and p: "at_level_with v (Suc k) p pr qu ag"
  shows "if AGE_TICK_MAX \<le> ag + 1 then at_level_with (spec_age v) k p (U32 k) (MLFQ_QUANTUMS ! k) 0
    else at_level_with (spec_age v) (Suc k) p pr qu (ag + 1)"
proof -
  let ?v1 = "age_level 0 v" and ?v2 = "age_level 1 (age_level 0 v)"
  obtain m1 where r1: "represents s m1 P ?v1" "sched_wf P ?v1"
    using age_level_refines [OF r, of 0] wf by auto
  obtain m2 where r2: "represents s m2 P ?v2"
    using age_level_refines [OF r1(1), of 1] r1(2) by auto
  have ag: "stays v p \<longleftrightarrow> \<not> AGE_TICK_MAX \<le> ag + 1" if "at_level_with v i p pr qu ag" for v i
    using that by (simp add: stays_def at_level_with_def)
  consider "k = 0" | "k = 1" | "k = 2" using k by linarith
  then show ?thesis
  proof cases
    case 1
    note e = age_level_effect(2,3) [OF r, of 0 "Suc 0" p pr qu ag]
    show ?thesis
      using p e ag [OF p] age_level_effect(1) [OF r1(1), of 1] age_level_effect(1) [OF r2, of 2] 1
      unfolding spec_age_def by auto
  next
    case 2
    have p1: "at_level_with ?v1 2 p pr qu ag" using age_level_effect(1) [OF r, of 0 2] p 2 by (simp add: numeral_2_eq_2)
    note e = age_level_effect(2,3) [OF r1(1), of 1 2 p pr qu ag]
    show ?thesis
      using p1 e ag [OF p1] age_level_effect(1) [OF r2, of 2] 2 unfolding spec_age_def
      by (auto simp: numeral_2_eq_2)
  next
    case 3
    have p1: "at_level_with ?v1 3 p pr qu ag" using age_level_effect(1) [OF r, of 0 3] p 3 by (simp add: numeral_3_eq_3)
    have p2: "at_level_with ?v2 3 p pr qu ag" using age_level_effect(1) [OF r1(1), of 1 3] p1 by simp
    note e = age_level_effect(2,3) [OF r2, of 2 3 p pr qu ag]
    show ?thesis using p2 e ag [OF p2] 3 unfolding spec_age_def by (auto simp: numeral_3_eq_3)
  qed
qed

lemma age_level_unqueued:
  assumes "represents s m P v" "k < 3" "x \<notin> queued v"
  shows "vquantum (age_level k v) x = vquantum v x" "x \<notin> queued (age_level k v)"
proof -
  have len: "length (levels v) = 4" using assms(1) by (simp add: represents_def)
  have out: "x \<notin> set (levels v ! i)" if "i < 4" for i
    using assms(3) that by (auto simp: queued_iff [OF len])
  have len': "length (levels (aged k [] (levels v ! Suc k) v)) = 4" using len by simp
  show "vquantum (age_level k v) x = vquantum v x"
    unfolding age_level_aged [OF assms(1,2)] using out [of "Suc k"] assms(2) by (simp add: aged_def)
  show "x \<notin> queued (age_level k v)"
    unfolding age_level_aged [OF assms(1,2)] queued_iff [OF len']
    using out assms(2,3) len queued_iff [OF len, of x]
    by (auto simp: aged_def nth_list_update split: if_splits)
qed

lemma spec_age_unqueued:
  assumes r: "represents s m P v" and wf: "sched_wf P v" and x: "x \<notin> queued v"
  shows "vquantum (spec_age v) x = vquantum v x"
proof -
  obtain m1 where r1: "represents s m1 P (age_level 0 v)" "sched_wf P (age_level 0 v)"
    using age_level_refines [OF r, of 0] wf by auto
  obtain m2 where r2: "represents s m2 P (age_level 1 (age_level 0 v))"
    using age_level_refines [OF r1(1), of 1] r1(2) by auto
  note a0 = age_level_unqueued [OF r _ x, of 0]
  note a1 = age_level_unqueued [OF r1(1) _ a0(2), of 1]
  note a2 = age_level_unqueued [OF r2 _ a1(2), of 2]
  from a0 a1 a2 show ?thesis by (simp add: spec_age_def)
qed

section \<open>Waking a process\<close>

definition spec_unblock :: "u32 \<Rightarrow> sched_view \<Rightarrow> sched_view" where
  "spec_unblock p v =
     (if p \<in> set (waiting v) then
        let i = unat (vprio v p) in
        v\<lparr>waiting := remove1 p (waiting v), levels := (levels v)[i := levels v ! i @ [p]],
          vstate := (vstate v)(p := state_code STATE_READY), vage := (vage v)(p := 0),
          vquantum := (vquantum v)(p := MLFQ_QUANTUMS ! i)\<rparr>
      else v)"

lemma waiting_update: "length (levels v) = 4 \<Longrightarrow>
    (levels v @ [waiting v])[4 := xs] = levels v @ [xs]"
  by (simp add: list_update_append)

lemma unblock_waiting:
  assumes r: "represents s m P v" and wf: "sched_wf P v" and p: "p \<in> set (waiting v)"
  shows "\<exists>m'. sched_unblock_process p s m = Inr m' \<and> represents s m' P (spec_unblock p v) \<and>
    same_off (sched_bytes (heads s) P) m m'"
proof -
  let ?H = "heads s" and ?i = "unat (vprio v p)"
  have q: "queues m ?H P (levels v @ [waiting v])"
    and w: "words_are P (vstate v) (vprio v) (vquantum v) (vage v) m"
    and len: "length (priority_queues s) = 4" "length (levels v) = 4"
    and cs: "current_pcb s = cur v" "idle_pcb s = idle v"
    using r by (auto simp: represents_def)
  have st: "vstate v p = state_code STATE_WAITING" "?i < 4"
    using sched_wfD(2) [OF wf] p by (auto simp: waiting_ok_def)
  obtain us vs where ws: "waiting v = us @ p # vs" "p \<notin> set us" using p by (metis split_list_first)
  have L: "(levels v @ [waiting v]) ! 4 = us @ p # vs" "4 < length ?H" "?H ! 4 = waiting_queue s"
    using len ws by (simp_all add: nth_append heads_def)
  obtain m1 where m1: "list_remove_node (waiting_queue s) (sched_node p) m = (0, m1)"
    "queues m1 ?H P (levels v @ [us @ vs])" "same_off (link_bytes ?H P) m m1" "p \<in> P"
    "p \<notin> set (concat (levels v @ [us @ vs]))"
    using queues_remove [OF q L(2,1)] unfolding L(3) waiting_update [OF len(2)] by blast
  note w1 = words_are_link [OF q m1(3) w]
  let ?m2 = "set_pcb_state p STATE_READY m1"
  note k2 = set_pcb_keeps(1,5) [OF m1(2,4), of STATE_READY]
    and w2 = words_are_set(1) [OF m1(2,4) w1, of STATE_READY]
  let ?m3 = "set_pcb_age p 0 ?m2"
  note k3 = set_pcb_keeps(4,8) [OF k2(1) m1(4), of 0] and w3 = words_are_set(4) [OF k2(1) m1(4) w2, of 0]
  let ?m4 = "set_pcb_quantum p (MLFQ_QUANTUMS ! ?i) ?m3"
  note k4 = set_pcb_keeps(3,7) [OF k3(1) m1(4), of "MLFQ_QUANTUMS ! ?i"]
    and w4 = words_are_set(3) [OF k3(1) m1(4) w3, of "MLFQ_QUANTUMS ! ?i"]
  have rd: "pcb_state m p = state_code STATE_WAITING" "pcb_priority ?m3 p = vprio v p"
    "pcb_priority ?m4 p = vprio v p" "pcb_state ?m4 p = state_code STATE_READY"
    using w w3 w4 m1(4) st by (simp_all add: words_are_def)
  have "\<exists>m'. sched_enqueue p s ?m4 = Inr m' \<and>
    queues m' ?H P ((levels (v\<lparr>waiting := us @ vs\<rparr>))[unat (pcb_priority ?m4 p) :=
      levels (v\<lparr>waiting := us @ vs\<rparr>) ! unat (pcb_priority ?m4 p) @ [p]] @ [waiting (v\<lparr>waiting := us @ vs\<rparr>)]) \<and>
    same_off (link_bytes ?H P) ?m4 m'"
    by (rule enqueue_ready_refines) (use k4 m1(4,5) len rd st(2) in simp_all)
  then obtain m5 where m5: "sched_enqueue p s ?m4 = Inr m5"
    "queues m5 ?H P ((levels v)[?i := levels v ! ?i @ [p]] @ [us @ vs])"
    "same_off (link_bytes ?H P) ?m4 m5"
    unfolding rd(3) by auto
  note w5 = words_are_link [OF k4(1) m5(3) w4]
  have "p \<noteq> 0" using q m1(4) by (auto simp: queues_def dest: arenaD(3))
  moreover have "at_level MLFQ_QUANTUMS (vprio v p) = Inr (MLFQ_QUANTUMS ! ?i)"
    using st(2) by (simp add: at_level_def MLFQ_QUANTUMS_def)
  ultimately have "sched_unblock_process p s m = Inr m5"
    using m1(1) m5(1) rd by (simp add: sched_unblock_process_def Let_def)
  moreover have "remove1 p (waiting v) = us @ vs" using ws by (simp add: remove1_append)
  then have "represents s m5 P (spec_unblock p v)"
    using m5(2) w5 p len cs by (simp add: represents_def spec_unblock_def Let_def)
  moreover have "same_off (sched_bytes ?H P) m m5"
    by (rule same_off_trans [OF same_off_trans [OF same_off_trans [OF same_off_trans
      [OF link_off_sched [OF m1(3)] k2(2)] k3(2)] k4(2)] link_off_sched [OF m5(3)]])
  ultimately show ?thesis by blast
qed

lemma wf_unblock:
  assumes r: "represents s m P v" and wf: "sched_wf P v" and p: "p \<in> set (waiting v)"
  shows "sched_wf P (spec_unblock p v)"
proof -
  let ?i = "unat (vprio v p)" and ?v = "spec_unblock p v"
  have len: "length (levels v) = 4" and d: "distinct (waiting v)"
    using r by (auto simp: represents_def queues_def)
  have i: "?i < 4" using sched_wfD(2) [OF wf] p by (auto simp: waiting_ok_def)
  have v: "?v = v\<lparr>waiting := remove1 p (waiting v), levels := (levels v)[?i := levels v ! ?i @ [p]],
      vstate := (vstate v)(p := state_code STATE_READY), vage := (vage v)(p := 0),
      vquantum := (vquantum v)(p := MLFQ_QUANTUMS ! ?i)\<rparr>"
    using p by (simp add: spec_unblock_def Let_def)
  have lev: "x = p \<and> j = ?i \<or> x \<noteq> p \<and> x \<in> set (levels v ! j)" if "j < 4" "x \<in> set (levels ?v ! j)" for j x
    using that waiting_split [OF r that(1), of p] p len i by (cases "j = ?i") (auto simp: v)
  have len': "length (levels ?v) = 4" using len by (simp add: v)
  have qd: "x \<in> queued v" if "x \<in> queued ?v" for x
    using that lev [of _ x] p d unfolding queued_iff [OF len'] queued_iff [OF len] by (auto simp: v)
  have p': "p \<in> queued v" using p by (simp add: queued_iff [OF len])
  show ?thesis
  proof (rule sched_wfI)
    show "placed_ok P ?v" using sched_wfD(1) [OF wf] qd by (auto simp: placed_ok_def v)
    show "level_ok ?v j x" if "j < 4" "x \<in> set (levels ?v ! j)" for j x
      using lev [OF that] wf_level [OF wf that(1), of x] MLFQ_nonzero [OF i] by (auto simp: v level_ok_def)
    show "waiting_ok P ?v" using sched_wfD(2) [OF wf] d by (auto simp: waiting_ok_def v)
    show "running_ok ?v"
      using sched_wfD(1,3) [OF wf] p' by (auto simp: running_ok_def placed_ok_def v)
  qed
qed

lemma sched_unblock_ok:
  assumes r: "represents s m P v" and wf: "sched_wf P v" and p: "p \<in> P"
  shows "\<exists>m'. sched_unblock_process p s m = Inr m' \<and> represents s m' P (spec_unblock p v) \<and>
    sched_wf P (spec_unblock p v) \<and> same_off (sched_bytes (heads s) P) m m'"
proof (cases "p \<in> set (waiting v)")
  case True
  from unblock_waiting [OF r wf True] wf_unblock [OF r wf True] show ?thesis by blast
next
  case False
  then have "vstate v p \<noteq> state_code STATE_WAITING"
    using sched_wfD(2) [OF wf] p by (auto simp: waiting_ok_def)
  then have "pcb_state m p \<noteq> state_code STATE_WAITING"
    using r p by (auto simp: represents_def words_are_def)
  then have "sched_unblock_process p s m = Inr m" "spec_unblock p v = v"
    using False by (simp_all add: sched_unblock_process_def spec_unblock_def)
  with r wf show ?thesis by auto
qed

section \<open>Runs of the scheduler\<close>

lemma represents_same:
  assumes "represents s m P v" "same_on (sched_bytes (heads s) P) m m'"
  shows "represents s m' P v"
proof -
  have q: "queues m (heads s) P (levels v @ [waiting v])" and ar: "arena (heads s) P"
    using assms(1) by (auto simp: represents_def queues_def)
  have "same_on (link_bytes (heads s) P) m m'"
    by (rule same_on_mono [OF assms(2)]) (auto simp: sched_bytes_def)
  from queues_same [OF q this] have q': "queues m' (heads s) P (levels v @ [waiting v])" .
  have rd: "load32 m' (p + U32 k) = load32 m (p + U32 k)" if p: "p \<in> P" and k: "12 \<le> k" "k \<le> 24" for p k
  proof (rule load32_same_on [OF assms(2)])
    have fp: "fits p 40" by (rule arenaD(4) [OF ar p])
    have u: "unat (p + U32 k) = unat p + k" "unat (p + 12) = unat p + 12"
      using unat_offset [OF fp, of k] unat_offset [OF fp, of 12] k by simp_all
    show "fits (p + U32 k) 4" using fp u k by (simp add: fits_def)
    have "bytes (p + U32 k) 4 \<subseteq> bytes (p + 12) 16" using u k by (auto simp: bytes_def in_range_def)
    then show "bytes (p + U32 k) 4 \<subseteq> sched_bytes (heads s) P" using p by (auto simp: sched_bytes_def)
  qed
  have "words_are P (vstate v) (vprio v) (vquantum v) (vage v) m'"
    using assms(1) rd [of _ 12] rd [of _ 16] rd [of _ 20] rd [of _ 24]
    by (simp add: represents_def words_are_def pcb_defs)
  with assms(1) q' show ?thesis by (simp add: represents_def)
qed

text \<open>Timer interrupts, wake-ups of any process, and whatever the processes do in between,
  which may change all memory but the scheduler's own.  \<open>sched_block_process\<close> is no step of these
  runs: a block followed by an expired quantum breaks the queues, as is shown below.\<close>

inductive sched_run :: "u32 \<Rightarrow> u32 set \<Rightarrow> Scheduler \<Rightarrow> mem \<Rightarrow> bool" for literal P where
  start: "represents s m P v \<Longrightarrow> sched_wf P v \<Longrightarrow> sched_run literal P s m"
| timer: "sched_run literal P s m \<Longrightarrow>
    sched_timer_handler literal s m hw = Some (Inr (sw, s', m', hw')) \<Longrightarrow> sched_run literal P s' m'"
| wake: "sched_run literal P s m \<Longrightarrow> p \<in> P \<Longrightarrow> sched_unblock_process p s m = Inr m' \<Longrightarrow>
    sched_run literal P s m'"
| others: "sched_run literal P s m \<Longrightarrow> same_on (sched_bytes (heads s) P) m m' \<Longrightarrow> sched_run literal P s m'"

lemma sched_run_inv: "sched_run literal P s m \<Longrightarrow> \<exists>v. represents s m P v \<and> sched_wf P v"
proof (induction rule: sched_run.induct)
  case (timer s m hw sw s' m' hw')
  then obtain v where "represents s m P v" "sched_wf P v" by blast
  from sched_timer_ok [OF this, of literal hw] timer.hyps(2) show ?case by auto
next
  case (wake s m p m')
  then obtain v where "represents s m P v" "sched_wf P v" by blast
  from sched_unblock_ok [OF this wake.hyps(2)] wake.hyps(3) show ?case by auto
next
  case (others s m m')
  then show ?case using represents_same by blast
qed blast

section \<open>A node pushed twice\<close>

text \<open>Pushing the last process of the waiting queue onto a level without unlinking it first.\<close>

lemma double_push_breaks:
  assumes q: "queues m (heads s) P (ls @ [ws @ [p]])" and len: "length (priority_queues s) = 4"
    "length ls = 4" and i: "i < 4"
  shows "\<not> dll (snd (list_push_tail (priority_queues s ! i) (sched_node p) m)) (waiting_queue s) xs"
proof
  let ?H = "heads s" and ?W = "waiting_queue s" and ?n = "sched_node p" and ?Q = "priority_queues s ! i"
  let ?N = "set ?H \<union> sched_node ` P" and ?t = "node_prev m (priority_queues s ! i)"
  let ?m1 = "list_add ?n ?t ?Q m"
  let ?m2 = "snd (list_push_tail ?Q ?n m)"
  assume "dll ?m2 ?W xs"
  note ends = dll_ends(2) [OF this] dll_last [OF this]
  have ar: "arena ?H P" and sub: "p \<in> P" and dis: "p \<notin> set (ls ! i)"
    using q distinct_concat_disjoint [of "ls @ [ws @ [p]]" 4 i p] len i by (auto simp: queues_def nth_append)
  have H: "?Q \<in> set ?H" "?W \<in> set ?H" "?W \<noteq> ?Q" "4 < length ?H" "?H ! 4 = ?W" "?H ! i = ?Q"
    using len i ar by (auto simp: heads_def nth_append arena_def)
  have dQ: "dll m ?Q (map sched_node (ls ! i))" and dW: "dll m ?W (map sched_node (ws @ [p]))"
    using queues_dll [OF q, of i] queues_dll [OF q H(4)] H len i by (auto simp: nth_append heads_def)
  have t: "?t = last (?Q # map sched_node (ls ! i))" by (rule dll_ends(2) [OF dQ])
  have ok: "nodes_ok ?N" by (rule arena_all_nodes [OF ar])
  have hd: "header_ok ?Q (?N - {?Q})" by (rule arena_head_apart [OF ar H(1)])
  have ok': "nodes_ok (?N - {?Q})" by (rule nodes_ok_mono [OF ok]) blast
  have "?n \<in> sched_node ` P" using sub by (rule imageI)
  then have n: "?n \<in> ?N" "?n \<noteq> ?Q" "?n \<noteq> ?W"
    using header_not_node [OF arena_header [OF ar subset_refl H(1)]]
      header_not_node [OF arena_header [OF ar subset_refl H(2)]] by auto
  have nz: "?n \<noteq> 0" "?Q \<noteq> 0" using ok n(1) H(1) by (auto simp: nodes_ok_def)
  have "set (ls ! i) \<subseteq> P" using queues_mem [OF q, of i] len i by (auto simp: heads_def nth_append)
  then have tN: "?t \<in> ?N" "?t \<noteq> ?n" unfolding t using dis H(1) n(2) by (cases "ls ! i" rule: rev_cases; auto)+
  have "node_next ?m1 ?n = ?Q" "node_prev ?m1 ?W = node_prev m ?W"
    using n tN H by (simp_all add: list_add_def Let_def node_fields [OF ok])
  moreover have "?m2 = set_list_size ?Q (list_size ?m1 ?Q + 1) ?m1"
    using nz by (simp add: list_push_tail_def Let_def)
  ultimately have "node_next ?m2 ?n = ?Q" "node_prev ?m2 ?W = node_prev m ?W"
    using header_fields(1,2) [OF hd _ ok'] n(1) H(2) by auto
  moreover have "node_prev m ?W = ?n" using dll_ends(2) [OF dW] by simp
  ultimately show False using ends H(3) by simp
qed

section \<open>Every well-formed view is represented\<close>

lemma exists_words:
  assumes "queues m H P Ls" "set ps \<subseteq> P" "distinct ps"
  shows "\<exists>m'. queues m' H P Ls \<and> words_are (set ps) (\<lambda>x. state_code (f x)) pr qu ag m'"
  using assms(2,3)
proof (induction ps)
  case Nil
  then show ?case using assms(1) by (auto simp: words_are_def)
next
  case (Cons p ps)
  then obtain m1 where m1: "queues m1 H P Ls" "words_are (set ps) (\<lambda>x. state_code (f x)) pr qu ag m1" by auto
  have p: "p \<in> P" using Cons.prems by simp
  have ar: "arena H P" using assms(1) by (simp add: queues_def)
  let ?m = "set_pcb_state p (f p) (set_pcb_priority p (pr p) (set_pcb_quantum p (qu p) (set_pcb_age p (ag p) m1)))"
  have "queues ?m H P Ls" by (intro set_pcb_keeps p m1(1))
  moreover have "words_are (set (p # ps)) (\<lambda>x. state_code (f x)) pr qu ag ?m"
    using m1(2) Cons.prems p by (auto simp: words_are_def pcb_fields [OF ar])
  ultimately show ?case by blast
qed

lemma represents_exists:
  assumes "arena (heads s) (set ps)" "distinct ps" "length (priority_queues s) = 4" "length (levels v) = 4"
    and "distinct (concat (levels v @ [waiting v]))" "set (concat (levels v @ [waiting v])) \<subseteq> set ps"
    and "vstate v = (\<lambda>x. state_code (f x))" "current_pcb s = cur v" "idle_pcb s = idle v"
  shows "\<exists>m. represents s m (set ps) v"
proof -
  have "length (levels v @ [waiting v]) = length (heads s)" using assms(3,4) by (simp add: heads_def)
  with exists_queues [OF assms(1) _ assms(5,6)] obtain m where
    "queues m (heads s) (set ps) (levels v @ [waiting v])" by blast
  from exists_words [OF this subset_refl assms(2), of f "vprio v" "vquantum v" "vage v"] assms
  show ?thesis by (auto simp: represents_def)
qed

section \<open>Concrete states\<close>

text \<open>A scheduler with its five lists at \<open>0x1000\<close> to \<open>0x1400\<close>, the idle process at
  \<open>0x5000\<close> and two more processes; the running process and one at level 1 are given by their
  scheduling words.\<close>

definition demo_sched :: "u32 \<Rightarrow> Scheduler" where
  "demo_sched c = \<lparr>priority_queues = [0x1000, 0x1100, 0x1200, 0x1300], waiting_queue = 0x1400,
     current_pcb = c, idle_pcb = 0x5000\<rparr>"

definition demo_view :: "u32 \<Rightarrow> u32 list list \<Rightarrow> u32 list \<Rightarrow> ProcessState \<Rightarrow> u32 \<Rightarrow> u32 \<Rightarrow> u32 \<Rightarrow> sched_view" where
  "demo_view c ls ws st7 pr7 qu6 ag7 = \<lparr>levels = ls, waiting = ws, cur = c, idle = 0x5000,
     vstate = (\<lambda>x. state_code (if x = 0x7000 then st7 else STATE_RUNNING)),
     vprio = (\<lambda>x. if x = 0x7000 then pr7 else 0),
     vquantum = (\<lambda>x. if x = 0x6000 then qu6 else 80),
     vage = (\<lambda>x. if x = 0x7000 then ag7 else 0)\<rparr>"

lemma demo_arena: "arena (heads (demo_sched c)) (set [0x5000, 0x6000, 0x7000])"
  by (simp add: arena_def heads_def demo_sched_def fits_def apart_def)

lemma demo_represents:
  assumes "length ls = 4" "distinct (concat (ls @ [ws]))"
    "set (concat (ls @ [ws])) \<subseteq> set [0x5000, 0x6000, 0x7000]"
  shows "\<exists>m. represents (demo_sched c) m (set [0x5000, 0x6000, 0x7000]) (demo_view c ls ws st7 pr7 qu6 ag7)"
  using assms
  by (intro represents_exists [OF demo_arena, where f = "\<lambda>x. if x = 0x7000 then st7 else STATE_RUNNING"])
    (simp_all add: demo_sched_def demo_view_def)

section \<open>Properties\<close>

text \<open>C28: the timer interrupt implements the abstract scheduler.  In every well-formed state it
  returns without a fault, sends the end of interrupt, leaves memory representing the abstract
  successor state, which is well formed again and has a current process, passes the stack
  pointer and page directory of exactly that process to the switch, and writes nothing but
  list headers, links and the four scheduling words.\<close>

theorem sched_timer_refines:
  assumes "represents s m P v" "sched_wf P v"
  shows "\<exists>s' m'. sched_timer_handler literal s m hw =
      Some (Inr (spec_switch m v, s', m', pic_send_eoi 0 hw)) \<and>
    represents s' m' P (spec_timer v) \<and> sched_wf P (spec_timer v) \<and> cur (spec_timer v) \<noteq> 0 \<and>
    same_off (sched_bytes (heads s) P) m m'"
  using sched_timer_ok [OF assms] by blast

theorem sched_timer_refines_witness:
  "\<exists>m s' m'. sched_timer_handler 0x500 (demo_sched 0) m \<lparr>ports = [], framebuffer = (\<lambda>_. 0)\<rparr> =
      Some (Inr (Bootstrap (pcb_stack m 0x7000) (pcb_space_phys m 0x7000), s', m',
        pic_send_eoi 0 \<lparr>ports = [], framebuffer = (\<lambda>_. 0)\<rparr>)) \<and> current_pcb s' = 0x7000"
proof -
  let ?P = "set [0x5000, 0x6000, 0x7000]" and ?v = "demo_view 0 [[], [0x7000], [], []] [] STATE_READY 1 40 0"
  obtain m where m: "represents (demo_sched 0) m ?P ?v"
    using demo_represents [of "[[], [0x7000], [], []]" "[]" 0 STATE_READY 1 40 0] by auto
  have wf: "sched_wf ?P ?v"
    by (auto simp: wf_defs all_less4 demo_view_def)
  have "spec_tick ?v = ?v" by (simp add: spec_tick_def demo_view_def)
  then have c: "cur (spec_timer ?v) = 0x7000" "cur ?v = 0"
    by (simp_all add: spec_timer_def spec_pick_def demo_view_def Let_def)
  then have "spec_switch m ?v = Bootstrap (pcb_stack m 0x7000) (pcb_space_phys m 0x7000)"
    by (simp add: spec_switch_def)
  with sched_timer_refines [OF m wf, of "0x500" "\<lparr>ports = [], framebuffer = (\<lambda>_. 0)\<rparr>"] c(1)
  show ?thesis by (auto simp: represents_def)
qed

text \<open>C29: in every run of timer interrupts, wake-ups and writes outside the scheduler's memory, with no call of
  \<open>sched_block_process\<close> (for which C31 shows that it does not hold), the timer interrupt
  returns without a fault and leaves a current process, which is in no queue; no process is
  ever in two queues.\<close>

theorem sched_run_safe:
  assumes "sched_run literal P s m"
  shows "\<exists>sw s' m' v'. sched_timer_handler literal s m hw = Some (Inr (sw, s', m', pic_send_eoi 0 hw)) \<and>
    current_pcb s' \<in> P \<and> represents s' m' P v' \<and> distinct (concat (levels v') @ waiting v') \<and>
    current_pcb s' \<notin> set (concat (levels v')) \<union> set (waiting v')"
proof -
  obtain v where "represents s m P v" "sched_wf P v" using sched_run_inv [OF assms] by blast
  from sched_timer_ok [OF this, of literal hw] obtain s' m' where
    t: "sched_timer_handler literal s m hw = Some (Inr (spec_switch m v, s', m', pic_send_eoi 0 hw))"
    "represents s' m' P (spec_timer v)" "sched_wf P (spec_timer v)" "cur (spec_timer v) \<noteq> 0" by blast
  have "current_pcb s' = cur (spec_timer v)" using t(2) by (simp add: represents_def)
  moreover have "cur (spec_timer v) \<in> P" "cur (spec_timer v) \<notin> queued (spec_timer v)"
    using sched_wfD(1) [OF t(3)] t(4) by (auto simp: placed_ok_def)
  moreover have "distinct (concat (levels (spec_timer v)) @ waiting (spec_timer v))"
    using t(2) by (simp add: represents_def queues_def)
  moreover have "queued (spec_timer v) = set (concat (levels (spec_timer v))) \<union> set (waiting (spec_timer v))"
    by (simp add: queued_def)
  ultimately show ?thesis using t(1,2) by metis
qed

theorem sched_run_safe_witness:
  "\<exists>m sw s' m' hw. sched_run 0x500 (set [0x5000, 0x6000, 0x7000]) (demo_sched 0x6000) m \<and>
     sched_timer_handler 0x500 (demo_sched 0x6000) m \<lparr>ports = [], framebuffer = (\<lambda>_. 0)\<rparr> =
       Some (Inr (sw, s', m', hw))"
proof -
  let ?v = "demo_view 0x6000 [[], [0x7000], [], []] [] STATE_READY 1 40 0"
  obtain m where m: "represents (demo_sched 0x6000) m (set [0x5000, 0x6000, 0x7000]) ?v"
    using demo_represents [of "[[], [0x7000], [], []]" "[]" "0x6000" STATE_READY 1 40 0] by auto
  have "sched_wf (set [0x5000, 0x6000, 0x7000]) ?v" by (auto simp: wf_defs all_less4 demo_view_def)
  with m have run: "sched_run 0x500 (set [0x5000, 0x6000, 0x7000]) (demo_sched 0x6000) m"
    by (rule sched_run.start)
  from sched_run_safe [OF run, of "\<lparr>ports = [], framebuffer = (\<lambda>_. 0)\<rparr>"] run show ?thesis by blast
qed

text \<open>With no current process the scheduler chooses the process that has been longest in the
  highest nonempty level, and the idle process exactly when all levels are empty.\<close>

theorem sched_pick_highest:
  assumes "represents s m P v" "sched_wf P v" "cur v = 0"
  shows "\<exists>s' m'. sched_pick_next_process literal s m = Inr (s', m') \<and>
    ((\<forall>i < 4. levels v ! i = []) \<and> current_pcb s' = idle_pcb s \<or>
     (\<exists>i < 4. \<exists>ps. levels v ! i = current_pcb s' # ps \<and> (\<forall>j < i. levels v ! j = []))) \<and>
    pcb_state m' (current_pcb s') = state_code STATE_RUNNING"
proof -
  have len: "length (levels v) = 4" and id: "idle_pcb s = idle v"
    using assms(1) by (auto simp: represents_def)
  obtain s' m' where p: "sched_pick_next_process literal s m = Inr (s', m')"
    "represents s' m' P (spec_pick v)" "sched_wf P (spec_pick v)" "cur (spec_pick v) \<noteq> 0"
    using sched_pick_refines [OF assms(1,2)] assms(3) by blast
  have c: "current_pcb s' = cur (spec_pick v)" using p(2) by (simp add: represents_def)
  have "vstate (spec_pick v) (cur (spec_pick v)) = state_code STATE_RUNNING"
    by (auto simp: spec_pick_def split: option.splits)
  then have "pcb_state m' (current_pcb s') = state_code STATE_RUNNING"
    using p(2) wf_cur_mem [OF p(3,4)] unfolding c represents_def words_are_def by simp
  moreover have "(\<forall>i < 4. levels v ! i = []) \<and> current_pcb s' = idle_pcb s \<or>
     (\<exists>i < 4. \<exists>ps. levels v ! i = current_pcb s' # ps \<and> (\<forall>j < i. levels v ! j = []))"
  proof (cases "first_ready (levels v)")
    case None
    then show ?thesis using first_ready_None [of "levels v"] len c id by (simp add: spec_pick_def)
  next
    case (Some t)
    then obtain i p ps where t: "first_ready (levels v) = Some (i, p, ps)" by (cases t) auto
    with first_ready_Some [OF t] len c show ?thesis by (auto simp: spec_pick_def)
  qed
  ultimately show ?thesis using p(1) by blast
qed

theorem sched_pick_highest_witness:
  "\<exists>m s' m'. sched_pick_next_process 0x500 (demo_sched 0) m = Inr (s', m') \<and> current_pcb s' = 0x7000"
proof -
  let ?v = "demo_view 0 [[], [0x7000], [], []] [] STATE_READY 1 40 0"
  obtain m where m: "represents (demo_sched 0) m (set [0x5000, 0x6000, 0x7000]) ?v"
    using demo_represents [of "[[], [0x7000], [], []]" "[]" 0 STATE_READY 1 40 0] by auto
  have "sched_wf (set [0x5000, 0x6000, 0x7000]) ?v" by (auto simp: wf_defs all_less4 demo_view_def)
  from sched_pick_highest [OF m this, of "0x500"] show ?thesis
    by (fastforce simp: demo_view_def less_Suc_eq numeral_eq_Suc)
qed

text \<open>When the quantum of the running process is used up, it becomes ready one level lower
  (level 3 at the lowest) with the full quantum of that level, at the end of that level's
  queue, and there is no current process.\<close>

theorem sched_tick_demotes:
  assumes "represents s m P v" "sched_wf P v" "cur v \<noteq> 0" "cur v \<noteq> idle v" "vquantum v (cur v) = 1"
  defines "l \<equiv> min 3 (Suc (unat (vprio v (cur v))))"
  shows "\<exists>m' v'. sched_tick s m = Some (Inr (s\<lparr>current_pcb := 0\<rparr>, m')) \<and>
    represents (s\<lparr>current_pcb := 0\<rparr>) m' P v' \<and> levels v' = (levels v)[l := levels v ! l @ [cur v]] \<and>
    pcb_state m' (cur v) = state_code STATE_READY \<and> unat (pcb_priority m' (cur v)) = l \<and>
    pcb_quantum m' (cur v) = MLFQ_QUANTUMS ! l"
proof -
  have ex: "vquantum v (cur v) - 1 = 0" using assms(5) by simp
  note p = wf_running [OF assms(2-4)]
  obtain m' where t: "sched_tick s m = Some (Inr (s\<lparr>current_pcb := 0\<rparr>, m'))"
    "represents (s\<lparr>current_pcb := 0\<rparr>) m' P (spec_tick v)"
    using tick_expired [OF assms(1-4) ex] by blast
  note l = expired_level [OF p(4), folded l_def]
  have sp: "levels (spec_tick v) = (levels v)[l := levels v ! l @ [cur v]]"
    "vstate (spec_tick v) (cur v) = state_code STATE_READY" "unat (vprio (spec_tick v) (cur v)) = l"
    "vquantum (spec_tick v) (cur v) = MLFQ_QUANTUMS ! l"
    using assms(3,4) ex l unfolding spec_tick_def Let_def by simp_all
  have "pcb_state m' (cur v) = vstate (spec_tick v) (cur v)"
    "pcb_priority m' (cur v) = vprio (spec_tick v) (cur v)"
    "pcb_quantum m' (cur v) = vquantum (spec_tick v) (cur v)"
    using t(2) p(1) by (auto simp: represents_def words_are_def)
  with t sp show ?thesis by auto
qed

theorem sched_tick_demotes_witness:
  "\<exists>m m'. sched_tick (demo_sched 0x6000) m = Some (Inr (demo_sched 0, m')) \<and>
     unat (pcb_priority m' 0x6000) = 1 \<and> pcb_quantum m' 0x6000 = 80"
proof -
  let ?v = "demo_view 0x6000 [[], [0x7000], [], []] [] STATE_READY 1 1 0"
  obtain m where m: "represents (demo_sched 0x6000) m (set [0x5000, 0x6000, 0x7000]) ?v"
    using demo_represents [of "[[], [0x7000], [], []]" "[]" "0x6000" STATE_READY 1 1 0] by auto
  have "sched_wf (set [0x5000, 0x6000, 0x7000]) ?v" by (auto simp: wf_defs all_less4 demo_view_def)
  from sched_tick_demotes [OF m this] show ?thesis
    by (auto simp: demo_view_def demo_sched_def MLFQ_QUANTUMS_def)
qed

text \<open>Every tick on which the running process keeps the processor ages each process of
  levels 1 to 3 by exactly one tick; one whose age reaches 600 moves to the next higher level
  with that level's full quantum and age 0, once per tick.\<close>

theorem sched_tick_ages:
  assumes "represents s m P v" "sched_wf P v" "cur v \<noteq> 0" "cur v \<noteq> idle v" "1 < vquantum v (cur v)"
    and "k < 3" "p \<in> set (levels v ! Suc k)"
  shows "\<exists>m' v'. sched_tick s m = Some (Inr (s, m')) \<and> represents s m' P v' \<and>
    pcb_quantum m' (cur v) = pcb_quantum m (cur v) - 1 \<and>
    (if unat (pcb_age m p) + 1 = 600
     then p \<in> set (levels v' ! k) \<and> pcb_age m' p = 0 \<and> pcb_priority m' p = U32 k \<and>
       pcb_quantum m' p = MLFQ_QUANTUMS ! k
     else p \<in> set (levels v' ! Suc k) \<and> unat (pcb_age m' p) = unat (pcb_age m p) + 1 \<and>
       pcb_priority m' p = pcb_priority m p \<and> pcb_quantum m' p = pcb_quantum m p)"
proof -
  have "vquantum v (cur v) - 1 \<noteq> 0" using assms(5) by auto
  note ex = this and run = wf_running [OF assms(2-4)]
  obtain m' where t: "sched_tick s m = Some (Inr (s, m'))" "represents s m' P (spec_tick v)"
    using tick_running [OF assms(1-4) ex] by blast
  let ?v = "v\<lparr>vquantum := (vquantum v)(cur v := vquantum v (cur v) - 1)\<rparr>"
  have len: "length (levels v) = 4" using assms(1) by (simp add: represents_def)
  obtain m1 where r1: "represents s m1 P ?v" "sched_wf P ?v" "spec_tick v = spec_age ?v"
    using tick_running_view [OF assms(1-4) ex] by blast
  have p: "p \<in> P" "p \<noteq> cur v" "level_ok v (Suc k) p"
    using level_mem [OF assms(1), of "Suc k" p] wf_level [OF assms(2), of "Suc k" p] assms(6,7) run(2)
      queued_iff [OF len, of "cur v"] by auto
  have rd: "pcb_age m x = vage v x" "pcb_priority m x = vprio v x" "pcb_quantum m x = vquantum v x"
    "pcb_age m' x = vage (spec_tick v) x" "pcb_priority m' x = vprio (spec_tick v) x"
    "pcb_quantum m' x = vquantum (spec_tick v) x" if "x \<in> P" for x
    using t(2) assms(1) that by (auto simp: represents_def words_are_def)
  have "at_level_with ?v (Suc k) p (vprio v p) (vquantum v p) (vage v p)"
    using assms(7) p(2) by (simp add: at_level_with_def)
  note e = spec_age_effect [OF r1(1,2) assms(6) this, folded r1(3)]
  have a: "unat (vage v p) < 600" using p(3) by (simp add: level_ok_def)
  then have u: "unat (vage v p + 1) = unat (vage v p) + 1" by (subst unat_add_u32) simp_all
  then have "AGE_TICK_MAX \<le> vage v p + 1 \<longleftrightarrow> unat (vage v p) + 1 = 600"
    using a by (auto simp: AGE_TICK_MAX_def word_le_nat_alt)
  moreover have "vquantum (spec_tick v) (cur v) = vquantum v (cur v) - 1"
    unfolding r1(3) using spec_age_unqueued [OF r1(1,2), of "cur v"] run(2) by (simp add: queued_def)
  ultimately show ?thesis
    using t e u rd [OF p(1)] rd [OF run(1)] by (intro exI [of _ m'] exI [of _ "spec_tick v"])
      (auto simp: at_level_with_def split: if_splits)
qed

theorem sched_tick_ages_witness:
  "\<exists>m m'. sched_tick (demo_sched 0x6000) m = Some (Inr (demo_sched 0x6000, m')) \<and>
     pcb_age m 0x7000 = 599 \<and> pcb_age m' 0x7000 = 0 \<and> pcb_priority m' 0x7000 = 0 \<and>
     pcb_quantum m' 0x7000 = 40"
proof -
  let ?v = "demo_view 0x6000 [[], [0x7000], [], []] [] STATE_READY 1 2 599"
  obtain m where m: "represents (demo_sched 0x6000) m (set [0x5000, 0x6000, 0x7000]) ?v"
    using demo_represents [of "[[], [0x7000], [], []]" "[]" "0x6000" STATE_READY 1 2 599] by auto
  have wf: "sched_wf (set [0x5000, 0x6000, 0x7000]) ?v" by (auto simp: wf_defs all_less4 demo_view_def)
  have "pcb_age m 0x7000 = 599" using m by (simp add: represents_def words_are_def demo_view_def)
  with sched_tick_ages [OF m wf, of 0 "0x7000"] show ?thesis
    by (auto simp: demo_view_def MLFQ_QUANTUMS_def)
qed

text \<open>Waking a process takes it off the waiting queue, resets its age, gives it the full
  quantum of its level and appends it to that level; for a process that is not waiting it does
  nothing.  The state stays well formed.\<close>

theorem sched_unblock_refines:
  assumes "represents s m P v" "sched_wf P v" "p \<in> P"
  shows "\<exists>m'. sched_unblock_process p s m = Inr m' \<and> represents s m' P (spec_unblock p v) \<and>
    sched_wf P (spec_unblock p v) \<and> (p \<notin> set (waiting v) \<longrightarrow> m' = m)"
proof -
  have "m' = m" if "p \<notin> set (waiting v)" "sched_unblock_process p s m = Inr m'" for m'
    using assms sched_wfD(2) [OF assms(2)] that
    by (auto simp: sched_unblock_process_def waiting_ok_def represents_def words_are_def split: if_splits)
  with sched_unblock_ok [OF assms] show ?thesis by blast
qed

theorem sched_unblock_refines_witness:
  "\<exists>m m' v'. sched_unblock_process 0x7000 (demo_sched 0) m = Inr m' \<and>
     represents (demo_sched 0) m' (set [0x5000, 0x6000, 0x7000]) v' \<and> levels v' = [[], [0x7000], [], []]"
proof -
  let ?v = "demo_view 0 [[], [], [], []] [0x7000] STATE_WAITING 1 40 5"
  obtain m where m: "represents (demo_sched 0) m (set [0x5000, 0x6000, 0x7000]) ?v"
    using demo_represents [of "[[], [], [], []]" "[0x7000]" 0 STATE_WAITING 1 40 5] by auto
  have wf: "sched_wf (set [0x5000, 0x6000, 0x7000]) ?v" by (auto simp: wf_defs all_less4 demo_view_def)
  have "levels (spec_unblock 0x7000 ?v) = [[], [0x7000], [], []]"
    by (simp add: spec_unblock_def demo_view_def Let_def)
  with sched_unblock_refines [OF m wf, of "0x7000"] show ?thesis by auto
qed

text \<open>C30: once the idle process runs, it runs for ever: whatever is ready, the timer interrupt
  returns to the idle process and changes neither the scheduler nor memory.\<close>

theorem idle_never_preempted:
  assumes "represents s m P v" "sched_wf P v" "cur v = idle v"
  shows "sched_timer_handler literal s m hw = Some (Inr (Resume, s, m, pic_send_eoi 0 hw))"
proof -
  have "idle v \<noteq> 0" using assms(1) wf_idle [OF assms(2)] by (auto simp: represents_def queues_def dest: arenaD(3))
  then show ?thesis
    using assms(1,3) by (simp add: sched_timer_handler_def sched_tick_def represents_def Let_def)
qed

theorem idle_never_preempted_witness:
  "\<exists>m. dll m 0x1100 [sched_node 0x7000] \<and>
     sched_timer_handler 0x500 (demo_sched 0x5000) m \<lparr>ports = [], framebuffer = (\<lambda>_. 0)\<rparr> =
       Some (Inr (Resume, demo_sched 0x5000, m, pic_send_eoi 0 \<lparr>ports = [], framebuffer = (\<lambda>_. 0)\<rparr>))"
proof -
  let ?v = "demo_view 0x5000 [[], [0x7000], [], []] [] STATE_READY 1 40 0"
  obtain m where m: "represents (demo_sched 0x5000) m (set [0x5000, 0x6000, 0x7000]) ?v"
    using demo_represents [of "[[], [0x7000], [], []]" "[]" "0x5000" STATE_READY 1 40 0] by auto
  have wf: "sched_wf (set [0x5000, 0x6000, 0x7000]) ?v" by (auto simp: wf_defs all_less4 demo_view_def)
  have "dll m 0x1100 [sched_node 0x7000]"
    using represents_dll [OF m, of 1] by (simp add: demo_sched_def demo_view_def)
  moreover have "cur ?v = idle ?v" by (simp add: demo_view_def)
  ultimately show ?thesis using idle_never_preempted [OF m wf] by blast
qed

text \<open>C31: a process that blocks stays the current process, so when its quantum runs out it is
  put into a ready queue while it is still linked into the waiting queue: its node then points
  into the ready queue and the waiting queue is no list any more.\<close>

theorem blocked_process_corrupts_queue:
  assumes r: "represents s m P v" and wf: "sched_wf P v" and c: "cur v \<noteq> 0" "cur v \<noteq> idle v"
    and ex: "vquantum v (cur v) = 1"
  shows "\<exists>m1 s2 m2. sched_block_process s m = Inr m1 \<and>
    dll m1 (waiting_queue s) (map sched_node (waiting v @ [cur v])) \<and>
    sched_tick s m1 = Some (Inr (s2, m2)) \<and> (\<forall>xs. \<not> dll m2 (waiting_queue s) xs)"
proof -
  let ?p = "cur v" and ?H = "heads s" and ?W = "waiting_queue s" and ?n = "sched_node (cur v)"
  let ?ws = "waiting v @ [?p]"
  have q: "queues m ?H P (levels v @ [waiting v])" and len: "length (priority_queues s) = 4"
    "length (levels v) = 4" and w: "words_are P (vstate v) (vprio v) (vquantum v) (vage v) m"
    and cs: "current_pcb s = ?p" "idle_pcb s = idle v"
    using r by (auto simp: represents_def)
  note p = wf_running(1) [OF wf c] wf_running(2) [OF wf c, unfolded queued_def] wf_running(4) [OF wf c]
  have ar: "arena ?H P" using q by (simp add: queues_def)
  let ?m0 = "set_pcb_state ?p STATE_WAITING m"
  note k0 = set_pcb_keeps(1) [OF q p(1), of STATE_WAITING] and w0 = words_are_set(1) [OF q p(1) w, of STATE_WAITING]
  have W: "4 < length ?H" "?H ! 4 = ?W" using len by (simp_all add: heads_def nth_append)
  have "(levels v @ [waiting v]) ! 4 = waiting v" using len by (simp add: nth_append)
  then obtain m1 where m1: "list_push_tail ?W ?n ?m0 = (0, m1)" "queues m1 ?H P (levels v @ [?ws])"
    "same_off (link_bytes ?H P) ?m0 m1"
    using queues_push_tail [OF k0 W(1) p(1,2)] waiting_update [OF len(2), of ?ws] unfolding W(2) by auto
  note w1 = words_are_link [OF k0 m1(3) w0]
  have "pcb_state ?m0 ?p = state_code STATE_WAITING" using w0 p(1) by (simp add: words_are_def)
  then have b: "sched_block_process s m = Inr m1"
    using c cs m1(1) by (simp add: sched_block_process_def sched_enqueue_def Let_def)
  have dw: "dll m1 ?W (map sched_node ?ws)"
    using queues_dll [OF m1(2) W(1)] W(2) len by (simp add: nth_append)
  define lv where "lv = (if vprio v ?p < 3 then vprio v ?p + 1 else vprio v ?p)"
  have lv: "unat lv < 4" using expired_level [OF p(3)] by (simp add: lv_def)
  have "?p \<noteq> idle_pcb s" "vquantum v ?p - 1 = 0" using c(2) cs(2) ex by simp_all
  from tick_expired_prefix [OF m1(2) w1 cs(1) p(1) this(1) p(3) this(2), folded lv_def] obtain m4 where
    t: "sched_tick s m1 = (case sched_enqueue ?p s m4 of Inl f \<Rightarrow> Some (Inl f)
      | Inr m \<Rightarrow> Some (Inr (s\<lparr>current_pcb := 0\<rparr>, m)))"
    "queues m4 ?H P (levels v @ [?ws])" "pcb_state m4 ?p = state_code STATE_READY" "pcb_priority m4 ?p = lv"
    using p(1) by (auto simp: words_are_def)
  let ?Q = "priority_queues s ! unat lv"
  let ?m5 = "snd (list_push_tail ?Q ?n m4)"
  have "sched_enqueue ?p s m4 = Inr ?m5"
    using t(3,4) c(1) lv len by (simp add: sched_enqueue_def at_level_def)
  then have tick: "sched_tick s m1 = Some (Inr (s\<lparr>current_pcb := 0\<rparr>, ?m5))" using t(1) by simp
  have "\<not> dll ?m5 ?W xs" for xs
    using double_push_breaks [OF t(2) len lv] by simp
  with b dw tick show ?thesis by blast
qed

theorem blocked_process_corrupts_queue_witness:
  "\<exists>m m1 s2 m2. sched_block_process (demo_sched 0x6000) m = Inr m1 \<and>
     dll m1 0x1400 [sched_node 0x6000] \<and>
     sched_tick (demo_sched 0x6000) m1 = Some (Inr (s2, m2)) \<and> \<not> dll m2 0x1400 [sched_node 0x6000]"
proof -
  let ?v = "demo_view 0x6000 [[], [0x7000], [], []] [] STATE_READY 1 1 0"
  obtain m where m: "represents (demo_sched 0x6000) m (set [0x5000, 0x6000, 0x7000]) ?v"
    using demo_represents [of "[[], [0x7000], [], []]" "[]" "0x6000" STATE_READY 1 1 0] by auto
  have wf: "sched_wf (set [0x5000, 0x6000, 0x7000]) ?v" by (auto simp: wf_defs all_less4 demo_view_def)
  have W: "waiting_queue (demo_sched 0x6000) = 0x1400" by (simp add: demo_sched_def)
  have "\<exists>m1 s2 m2. sched_block_process (demo_sched 0x6000) m = Inr m1 \<and>
     dll m1 (waiting_queue (demo_sched 0x6000)) (map sched_node (waiting ?v @ [cur ?v])) \<and>
     sched_tick (demo_sched 0x6000) m1 = Some (Inr (s2, m2)) \<and>
     (\<forall>xs. \<not> dll m2 (waiting_queue (demo_sched 0x6000)) xs)"
    by (rule blocked_process_corrupts_queue [OF m wf]) (simp_all add: demo_view_def)
  then show ?thesis unfolding W by (simp add: demo_view_def) blast
qed

end
