(* ===== verification/Vterm.thy ===== *)
theory Vterm
  imports Io Kstring
begin

text \<open>
  \<^verbatim>\<open>src/kernel/vterm/vterm.c\<close>: the text console.  Its static variables are the
  fields of the record \<open>vterm\<close>, together with the hardware they drive.  The screen buffer is
  a function of row and column; that only the 25 by 80 cells of the array are ever touched is
  part of what is proved.  Characters are bytes.  \<open>vterm_write\<close> follows its string until the
  NUL and is option-valued.
\<close>

section \<open>State\<close>

datatype VTermColor = COLOR_BLACK | COLOR_BLUE | COLOR_GREEN | COLOR_CYAN | COLOR_RED
  | COLOR_MAGENTA | COLOR_BROWN | COLOR_LIGHTGREY | COLOR_DARKGREY | COLOR_LIGHTBLUE
  | COLOR_LIGHTGREEN | COLOR_LIGHTCYAN | COLOR_LIGHTRED | COLOR_LIGHTMAGENTA | COLOR_LIGHTBROWN
  | COLOR_WHITE

fun color_code :: "VTermColor \<Rightarrow> u8" where
  "color_code COLOR_BLACK = 0"
| "color_code COLOR_BLUE = 1"
| "color_code COLOR_GREEN = 2"
| "color_code COLOR_CYAN = 3"
| "color_code COLOR_RED = 4"
| "color_code COLOR_MAGENTA = 5"
| "color_code COLOR_BROWN = 6"
| "color_code COLOR_LIGHTGREY = 7"
| "color_code COLOR_DARKGREY = 8"
| "color_code COLOR_LIGHTBLUE = 9"
| "color_code COLOR_LIGHTGREEN = 10"
| "color_code COLOR_LIGHTCYAN = 11"
| "color_code COLOR_LIGHTRED = 12"
| "color_code COLOR_LIGHTMAGENTA = 13"
| "color_code COLOR_LIGHTBROWN = 14"
| "color_code COLOR_WHITE = 15"

datatype VTermAlignment = VTERM_ALIGN_LEFT | VTERM_ALIGN_CENTER | VTERM_ALIGN_RIGHT
datatype CursorShape = CURSOR_SHAPE_LINE | CURSOR_SHAPE_BLOCK
datatype VTermBufferingMode = BUFFER_MODE_STREAM | BUFFER_MODE_BLOCK

record VTermCell =
  character :: u8
  cell_fg :: u8
  cell_bg :: u8

record VTermCursor =
  shape :: CursorShape
  visible :: bool

record vterm =
  screen_buffer :: "nat \<Rightarrow> nat \<Rightarrow> VTermCell"
  cursor_row :: u16
  cursor_col :: u16
  current_fg :: VTermColor
  current_bg :: VTermColor
  active_cursor_style :: VTermCursor
  current_mode :: VTermBufferingMode
  io :: hardware

definition vga_color_lookup :: "u8 list" where
  "vga_color_lookup =
     [VGA_COLOR_BLACK, VGA_COLOR_BLUE, VGA_COLOR_GREEN, VGA_COLOR_CYAN,
      VGA_COLOR_RED, VGA_COLOR_MAGENTA, VGA_COLOR_BROWN, VGA_COLOR_LIGHTGREY,
      VGA_COLOR_DARKGREY, VGA_COLOR_LIGHTBLUE, VGA_COLOR_LIGHTGREEN, VGA_COLOR_LIGHTCYAN,
      VGA_COLOR_LIGHTRED, VGA_COLOR_LIGHTMAGENTA, VGA_COLOR_LIGHTBROWN, VGA_COLOR_WHITE]"

abbreviation vga :: "u8 \<Rightarrow> u8" where
  "vga c \<equiv> vga_color_lookup ! unat c"

definition set_cell :: "nat \<Rightarrow> nat \<Rightarrow> VTermCell \<Rightarrow> (nat \<Rightarrow> nat \<Rightarrow> VTermCell) \<Rightarrow> nat \<Rightarrow> nat \<Rightarrow> VTermCell" where
  "set_cell r c x s = s(r := (s r)(c := x))"

text \<open>The static initialisers.\<close>

definition vterm_static :: "hardware \<Rightarrow> vterm" where
  "vterm_static hw = \<lparr>screen_buffer = (\<lambda>r c. \<lparr>character = 0, cell_fg = 0, cell_bg = 0\<rparr>),
     cursor_row = 0, cursor_col = 0, current_fg = COLOR_WHITE, current_bg = COLOR_BLACK,
     active_cursor_style = \<lparr>shape = CURSOR_SHAPE_BLOCK, visible = True\<rparr>,
     current_mode = BUFFER_MODE_STREAM, io = hw\<rparr>"

section \<open>Cursor\<close>

definition vterm_move_cursor :: "u16 \<Rightarrow> u16 \<Rightarrow> vterm \<Rightarrow> vterm" where
  "vterm_move_cursor row col vt =
     (let vt = (if row < SCREEN_ROWS then vt\<lparr>cursor_row := row\<rparr> else vt);
          vt = (if col \<le> SCREEN_COLS then vt\<lparr>cursor_col := col\<rparr> else vt);
          hw_col = (if SCREEN_COLS \<le> cursor_col vt then SCREEN_COLS - 1 else cursor_col vt);
          hw_row = (if SCREEN_ROWS \<le> cursor_row vt then SCREEN_ROWS - 1 else cursor_row vt)
      in if visible (active_cursor_style vt) then
           let position = hw_row * SCREEN_COLS + hw_col;
               hw = outb CRTC_CMD_PORT CURSOR_POS_HIGH_BYTE_CMD (io vt);
               hw = outb CRTC_DATA_PORT (ucast (drop_bit 8 position AND 0xFF)) hw;
               hw = outb CRTC_CMD_PORT CURSOR_POS_LOW_BYTE_CMD hw;
               hw = outb CRTC_DATA_PORT (ucast (position AND 0xFF)) hw
           in vt\<lparr>io := hw\<rparr>
         else vt)"

definition vterm_set_cursor_visible :: "device \<Rightarrow> bool \<Rightarrow> vterm \<Rightarrow> vterm" where
  "vterm_set_cursor_visible dev vis vt =
     (let vt = vt\<lparr>active_cursor_style := (active_cursor_style vt)\<lparr>visible := vis\<rparr>\<rparr>;
          hw = outb CRTC_CMD_PORT CURSOR_STYLE_START_CMD (io vt);
          (current_val, hw) = inb dev CRTC_DATA_PORT hw
      in if \<not> vis then vt\<lparr>io := outb CRTC_DATA_PORT (current_val OR 0x20) hw\<rparr>
         else vterm_move_cursor (cursor_row vt) (cursor_col vt)
                (vt\<lparr>io := outb CRTC_DATA_PORT (current_val AND NOT 0x20) hw\<rparr>))"

definition vterm_set_cursor_shape :: "device \<Rightarrow> CursorShape \<Rightarrow> vterm \<Rightarrow> vterm" where
  "vterm_set_cursor_shape dev sh vt =
     (let vt = vt\<lparr>active_cursor_style := (active_cursor_style vt)\<lparr>shape := sh\<rparr>\<rparr> in
      if \<not> visible (active_cursor_style vt) then vt
      else
        let start_scanline = (if sh = CURSOR_SHAPE_BLOCK then 0 else 14);
            end_scanline = 15;
            hw = outb CRTC_CMD_PORT CURSOR_STYLE_START_CMD (io vt);
            (v, hw) = inb dev CRTC_DATA_PORT hw;
            hw = outb CRTC_DATA_PORT ((v AND 0xC0) OR (start_scanline AND 0x1F)) hw;
            hw = outb CRTC_CMD_PORT CURSOR_STYLE_END_CMD hw;
            (v, hw) = inb dev CRTC_DATA_PORT hw;
            hw = outb CRTC_DATA_PORT ((v AND 0xE0) OR (end_scanline AND 0x1F)) hw
        in vt\<lparr>io := hw\<rparr>)"

definition vterm_get_cursor_row :: "vterm \<Rightarrow> u16" where
  "vterm_get_cursor_row vt = cursor_row vt"

definition vterm_get_cursor_col :: "vterm \<Rightarrow> u16" where
  "vterm_get_cursor_col vt = cursor_col vt"

definition vterm_get_cursor_config :: "vterm \<Rightarrow> VTermCursor" where
  "vterm_get_cursor_config vt = active_cursor_style vt"

definition vterm_is_cursor_visible :: "vterm \<Rightarrow> bool" where
  "vterm_is_cursor_visible vt = visible (active_cursor_style vt)"

definition vterm_set_buffering_mode :: "VTermBufferingMode \<Rightarrow> vterm \<Rightarrow> vterm" where
  "vterm_set_buffering_mode mode vt = vt\<lparr>current_mode := mode\<rparr>"

definition vterm_set_color :: "VTermColor \<Rightarrow> VTermColor \<Rightarrow> vterm \<Rightarrow> vterm" where
  "vterm_set_color fg bg vt = vt\<lparr>current_fg := fg, current_bg := bg\<rparr>"

section \<open>Screen\<close>

definition flush_cell :: "(nat \<Rightarrow> nat \<Rightarrow> VTermCell) \<Rightarrow> nat \<Rightarrow> nat \<Rightarrow> hardware \<Rightarrow> hardware" where
  "flush_cell s r c hw =
     (let cell = s r c in
      write_char_to_framebuffer (character cell) (of_nat r) (of_nat c) (vga (cell_fg cell)) (vga (cell_bg cell)) hw)"

definition vterm_flush :: "vterm \<Rightarrow> vterm" where
  "vterm_flush vt =
     (let hw = fold (\<lambda>r. fold (\<lambda>c. flush_cell (screen_buffer vt) r c) [0..<80]) [0..<25] (io vt)
      in vterm_move_cursor (cursor_row vt) (cursor_col vt) (vt\<lparr>io := hw\<rparr>))"

definition vterm_clear :: "VTermColor \<Rightarrow> VTermColor \<Rightarrow> vterm \<Rightarrow> vterm" where
  "vterm_clear fg bg vt =
     (let vt = vt\<lparr>current_fg := fg, current_bg := bg\<rparr>;
          blank = \<lparr>character = 0x20, cell_fg = color_code fg, cell_bg = color_code bg\<rparr>;
          s = fold (\<lambda>r. fold (\<lambda>c. set_cell r c blank) [0..<80]) [0..<25] (screen_buffer vt);
          vt = vterm_move_cursor 0 0 (vt\<lparr>screen_buffer := s\<rparr>)
      in if current_mode vt = BUFFER_MODE_STREAM then vterm_flush vt else vt)"

definition vterm_init :: "VTermColor \<Rightarrow> VTermColor \<Rightarrow> vterm \<Rightarrow> vterm" where
  "vterm_init fg bg vt = vterm_flush (vterm_clear fg bg (vt\<lparr>current_mode := BUFFER_MODE_STREAM\<rparr>))"

definition vterm_scroll :: "vterm \<Rightarrow> vterm" where
  "vterm_scroll vt =
     (let s = fold (\<lambda>r. fold (\<lambda>c s. set_cell (r - 1) c (s r c) s) [0..<80]) [1..<25] (screen_buffer vt);
          blank = \<lparr>character = 0x20, cell_fg = color_code (current_fg vt), cell_bg = color_code (current_bg vt)\<rparr>;
          s = fold (\<lambda>c. set_cell 24 c blank) [0..<80] s;
          vt = vterm_move_cursor (SCREEN_ROWS - 1) 0 (vt\<lparr>screen_buffer := s\<rparr>)
      in if current_mode vt = BUFFER_MODE_STREAM then vterm_flush vt else vt)"

definition put_framebuffer :: "u8 \<Rightarrow> vterm \<Rightarrow> vterm" where
  "put_framebuffer c vt =
     (if current_mode vt = BUFFER_MODE_STREAM
      then vt\<lparr>io := write_char_to_framebuffer c (cursor_row vt) (cursor_col vt)
             (vga (color_code (current_fg vt))) (vga (color_code (current_bg vt))) (io vt)\<rparr>
      else vt)"

definition vterm_backspace :: "vterm \<Rightarrow> vterm" where
  "vterm_backspace vt =
     (let target_row = cursor_row vt; target_col = cursor_col vt in
      if target_col = 0 \<and> target_row = 0 then vt
      else
        let (target_row, target_col) =
              (if 0 < target_col then (target_row, target_col - 1) else (target_row - 1, SCREEN_COLS - 1));
            vt = vterm_move_cursor target_row target_col vt;
            r = unat (cursor_row vt); c = unat (cursor_col vt);
            vt = vt\<lparr>screen_buffer :=
              set_cell r c ((screen_buffer vt r c)\<lparr>character := 0x20\<rparr>) (screen_buffer vt)\<rparr>
        in put_framebuffer 0x20 vt)"

definition vterm_wrap :: "vterm \<Rightarrow> vterm" where
  "vterm_wrap vt =
     (let vt = (if SCREEN_COLS \<le> cursor_col vt
                then vt\<lparr>cursor_col := 0, cursor_row := cursor_row vt + 1\<rparr> else vt)
      in if SCREEN_ROWS \<le> cursor_row vt then vterm_scroll vt else vt)"

definition vterm_put :: "u8 \<Rightarrow> vterm \<Rightarrow> vterm" where
  "vterm_put c vt =
     (let vt = vterm_wrap vt;
          vt = vt\<lparr>screen_buffer := set_cell (unat (cursor_row vt)) (unat (cursor_col vt))
            \<lparr>character = c, cell_fg = color_code (current_fg vt), cell_bg = color_code (current_bg vt)\<rparr>
            (screen_buffer vt)\<rparr>;
          vt = put_framebuffer c vt;
          vt = vt\<lparr>cursor_col := cursor_col vt + 1\<rparr>
      in vterm_move_cursor (cursor_row vt) (cursor_col vt) vt)"

definition vterm_write_char :: "u8 \<Rightarrow> vterm \<Rightarrow> vterm" where
  "vterm_write_char c vt =
     (if c = 0x0A then
        let vt = vterm_move_cursor (cursor_row vt + 1) 0 vt
        in if SCREEN_ROWS \<le> cursor_row vt then vterm_scroll vt else vt
      else if c = 0x08 then vterm_backspace vt
      else vterm_put c vt)"

partial_function (option) vterm_write_loop :: "u32 \<Rightarrow> u32 \<Rightarrow> mem \<Rightarrow> vterm \<Rightarrow> vterm option" where
  "vterm_write_loop str i m vt =
     (if load8 m (str + i) \<noteq> 0
      then vterm_write_loop str (i + 1) m (vterm_write_char (load8 m (str + i)) vt)
      else Some vt)"

definition vterm_write :: "u32 \<Rightarrow> mem \<Rightarrow> vterm \<Rightarrow> vterm option" where
  "vterm_write str m vt = vterm_write_loop str 0 m vt"

definition vterm_write_binary :: "u8 \<Rightarrow> vterm \<Rightarrow> vterm" where
  "vterm_write_binary byte vt =
     fold (\<lambda>b. vterm_write_char (if byte AND push_bit (7 - b) 1 \<noteq> 0 then 0x31 else 0x30)) [0..<8] vt"

definition hex_chars :: "u8 list" where
  "hex_chars = [0x30, 0x31, 0x32, 0x33, 0x34, 0x35, 0x36, 0x37, 0x38, 0x39, 0x41, 0x42, 0x43, 0x44, 0x45, 0x46]"

definition hex_nibble :: "u32 \<Rightarrow> nat \<Rightarrow> u8" where
  "hex_nibble val i = ucast (drop_bit (28 - i * 4) val AND 0xF)"

definition vterm_write_hex :: "u32 \<Rightarrow> VTermColor \<Rightarrow> VTermColor \<Rightarrow> vterm \<Rightarrow> vterm" where
  "vterm_write_hex val fg bg vt =
     (let old_fg = current_fg vt; old_bg = current_bg vt;
          vt = vterm_set_color fg bg vt;
          vt = vterm_write_char 0x30 vt;
          vt = vterm_write_char 0x78 vt;
          vt = fold (\<lambda>i. vterm_write_char (hex_chars ! unat (hex_nibble val i))) [0..<8] vt
      in vterm_set_color old_fg old_bg vt)"

definition vterm_print_at :: "u16 \<Rightarrow> u16 \<Rightarrow> u32 \<Rightarrow> mem \<Rightarrow> vterm \<Rightarrow> vterm option" where
  "vterm_print_at row col text m vt =
     (case vterm_write text m (vterm_move_cursor row col vt) of
        None \<Rightarrow> None
      | Some vt \<Rightarrow> Some (if current_mode vt = BUFFER_MODE_STREAM then vterm_flush vt else vt))"

definition aligned_col :: "u32 \<Rightarrow> VTermAlignment \<Rightarrow> u16" where
  "aligned_col len align =
     (case align of
        VTERM_ALIGN_LEFT \<Rightarrow> 0
      | VTERM_ALIGN_CENTER \<Rightarrow> if len < 80 then ucast ((80 - len) div 2) else 0
      | VTERM_ALIGN_RIGHT \<Rightarrow> if len < 80 then ucast (80 - len) else 0)"

definition vterm_print_aligned :: "u16 \<Rightarrow> u32 \<Rightarrow> VTermAlignment \<Rightarrow> mem \<Rightarrow> vterm \<Rightarrow> vterm option" where
  "vterm_print_aligned row text align m vt =
     (case kstrlen text m of
        None \<Rightarrow> None
      | Some n \<Rightarrow> vterm_print_at row (aligned_col (ucast n) align) text m vt)"

definition vterm_write_label_hex :: "u32 \<Rightarrow> u32 \<Rightarrow> mem \<Rightarrow> vterm \<Rightarrow> vterm option" where
  "vterm_write_label_hex label value m vt =
     (case vterm_write label m vt of
        None \<Rightarrow> None
      | Some vt \<Rightarrow> Some (vterm_write_char 0x0A (vterm_write_hex value COLOR_WHITE COLOR_BLACK vt)))"

definition kprint :: "u32 \<Rightarrow> mem \<Rightarrow> vterm \<Rightarrow> vterm option" where
  "kprint str m vt = vterm_write str m vt"

definition kprint_c :: "u8 \<Rightarrow> vterm \<Rightarrow> vterm" where
  "kprint_c c vt = vterm_write_char c vt"

definition kprint_hex :: "u32 \<Rightarrow> VTermColor \<Rightarrow> VTermColor \<Rightarrow> vterm \<Rightarrow> vterm" where
  "kprint_hex val fg bg vt = vterm_write_hex val fg bg vt"

definition kprint_at :: "u16 \<Rightarrow> u16 \<Rightarrow> u32 \<Rightarrow> mem \<Rightarrow> vterm \<Rightarrow> vterm option" where
  "kprint_at r c text m vt = vterm_print_at r c text m vt"

definition kprint_aligned :: "u16 \<Rightarrow> u32 \<Rightarrow> VTermAlignment \<Rightarrow> mem \<Rightarrow> vterm \<Rightarrow> vterm option" where
  "kprint_aligned r text align m vt = vterm_print_aligned r text align m vt"

section \<open>The loops in closed form\<close>

definition cell_word :: "VTermCell \<Rightarrow> u16" where
  "cell_word x = vga_cell (character x) (vga (cell_fg x)) (vga (cell_bg x))"

lemma flush_cell_at:
  assumes "r < 25" "c < 80"
  shows "flush_cell s r c hw = hw\<lparr>framebuffer := (framebuffer hw)(r * 80 + c := cell_word (s r c))\<rparr>"
proof -
  have "unat (of_nat c :: u16) = c" "unat (of_nat r :: u16) = r"
    using assms by (simp_all add: unat_of_nat take_bit_eq_mod)
  then show ?thesis
    by (simp add: flush_cell_def write_char_to_framebuffer_def SCREEN_COLS_def cell_word_def Let_def
        add.commute [of c])
qed

lemma flush_row:
  assumes "r < 25" "n \<le> 80"
  shows "fold (\<lambda>c. flush_cell s r c) [0..<n] hw = hw\<lparr>framebuffer := (\<lambda>i.
    if r * 80 \<le> i \<and> i < r * 80 + n then cell_word (s r (i - r * 80)) else framebuffer hw i)\<rparr>"
  using assms(2)
proof (induction n)
  case (Suc n)
  then have "n < 80" by simp
  with Suc show ?case
    by (auto simp: flush_cell_at [OF assms(1)] fun_eq_iff less_Suc_eq intro!: hardware_eqI)
qed (auto simp: fun_eq_iff intro!: hardware_eqI)

definition mirror_cell :: "(nat \<Rightarrow> nat \<Rightarrow> VTermCell) \<Rightarrow> nat \<Rightarrow> u16" where
  "mirror_cell s i = cell_word (s (i div 80) (i mod 80))"

lemma div80: "r * 80 \<le> i \<Longrightarrow> i < r * 80 + 80 \<Longrightarrow> (i :: nat) div 80 = r \<and> i mod 80 = i - r * 80"
  by (metis add.commute div_nat_eqI mult.commute mult_Suc_right minus_mult_div_eq_mod)

lemma flush_rows:
  "n \<le> 25 \<Longrightarrow> fold (\<lambda>r. fold (\<lambda>c. flush_cell s r c) [0..<80]) [0..<n] hw =
    hw\<lparr>framebuffer := (\<lambda>i. if i < n * 80 then mirror_cell s i else framebuffer hw i)\<rparr>"
proof (induction n)
  case (Suc n)
  then have r: "n < 25" by simp
  show ?case
    using Suc r div80 [of n] by (auto simp: flush_row mirror_cell_def fun_eq_iff intro!: hardware_eqI)
qed simp

lemma clear_cells:
  "fold (\<lambda>r. fold (\<lambda>c. set_cell r c x) [0..<m]) [0..<n] s =
    (\<lambda>r c. if r < n \<and> c < m then x else s r c)"
proof -
  have row: "fold (\<lambda>c. set_cell r c x) [0..<m] s = s(r := (\<lambda>c. if c < m then x else s r c))" for r s
    by (induction m) (auto simp: set_cell_def fun_eq_iff less_Suc_eq)
  show ?thesis by (induction n) (auto simp: row fun_eq_iff less_Suc_eq)
qed

lemma last_row: "fold (\<lambda>c. set_cell r c x) [0..<m] s = s(r := (\<lambda>c. if c < m then x else s r c))"
  by (induction m) (auto simp: set_cell_def fun_eq_iff less_Suc_eq)

lemma shift_rows:
  "fold (\<lambda>r. fold (\<lambda>c s. set_cell (r - 1) c (s r c) s) [0..<m]) [1..<n] s =
    (\<lambda>r c. if Suc r < n \<and> c < m then s (Suc r) c else s r c)"
proof -
  have row: "fold (\<lambda>c s. set_cell (r - 1) c (s r c) s) [0..<m] s =
      s(r - 1 := (\<lambda>c. if c < m then s r c else s (r - 1) c))" if "0 < r" for r s
    using that by (induction m) (auto simp: set_cell_def fun_eq_iff less_Suc_eq)
  show ?thesis
  proof (induction n)
    case (Suc n)
    let ?F = "\<lambda>r c. if Suc r < n \<and> c < m then s (Suc r) c else s r c"
    show ?case
    proof (cases "1 \<le> n")
      case True
      then have "fold (\<lambda>r. fold (\<lambda>c s. set_cell (r - 1) c (s r c) s) [0..<m]) [1..<Suc n] s =
          fold (\<lambda>c s. set_cell (n - 1) c (s n c) s) [0..<m] ?F"
        unfolding Suc [symmetric] by simp
      also have "\<dots> = ?F(n - 1 := (\<lambda>c. if c < m then ?F n c else ?F (n - 1) c))"
        using True by (intro row) simp
      also have "\<dots> = (\<lambda>r c. if Suc r < Suc n \<and> c < m then s (Suc r) c else s r c)"
        using True by (auto simp: fun_eq_iff)
      finally show ?thesis .
    qed (auto simp: fun_eq_iff)
  qed (auto simp: fun_eq_iff)
qed

section \<open>What each operation does to the state\<close>

lemma move_cursor_simps [simp]:
  "screen_buffer (vterm_move_cursor row col vt) = screen_buffer vt"
  "current_fg (vterm_move_cursor row col vt) = current_fg vt"
  "current_bg (vterm_move_cursor row col vt) = current_bg vt"
  "current_mode (vterm_move_cursor row col vt) = current_mode vt"
  "active_cursor_style (vterm_move_cursor row col vt) = active_cursor_style vt"
  "framebuffer (io (vterm_move_cursor row col vt)) = framebuffer (io vt)"
  "cursor_row (vterm_move_cursor row col vt) = (if row < 25 then row else cursor_row vt)"
  "cursor_col (vterm_move_cursor row col vt) = (if col \<le> 80 then col else cursor_col vt)"
  by (simp_all add: vterm_move_cursor_def Let_def SCREEN_ROWS_def SCREEN_COLS_def)

lemma flush_simps [simp]:
  "screen_buffer (vterm_flush vt) = screen_buffer vt" "current_fg (vterm_flush vt) = current_fg vt"
  "current_bg (vterm_flush vt) = current_bg vt" "current_mode (vterm_flush vt) = current_mode vt"
  "cursor_row (vterm_flush vt) = cursor_row vt" "cursor_col (vterm_flush vt) = cursor_col vt"
  "framebuffer (io (vterm_flush vt)) =
    (\<lambda>i. if i < 2000 then mirror_cell (screen_buffer vt) i else framebuffer (io vt) i)"
  by (simp_all add: vterm_flush_def Let_def flush_rows [of 25, simplified])

definition blank_cell :: "vterm \<Rightarrow> VTermCell" where
  "blank_cell vt = \<lparr>character = 0x20, cell_fg = color_code (current_fg vt), cell_bg = color_code (current_bg vt)\<rparr>"

definition scrolled :: "vterm \<Rightarrow> nat \<Rightarrow> nat \<Rightarrow> VTermCell" where
  "scrolled vt r c = (if 80 \<le> c \<or> 24 < r then screen_buffer vt r c
     else if r = 24 then blank_cell vt else screen_buffer vt (Suc r) c)"

lemma scroll_simps [simp]:
  "screen_buffer (vterm_scroll vt) = scrolled vt" "current_fg (vterm_scroll vt) = current_fg vt"
  "current_bg (vterm_scroll vt) = current_bg vt" "current_mode (vterm_scroll vt) = current_mode vt"
  "cursor_row (vterm_scroll vt) = 24" "cursor_col (vterm_scroll vt) = 0"
  "framebuffer (io (vterm_scroll vt)) =
    (if current_mode vt = BUFFER_MODE_STREAM
     then (\<lambda>i. if i < 2000 then mirror_cell (scrolled vt) i else framebuffer (io vt) i)
     else framebuffer (io vt))"
proof -
  have s: "(\<lambda>r c. if Suc r < 25 \<and> c < 80 then screen_buffer vt (Suc r) c else screen_buffer vt r c)
      (24 := (\<lambda>c. if c < 80 then blank_cell vt
        else (if Suc 24 < 25 \<and> c < 80 then screen_buffer vt (Suc 24) c else screen_buffer vt 24 c))) =
      scrolled vt"
    by (auto simp: scrolled_def fun_eq_iff)
  note def = vterm_scroll_def Let_def shift_rows last_row s [unfolded blank_cell_def] SCREEN_ROWS_def
  show "screen_buffer (vterm_scroll vt) = scrolled vt" "current_fg (vterm_scroll vt) = current_fg vt"
    "current_bg (vterm_scroll vt) = current_bg vt" "current_mode (vterm_scroll vt) = current_mode vt"
    "cursor_row (vterm_scroll vt) = 24" "cursor_col (vterm_scroll vt) = 0"
    "framebuffer (io (vterm_scroll vt)) =
    (if current_mode vt = BUFFER_MODE_STREAM
     then (\<lambda>i. if i < 2000 then mirror_cell (scrolled vt) i else framebuffer (io vt) i)
     else framebuffer (io vt))"
    unfolding def by (simp_all add: fun_eq_iff)
qed

lemma clear_simps [simp]:
  "screen_buffer (vterm_clear fg bg vt) = (\<lambda>r c. if r < 25 \<and> c < 80
     then \<lparr>character = 0x20, cell_fg = color_code fg, cell_bg = color_code bg\<rparr> else screen_buffer vt r c)"
  "current_fg (vterm_clear fg bg vt) = fg" "current_bg (vterm_clear fg bg vt) = bg"
  "current_mode (vterm_clear fg bg vt) = current_mode vt"
  "cursor_row (vterm_clear fg bg vt) = 0" "cursor_col (vterm_clear fg bg vt) = 0"
  "i \<ge> 2000 \<Longrightarrow> framebuffer (io (vterm_clear fg bg vt)) i = framebuffer (io vt) i"
  by (simp_all add: vterm_clear_def Let_def clear_cells fun_eq_iff)

lemma put_framebuffer_simps [simp]:
  "screen_buffer (put_framebuffer c vt) = screen_buffer vt" "current_fg (put_framebuffer c vt) = current_fg vt"
  "current_bg (put_framebuffer c vt) = current_bg vt" "current_mode (put_framebuffer c vt) = current_mode vt"
  "cursor_row (put_framebuffer c vt) = cursor_row vt" "cursor_col (put_framebuffer c vt) = cursor_col vt"
  "framebuffer (io (put_framebuffer c vt)) =
    (if current_mode vt = BUFFER_MODE_STREAM
     then (framebuffer (io vt))(unat (cursor_col vt) + unat (cursor_row vt) * 80 :=
       vga_cell c (vga (color_code (current_fg vt))) (vga (color_code (current_bg vt))))
     else framebuffer (io vt))"
  by (simp_all add: put_framebuffer_def write_char_to_framebuffer_def SCREEN_COLS_def)

section \<open>Staying inside the screen\<close>

definition cells_ok :: "(nat \<Rightarrow> nat \<Rightarrow> VTermCell) \<Rightarrow> bool" where
  "cells_ok s \<longleftrightarrow> (\<forall>r < 25. \<forall>c < 80. unat (cell_fg (s r c)) < 16 \<and> unat (cell_bg (s r c)) < 16)"

text \<open>The column 80 is a state the code reaches: the line is full and the next character wraps before it is written.  The
  hardware cursor and every written cell stay in columns 0 to 79.\<close>

definition vterm_ok :: "vterm \<Rightarrow> bool" where
  "vterm_ok vt \<longleftrightarrow> cursor_row vt < 25 \<and> cursor_col vt \<le> 80 \<and> cells_ok (screen_buffer vt)"

definition only_screen :: "vterm \<Rightarrow> vterm \<Rightarrow> bool" where
  "only_screen vt vt' \<longleftrightarrow>
     (\<forall>r c. 25 \<le> r \<or> 80 \<le> c \<longrightarrow> screen_buffer vt' r c = screen_buffer vt r c) \<and>
     (\<forall>i \<ge> 2000. framebuffer (io vt') i = framebuffer (io vt) i)"

lemma only_screen_refl [simp]: "only_screen vt vt"
  by (simp add: only_screen_def)

lemma only_screen_trans: "only_screen a b \<Longrightarrow> only_screen b c \<Longrightarrow> only_screen a c"
  by (simp add: only_screen_def)

lemma color_code_bound: "unat (color_code c) < 16"
  by (cases c) simp_all

lemma cell_index: "(r :: u16) < 25 \<Longrightarrow> (c :: u16) < 80 \<Longrightarrow>
    unat r < 25 \<and> unat c < 80 \<and> unat c + unat r * 80 < 2000"
  by (auto simp: word_less_nat_alt)

lemma move_cursor_ok:
  "vterm_ok vt \<Longrightarrow> vterm_ok (vterm_move_cursor row col vt) \<and> only_screen vt (vterm_move_cursor row col vt)"
  by (simp add: vterm_ok_def only_screen_def)

lemma scroll_ok:
  assumes "cells_ok (screen_buffer vt)"
  shows "vterm_ok (vterm_scroll vt) \<and> only_screen vt (vterm_scroll vt)"
  using assms color_code_bound
  by (auto simp: vterm_ok_def only_screen_def cells_ok_def scrolled_def blank_cell_def)

lemma clear_ok: "vterm_ok (vterm_clear fg bg vt) \<and> only_screen vt (vterm_clear fg bg vt)"
  using color_code_bound by (auto simp: vterm_ok_def only_screen_def cells_ok_def)

lemma flush_ok: "vterm_ok vt \<Longrightarrow> vterm_ok (vterm_flush vt) \<and> only_screen vt (vterm_flush vt)"
  by (simp add: vterm_ok_def only_screen_def)

lemma wrap_ok:
  assumes "vterm_ok vt"
  shows "cells_ok (screen_buffer (vterm_wrap vt)) \<and> cursor_col (vterm_wrap vt) < 80 \<and>
    cursor_row (vterm_wrap vt) < 25 \<and> only_screen vt (vterm_wrap vt)"
proof -
  let ?v = "if SCREEN_COLS \<le> cursor_col vt
    then vt\<lparr>cursor_col := 0, cursor_row := cursor_row vt + 1\<rparr> else vt"
  have v: "cells_ok (screen_buffer ?v)" "cursor_col ?v < 80" "only_screen vt ?v"
    using assms by (auto simp: vterm_ok_def SCREEN_COLS_def only_screen_def word_le_nat_alt word_less_nat_alt)
  have w: "vterm_wrap vt = (if SCREEN_ROWS \<le> cursor_row ?v then vterm_scroll ?v else ?v)"
    by (simp add: vterm_wrap_def Let_def)
  show ?thesis
  proof (cases "SCREEN_ROWS \<le> cursor_row ?v")
    case True
    with w scroll_ok [OF v(1)] only_screen_trans [OF v(3)] show ?thesis by (simp add: vterm_ok_def)
  next
    case False
    have "vterm_wrap vt = ?v" unfolding w using False by (simp only: if_False)
    moreover have "cursor_row ?v < 25" using False unfolding SCREEN_ROWS_def by (simp only: not_le)
    ultimately show ?thesis using v by simp
  qed
qed

definition written_cell :: "u8 \<Rightarrow> vterm \<Rightarrow> VTermCell" where
  "written_cell c vt = \<lparr>character = c, cell_fg = color_code (current_fg vt), cell_bg = color_code (current_bg vt)\<rparr>"

lemma put_simps:
  assumes "vterm_ok vt"
  defines "w \<equiv> vterm_wrap vt"
  shows "screen_buffer (vterm_put c vt) =
      set_cell (unat (cursor_row w)) (unat (cursor_col w)) (written_cell c w) (screen_buffer w)"
    "cursor_row (vterm_put c vt) = cursor_row w" "cursor_col (vterm_put c vt) = cursor_col w + 1"
    "current_mode (vterm_put c vt) = current_mode w"
    "framebuffer (io (vterm_put c vt)) = (if current_mode w = BUFFER_MODE_STREAM
      then (framebuffer (io w))(unat (cursor_col w) + unat (cursor_row w) * 80 := cell_word (written_cell c w))
      else framebuffer (io w))"
proof -
  have c: "cursor_col w < 80" "cursor_row w < 25" using wrap_ok [OF assms(1)] by (simp_all add: w_def)
  have "unat (cursor_col w + 1) = unat (cursor_col w) + 1"
    using c(1) by (simp add: unat_word_ariths word_less_nat_alt)
  then have "cursor_col w + 1 \<le> 80" using c(1) by (simp add: word_le_nat_alt word_less_nat_alt)
  with c show "screen_buffer (vterm_put c vt) =
      set_cell (unat (cursor_row w)) (unat (cursor_col w)) (written_cell c w) (screen_buffer w)"
    "cursor_row (vterm_put c vt) = cursor_row w" "cursor_col (vterm_put c vt) = cursor_col w + 1"
    "current_mode (vterm_put c vt) = current_mode w"
    "framebuffer (io (vterm_put c vt)) = (if current_mode w = BUFFER_MODE_STREAM
      then (framebuffer (io w))(unat (cursor_col w) + unat (cursor_row w) * 80 := cell_word (written_cell c w))
      else framebuffer (io w))"
    by (simp_all add: vterm_put_def Let_def w_def [symmetric] written_cell_def cell_word_def)
qed

lemma put_ok:
  assumes "vterm_ok vt"
  shows "vterm_ok (vterm_put c vt) \<and> only_screen vt (vterm_put c vt)"
proof -
  define w where "w = vterm_wrap vt"
  note ps = put_simps [OF assms, of c, folded w_def]
  have w: "cells_ok (screen_buffer w)" "cursor_col w < 80" "cursor_row w < 25" "only_screen vt w"
    using wrap_ok [OF assms] by (simp_all add: w_def)
  note idx = cell_index [OF w(3,2)]
  have "unat (cursor_col w + 1) = unat (cursor_col w) + 1" using idx by (simp add: unat_word_ariths)
  then have "cursor_col w + 1 \<le> 80" using idx by (simp add: word_le_nat_alt)
  moreover have "cells_ok (screen_buffer (vterm_put c vt))"
    using w(1) color_code_bound by (auto simp: ps cells_ok_def set_cell_def written_cell_def)
  ultimately have "vterm_ok (vterm_put c vt)" using w(3) by (simp add: vterm_ok_def ps)
  moreover have "only_screen w (vterm_put c vt)"
    using idx by (auto simp: only_screen_def ps set_cell_def)
  ultimately show ?thesis using only_screen_trans [OF w(4)] by blast
qed

lemma backspace_simps:
  assumes "vterm_ok vt" "\<not> (cursor_row vt = 0 \<and> cursor_col vt = 0)"
  defines "r \<equiv> if 0 < cursor_col vt then cursor_row vt else cursor_row vt - 1"
    and "c \<equiv> if 0 < cursor_col vt then cursor_col vt - 1 else 79"
  shows "r < 25" "c < 80" "cursor_row (vterm_backspace vt) = r" "cursor_col (vterm_backspace vt) = c"
    "screen_buffer (vterm_backspace vt) = set_cell (unat r) (unat c)
      ((screen_buffer vt (unat r) (unat c))\<lparr>character := 0x20\<rparr>) (screen_buffer vt)"
    "current_mode (vterm_backspace vt) = current_mode vt"
    "framebuffer (io (vterm_backspace vt)) = (if current_mode vt = BUFFER_MODE_STREAM
      then (framebuffer (io vt))(unat c + unat r * 80 :=
        vga_cell 0x20 (vga (color_code (current_fg vt))) (vga (color_code (current_bg vt))))
      else framebuffer (io vt))"
proof -
  have ok: "unat (cursor_row vt) < 25" "unat (cursor_col vt) \<le> 80"
    using assms(1) by (auto simp: vterm_ok_def word_less_nat_alt word_le_nat_alt)
  have pred: "unat (x - 1) = unat x - 1" if "(x :: u16) \<noteq> 0" for x
    using that by (simp add: unat_minus_one)
  show rc: "r < 25" using ok(1) assms(2) pred [of "cursor_row vt"]
    by (auto simp: r_def word_less_nat_alt word_gt_0 unat_eq_zero)
  show cc: "c < 80"
  proof (cases "cursor_col vt = 0")
    case False
    then have "0 < unat (cursor_col vt)" by (simp add: unat_gt_0)
    with False ok(2) pred [OF False] show ?thesis by (simp add: c_def word_less_nat_alt word_gt_0)
  qed (simp add: c_def)
  then have "c \<le> 80" by simp
  moreover have "vterm_backspace vt =
    (let vt = vterm_move_cursor r c vt;
         vt = vt\<lparr>screen_buffer := set_cell (unat (cursor_row vt)) (unat (cursor_col vt))
           ((screen_buffer vt (unat (cursor_row vt)) (unat (cursor_col vt)))\<lparr>character := 0x20\<rparr>) (screen_buffer vt)\<rparr>
     in put_framebuffer 0x20 vt)"
    using assms(2) by (auto simp: vterm_backspace_def Let_def r_def c_def SCREEN_COLS_def)
  ultimately show "cursor_row (vterm_backspace vt) = r" "cursor_col (vterm_backspace vt) = c"
    "screen_buffer (vterm_backspace vt) = set_cell (unat r) (unat c)
      ((screen_buffer vt (unat r) (unat c))\<lparr>character := 0x20\<rparr>) (screen_buffer vt)"
    "current_mode (vterm_backspace vt) = current_mode vt"
    "framebuffer (io (vterm_backspace vt)) = (if current_mode vt = BUFFER_MODE_STREAM
      then (framebuffer (io vt))(unat c + unat r * 80 :=
        vga_cell 0x20 (vga (color_code (current_fg vt))) (vga (color_code (current_bg vt))))
      else framebuffer (io vt))"
    using rc cc by (simp_all add: Let_def)
qed

lemma backspace_ok:
  assumes "vterm_ok vt"
  shows "vterm_ok (vterm_backspace vt) \<and> only_screen vt (vterm_backspace vt)"
proof (cases "cursor_row vt = 0 \<and> cursor_col vt = 0")
  case True
  then show ?thesis using assms by (simp add: vterm_backspace_def)
next
  case False
  note b = backspace_simps [OF assms False]
  note idx = cell_index [OF b(1,2)]
  have "cells_ok (screen_buffer (vterm_backspace vt))"
    using assms by (auto simp: b(5) vterm_ok_def cells_ok_def set_cell_def)
  moreover have "cursor_row (vterm_backspace vt) < 25" "cursor_col (vterm_backspace vt) \<le> 80"
    using b(1-4) by (simp_all only: order_less_imp_le less_trans)
  ultimately show ?thesis
    using idx by (auto simp: vterm_ok_def only_screen_def b(5,7) set_cell_def)
qed

lemma write_char_ok:
  assumes "vterm_ok vt"
  shows "vterm_ok (vterm_write_char c vt) \<and> only_screen vt (vterm_write_char c vt)"
proof -
  have "\<not> SCREEN_ROWS \<le> cursor_row (vterm_move_cursor (cursor_row vt + 1) 0 vt)"
    using assms by (auto simp: vterm_ok_def SCREEN_ROWS_def not_le)
  then show ?thesis
    using move_cursor_ok [OF assms] backspace_ok [OF assms] put_ok [OF assms]
    by (simp add: vterm_write_char_def Let_def)
qed

lemma write_chars_ok:
  "vterm_ok vt \<Longrightarrow> vterm_ok (fold vterm_write_char cs vt) \<and> only_screen vt (fold vterm_write_char cs vt)"
proof (induction cs arbitrary: vt)
  case (Cons c cs)
  from write_char_ok [OF Cons.prems, of c] Cons.IH [of "vterm_write_char c vt"] show ?case
    by (auto intro: only_screen_trans)
qed simp

lemma set_color_ok:
  "vterm_ok vt \<Longrightarrow> vterm_ok (vterm_set_color fg bg vt) \<and> only_screen vt (vterm_set_color fg bg vt)"
  by (simp add: vterm_ok_def only_screen_def vterm_set_color_def)

definition hex_digits :: "u32 \<Rightarrow> u8 list" where
  "hex_digits val = map (\<lambda>i. hex_chars ! unat (hex_nibble val i)) [0..<8]"

lemma write_hex_chars:
  "vterm_write_hex val fg bg vt = vterm_set_color (current_fg vt) (current_bg vt)
     (fold vterm_write_char (0x30 # 0x78 # hex_digits val) (vterm_set_color fg bg vt))"
  by (simp add: vterm_write_hex_def hex_digits_def Let_def fold_map comp_def)

lemma write_hex_ok:
  assumes "vterm_ok vt"
  shows "vterm_ok (vterm_write_hex val fg bg vt) \<and> only_screen vt (vterm_write_hex val fg bg vt)"
proof -
  let ?a = "vterm_set_color fg bg vt"
  let ?b = "fold vterm_write_char (0x30 # 0x78 # hex_digits val) ?a"
  have a: "vterm_ok ?a" "only_screen vt ?a" using set_color_ok [OF assms] by blast+
  have b: "vterm_ok ?b" "only_screen ?a ?b" using write_chars_ok [OF a(1)] by blast+
  from set_color_ok [OF b(1)] only_screen_trans [OF a(2) b(2)] show ?thesis
    unfolding write_hex_chars by (blast intro: only_screen_trans)
qed

lemma write_binary_chars: "\<exists>cs. vterm_write_binary byte vt = fold vterm_write_char cs vt"
  unfolding vterm_write_binary_def
  by (rule exI [of _ "map (\<lambda>b. if byte AND push_bit (7 - b) 1 \<noteq> 0 then 0x31 else 0x30) [0..<8]"])
    (simp add: fold_map comp_def)

lemma visible_ok:
  assumes "vterm_ok vt"
  shows "vterm_ok (vterm_set_cursor_visible dev b vt) \<and> only_screen vt (vterm_set_cursor_visible dev b vt)"
  using assms by (auto simp: vterm_set_cursor_visible_def Let_def inb_def vterm_ok_def only_screen_def)

lemma shape_ok:
  assumes "vterm_ok vt"
  shows "vterm_ok (vterm_set_cursor_shape dev sh vt) \<and> only_screen vt (vterm_set_cursor_shape dev sh vt)"
  using assms by (auto simp: vterm_set_cursor_shape_def Let_def inb_def vterm_ok_def only_screen_def)

section \<open>Strings\<close>

text \<open>\<open>vterm_write\<close> returns for every NUL-terminated string and writes exactly its
  characters, in order.\<close>

lemma vterm_write_str:
  assumes "str_at m str s" "length s < 4294967296"
  shows "vterm_write str m vt = Some (fold vterm_write_char s vt)"
proof -
  have "vterm_write_loop str (U32 k) m vt = Some (fold vterm_write_char (drop k s) vt)"
    if "k \<le> length s" for k vt
    using that
  proof (induction "length s - k" arbitrary: k vt)
    case 0
    then show ?case using str_at_end [OF assms(1)] by (subst vterm_write_loop.simps) simp
  next
    case (Suc d)
    then have k: "k < length s" by simp
    have "load8 m (str + U32 k) = s ! k" "s ! k \<noteq> 0" using str_at_nth [OF assms(1) k] by simp_all
    moreover have "vterm_write_loop str (U32 (Suc k)) m (vterm_write_char (s ! k) vt) =
        Some (fold vterm_write_char (drop (Suc k) s) (vterm_write_char (s ! k) vt))"
      using Suc.hyps(2) k by (intro Suc.hyps(1)) simp_all
    moreover have "drop k s = s ! k # drop (Suc k) s" using k by (simp add: Cons_nth_drop_Suc)
    ultimately show ?case by (subst vterm_write_loop.simps) (simp add: add.commute)
  qed
  from this [of 0] show ?thesis by (simp add: vterm_write_def)
qed

section \<open>Sequences of operations\<close>

text \<open>Every public operation of the console that changes it.  A string is an address, read in the memory of the moment.\<close>

datatype vterm_op = Init VTermColor VTermColor | Clear VTermColor VTermColor | WriteChar u8 | Write u32
  | WriteBinary u8 | WriteHex u32 VTermColor VTermColor | WriteLabelHex u32 u32 | PrintAt u16 u16 u32
  | PrintAligned u16 u32 VTermAlignment | SetColor VTermColor VTermColor
  | MoveCursor u16 u16 | SetMode VTermBufferingMode | Flush | SetVisible bool | SetShape CursorShape

fun exec_vterm :: "device \<Rightarrow> mem \<Rightarrow> vterm_op \<Rightarrow> vterm \<Rightarrow> vterm option" where
  "exec_vterm dev m (Init fg bg) vt = Some (vterm_init fg bg vt)"
| "exec_vterm dev m (Clear fg bg) vt = Some (vterm_clear fg bg vt)"
| "exec_vterm dev m (WriteChar c) vt = Some (vterm_write_char c vt)"
| "exec_vterm dev m (Write str) vt = vterm_write str m vt"
| "exec_vterm dev m (WriteBinary b) vt = Some (vterm_write_binary b vt)"
| "exec_vterm dev m (WriteHex v fg bg) vt = Some (vterm_write_hex v fg bg vt)"
| "exec_vterm dev m (WriteLabelHex str v) vt = vterm_write_label_hex str v m vt"
| "exec_vterm dev m (PrintAt r c str) vt = vterm_print_at r c str m vt"
| "exec_vterm dev m (PrintAligned r str al) vt = vterm_print_aligned r str al m vt"
| "exec_vterm dev m (SetColor fg bg) vt = Some (vterm_set_color fg bg vt)"
| "exec_vterm dev m (MoveCursor r c) vt = Some (vterm_move_cursor r c vt)"
| "exec_vterm dev m (SetMode mode) vt = Some (vterm_set_buffering_mode mode vt)"
| "exec_vterm dev m Flush vt = Some (vterm_flush vt)"
| "exec_vterm dev m (SetVisible b) vt = Some (vterm_set_cursor_visible dev b vt)"
| "exec_vterm dev m (SetShape sh) vt = Some (vterm_set_cursor_shape dev sh vt)"

fun exec_vterms :: "device \<Rightarrow> (mem \<times> vterm_op) list \<Rightarrow> vterm \<Rightarrow> vterm option" where
  "exec_vterms dev [] vt = Some vt"
| "exec_vterms dev ((m, c) # cs) vt =
     (case exec_vterm dev m c vt of None \<Rightarrow> None | Some vt \<Rightarrow> exec_vterms dev cs vt)"

text \<open>The strings the operations are given end with a NUL.\<close>

definition terminated :: "mem \<Rightarrow> u32 \<Rightarrow> bool" where
  "terminated m str \<longleftrightarrow> (\<exists>s. str_at m str s \<and> length s < 4294967296)"

fun text_ok :: "mem \<Rightarrow> vterm_op \<Rightarrow> bool" where
  "text_ok m (Write str) = terminated m str"
| "text_ok m (WriteLabelHex str v) = terminated m str"
| "text_ok m (PrintAt r c str) = terminated m str"
| "text_ok m (PrintAligned r str al) = terminated m str"
| "text_ok m c = True"

definition stays :: "vterm \<Rightarrow> vterm \<Rightarrow> bool" where
  "stays vt vt' \<longleftrightarrow> vterm_ok vt' \<and> only_screen vt vt'"

lemma stays_trans: "stays a b \<Longrightarrow> stays b c \<Longrightarrow> stays a c"
  by (auto simp: stays_def intro: only_screen_trans)

lemma stays_ok: "stays a b \<Longrightarrow> vterm_ok b"
  by (simp add: stays_def)

lemma write_stays:
  assumes "vterm_ok vt" "terminated m str"
  shows "\<exists>vt'. vterm_write str m vt = Some vt' \<and> stays vt vt'"
  using assms(2) write_chars_ok [OF assms(1)] vterm_write_str by (fastforce simp: terminated_def stays_def)

lemma print_at_stays:
  assumes "vterm_ok vt" "terminated m str"
  shows "\<exists>vt'. vterm_print_at r c str m vt = Some vt' \<and> stays vt vt'"
proof -
  have mv: "stays vt (vterm_move_cursor r c vt)" using move_cursor_ok [OF assms(1)] by (simp add: stays_def)
  obtain w where w: "vterm_write str m (vterm_move_cursor r c vt) = Some w" "stays (vterm_move_cursor r c vt) w"
    using write_stays [OF stays_ok [OF mv] assms(2)] by blast
  have "stays w (vterm_flush w)" using flush_ok [OF stays_ok [OF w(2)]] by (simp add: stays_def)
  with stays_trans [OF mv w(2)] w(1) show ?thesis by (auto simp: vterm_print_at_def intro: stays_trans)
qed

lemma print_aligned_stays:
  assumes "vterm_ok vt" "terminated m str"
  shows "\<exists>vt'. vterm_print_aligned r str al m vt = Some vt' \<and> stays vt vt'"
proof -
  obtain n where "kstrlen str m = Some n" using assms(2) kstrlen_str by (fastforce simp: terminated_def)
  then show ?thesis using print_at_stays [OF assms] by (simp add: vterm_print_aligned_def)
qed

lemma label_hex_stays:
  assumes "vterm_ok vt" "terminated m str"
  shows "\<exists>vt'. vterm_write_label_hex str v m vt = Some vt' \<and> stays vt vt'"
proof -
  obtain w where w: "vterm_write str m vt = Some w" "stays vt w" using write_stays [OF assms] by blast
  let ?h = "vterm_write_hex v COLOR_WHITE COLOR_BLACK w"
  have h: "stays w ?h" using write_hex_ok [OF stays_ok [OF w(2)]] by (simp add: stays_def)
  have "stays ?h (vterm_write_char 0x0A ?h)" using write_char_ok [OF stays_ok [OF h]] by (simp add: stays_def)
  with w h show ?thesis by (auto simp: vterm_write_label_hex_def intro: stays_trans)
qed

lemma exec_vterm_ok:
  assumes "vterm_ok vt" "text_ok m c"
  shows "\<exists>vt'. exec_vterm dev m c vt = Some vt' \<and> stays vt vt'"
proof (cases c)
  case (Init fg bg)
  let ?v = "vterm_clear fg bg (vt\<lparr>current_mode := BUFFER_MODE_STREAM\<rparr>)"
  have "vterm_ok ?v" "only_screen vt ?v"
    using clear_ok [of fg bg "vt\<lparr>current_mode := BUFFER_MODE_STREAM\<rparr>"] by (auto simp: only_screen_def)
  with Init flush_ok [of ?v] only_screen_trans [of vt ?v] show ?thesis by (simp add: vterm_init_def stays_def)
next
  case (WriteBinary b)
  obtain cs where "vterm_write_binary b vt = fold vterm_write_char cs vt"
    using write_binary_chars by blast
  with WriteBinary write_chars_ok [OF assms(1), of cs] show ?thesis by (simp add: stays_def)
next
  case (SetMode mode)
  then show ?thesis using assms(1) by (simp add: vterm_set_buffering_mode_def vterm_ok_def only_screen_def stays_def)
qed (use assms in \<open>simp_all add: write_stays print_at_stays print_aligned_stays label_hex_stays\<close>,
    simp_all add: stays_def clear_ok write_char_ok write_hex_ok set_color_ok move_cursor_ok flush_ok visible_ok shape_ok)

lemma exec_vterms_ok:
  "vterm_ok vt \<Longrightarrow> \<forall>(m, c) \<in> set cs. text_ok m c \<Longrightarrow> \<exists>vt'. exec_vterms dev cs vt = Some vt' \<and> stays vt vt'"
proof (induction cs arbitrary: vt)
  case Nil
  then show ?case by (simp add: stays_def)
next
  case (Cons mc cs)
  obtain m c where mc: "mc = (m, c)" by (cases mc)
  obtain w where w: "exec_vterm dev m c vt = Some w" "stays vt w"
    using exec_vterm_ok [OF Cons.prems(1), of m c dev] Cons.prems(2) mc by auto
  obtain vt' where "exec_vterms dev cs w = Some vt'" "stays w vt'"
    using Cons.IH [OF stays_ok [OF w(2)]] Cons.prems(2) by auto
  with w stays_trans show ?case by (auto simp: mc)
qed

section \<open>The text memory mirrors the buffer\<close>

definition mirrors :: "vterm \<Rightarrow> bool" where
  "mirrors vt \<longleftrightarrow> (\<forall>i < 2000. framebuffer (io vt) i = mirror_cell (screen_buffer vt) i)"

lemma mirror_set_cell:
  assumes "r < 25" "c < 80"
  shows "mirror_cell (set_cell r c x s) i = (if i = c + r * 80 then cell_word x else mirror_cell s i)"
proof -
  have "i div 80 = r \<and> i mod 80 = c \<longleftrightarrow> i = c + r * 80"
    using assms(2) div80 [of r i] by auto
  then show ?thesis by (auto simp: mirror_cell_def set_cell_def)
qed

lemma wrap_mirrors:
  assumes "vterm_ok vt" "mirrors vt" "current_mode vt = BUFFER_MODE_STREAM"
  shows "mirrors (vterm_wrap vt)" "current_mode (vterm_wrap vt) = BUFFER_MODE_STREAM"
  using assms by (auto simp: vterm_wrap_def Let_def mirrors_def)

lemma put_mirrors:
  assumes "vterm_ok vt" "mirrors vt" "current_mode vt = BUFFER_MODE_STREAM"
  shows "mirrors (vterm_put c vt)" "current_mode (vterm_put c vt) = BUFFER_MODE_STREAM"
proof -
  define w where "w = vterm_wrap vt"
  note ps = put_simps [OF assms(1), of c, folded w_def]
  have w: "cursor_col w < 80" "cursor_row w < 25" using wrap_ok [OF assms(1)] by (simp_all add: w_def)
  note wm = wrap_mirrors [OF assms, folded w_def] and idx = cell_index [OF w(2,1)]
  show "mirrors (vterm_put c vt)"
    using wm idx by (simp add: mirrors_def ps mirror_set_cell)
  show "current_mode (vterm_put c vt) = BUFFER_MODE_STREAM" using wm by (simp add: ps)
qed

text \<open>The cell a backspace erases, and that the colours of a cell can be read off text memory.\<close>

definition erased_cell :: "vterm \<Rightarrow> VTermCell" where
  "erased_cell vt =
     (let r = (if 0 < cursor_col vt then cursor_row vt else cursor_row vt - 1);
          k = (if 0 < cursor_col vt then cursor_col vt - 1 else 79)
      in screen_buffer vt (unat r) (unat k))"

definition current_colors :: "vterm \<Rightarrow> VTermCell \<Rightarrow> bool" where
  "current_colors vt x \<longleftrightarrow> cell_fg x = color_code (current_fg vt) \<and> cell_bg x = color_code (current_bg vt)"

lemma vga_code: "unat c < 16 \<Longrightarrow> vga c = c"
proof -
  have "list_all (\<lambda>i. vga_color_lookup ! i = of_nat i) [0..<16]" by code_simp
  then show "unat c < 16 \<Longrightarrow> vga c = c" by (simp add: list_all_iff)
qed

lemma color_code_less: "unat (color_code c) < 16"
  by (cases c) simp_all

lemma vga_cell_bits:
  "n < 4 \<Longrightarrow> bit (vga_cell ch fg bg) (8 + n) = bit fg n" "n < 4 \<Longrightarrow> bit (vga_cell ch fg bg) (12 + n) = bit bg n"
proof -
  have m: "(0x00FF :: u16) = mask 8" "(0x000F :: u16) = mask 4" by (simp_all add: mask_eq_exp_minus_1)
  show "n < 4 \<Longrightarrow> bit (vga_cell ch fg bg) (8 + n) = bit fg n" "n < 4 \<Longrightarrow> bit (vga_cell ch fg bg) (12 + n) = bit bg n"
    unfolding vga_cell_def Let_def m by (auto simp: bit_simps)
qed

lemma vga_cell_colors:
  assumes "unat fg < 16" "unat bg < 16" "unat fg' < 16" "unat bg' < 16"
  shows "vga_cell ch fg bg = vga_cell ch fg' bg' \<longleftrightarrow> fg = fg' \<and> bg = bg'"
proof -
  have nib: "x = y" if "unat x < 16" "unat y < 16" "\<forall>n < 4. bit x n = bit y n" for x y :: u8
  proof -
    have "take_bit 4 x = take_bit 4 y" using that(3) by (intro bit_eqI) (auto simp: bit_simps)
    then show ?thesis using that(1,2) by (simp add: take_bit_eq_mod word_unat_eq_iff unat_mod)
  qed
  have "fg = fg' \<and> bg = bg'" if eq: "vga_cell ch fg bg = vga_cell ch fg' bg'"
    using nib [OF assms(1,3)] nib [OF assms(2,4)] vga_cell_bits [of _ ch fg bg] vga_cell_bits [of _ ch fg' bg'] eq by simp
  then show ?thesis by blast
qed

lemma backspace_mirrors:
  assumes "vterm_ok vt" "mirrors vt" "current_mode vt = BUFFER_MODE_STREAM"
  shows "mirrors (vterm_backspace vt) \<longleftrightarrow>
    cursor_row vt = 0 \<and> cursor_col vt = 0 \<or> current_colors vt (erased_cell vt)"
proof (cases "cursor_row vt = 0 \<and> cursor_col vt = 0")
  case True
  then show ?thesis using assms(2) by (simp add: vterm_backspace_def)
next
  case False
  define r where "r = (if 0 < cursor_col vt then cursor_row vt else cursor_row vt - 1)"
  define k where "k = (if 0 < cursor_col vt then cursor_col vt - 1 else 79)"
  note b = backspace_simps [OF assms(1) False, folded r_def k_def]
  let ?x = "screen_buffer vt (unat r) (unat k)" and ?i = "unat k + unat r * 80"
  note idx = cell_index [OF b(1,2)]
  have x: "erased_cell vt = ?x" by (simp add: erased_cell_def r_def k_def Let_def)
  have ok: "unat (cell_fg ?x) < 16" "unat (cell_bg ?x) < 16"
    using assms(1) idx by (auto simp: vterm_ok_def cells_ok_def)
  have "mirrors (vterm_backspace vt) \<longleftrightarrow>
      vga_cell 0x20 (vga (color_code (current_fg vt))) (vga (color_code (current_bg vt))) = cell_word (?x\<lparr>character := 0x20\<rparr>)"
    using assms(2,3) idx by (auto simp: mirrors_def b(5,7) mirror_set_cell)
  also have "\<dots> \<longleftrightarrow> current_colors vt ?x"
    using ok color_code_less by (auto simp: cell_word_def vga_code vga_cell_colors current_colors_def)
  finally show ?thesis using False x by auto
qed

lemma newline_effect:
  assumes "vterm_ok vt"
  shows "vterm_write_char 0x0A vt = vterm_move_cursor (cursor_row vt + 1) 0 vt"
proof -
  have "\<not> SCREEN_ROWS \<le> cursor_row (vterm_move_cursor (cursor_row vt + 1) 0 vt)"
    using assms by (auto simp: vterm_ok_def SCREEN_ROWS_def not_le)
  then show ?thesis by (simp add: vterm_write_char_def Let_def)
qed

section \<open>Hexadecimal output\<close>

definition hex_digit_value :: "u8 \<Rightarrow> u32" where
  "hex_digit_value d = (if d < 0x3A then ucast (d - 0x30) else ucast (d - 0x37))"

definition hex_value :: "u8 list \<Rightarrow> u32" where
  "hex_value ds = fold (\<lambda>d acc. acc * 16 + hex_digit_value d) ds 0"

lemma hex_digits_back: "list_all (\<lambda>k. hex_digit_value (hex_chars ! k) = of_nat k) [0..<16]"
  by code_simp

lemma hex_digit_back: "k < 16 \<Longrightarrow> hex_digit_value (hex_chars ! k) = of_nat k"
  using hex_digits_back by (simp add: list_all_iff)

lemma low_nibble:
  "unat (ucast (drop_bit n (val :: u32) AND 0xF) :: u8) = unat val div 2 ^ n mod 16"
proof -
  have "(0xF :: u32) = mask 4" by (simp add: mask_eq_exp_minus_1)
  then have "drop_bit n val AND 0xF = take_bit 4 (drop_bit n val)" by (simp add: take_bit_eq_mask)
  moreover have "unat val mod 4294967296 = unat val" using unat_u32_bound [of val] by simp
  ultimately show ?thesis
    by (simp add: unsigned_ucast_eq unsigned_take_bit_eq unsigned_drop_bit_eq)
      (simp add: take_bit_eq_mod drop_bit_eq_div mod_mod_cancel)
qed

lemma hex_nibble_unat: "i < 8 \<Longrightarrow> unat (hex_nibble val i) = unat val div 16 ^ (7 - i) mod 16"
proof -
  assume i: "i < 8"
  have "(16 :: nat) ^ (7 - i) = (2 ^ 4) ^ (7 - i)" by simp
  also have "\<dots> = 2 ^ (4 * (7 - i))" by (simp only: power_mult)
  also have "4 * (7 - i) = 28 - i * 4" by simp
  finally show ?thesis by (simp add: hex_nibble_def low_nibble)
qed

text \<open>Reading the digits back gives the number.\<close>

lemma hex_value_prefix:
  "n \<le> 8 \<Longrightarrow> fold (\<lambda>d acc. acc * 16 + hex_digit_value d)
      (map (\<lambda>i. hex_chars ! unat (hex_nibble val i)) [0..<n]) 0 = U32 (unat val div 16 ^ (8 - n))"
proof (induction n)
  case 0
  then show ?case using unat_u32_bound [of val] by simp
next
  case (Suc n)
  let ?h = "unat val div 16 ^ (7 - n)"
  have "Suc (7 - n) = 8 - n" using Suc.prems by simp
  then have "(16 :: nat) ^ (8 - n) = 16 ^ (7 - n) * 16" using power_Suc2 [of "16 :: nat" "7 - n"] by simp
  then have "unat val div 16 ^ (8 - n) = ?h div 16" by (simp only: div_mult2_eq)
  moreover have "U32 (h div 16) * 16 + U32 (h mod 16) = U32 h" for h :: nat
  proof -
    have "U32 (h div 16 * 16 + h mod 16) = U32 h" by simp
    then show ?thesis by (simp only: of_nat_add of_nat_mult of_nat_numeral)
  qed
  moreover have "8 - Suc n = 7 - n" by simp
  ultimately show ?case
    using Suc by (simp add: hex_nibble_unat hex_digit_back)
qed

section \<open>Properties\<close>

text \<open>C32: whatever sequence of operations the console is asked to perform, with NUL-terminated strings, it returns; its
  cursor then has a row below 25 and a column of at most 80 (80 is a full line whose wrap is pending; nothing is
  ever written there), the colours in the buffer are valid, and nothing but the 25 by 80 cells of the buffer and the 2000 cells of
  text memory was written.\<close>

theorem vterm_in_bounds:
  assumes "vterm_ok vt" "\<forall>(m, c) \<in> set cs. text_ok m c"
  shows "\<exists>vt'. exec_vterms dev cs vt = Some vt' \<and> cursor_row vt' < 25 \<and> cursor_col vt' \<le> 80 \<and>
    cells_ok (screen_buffer vt') \<and> only_screen vt vt'"
  using exec_vterms_ok [OF assms] by (auto simp: stays_def vterm_ok_def)

theorem vterm_in_bounds_witness:
  "\<exists>vt'. exec_vterms (\<lambda>_ _. 0) [(\<lambda>_. 0, Init COLOR_WHITE COLOR_BLACK), (\<lambda>_. 0, WriteChar 0x41),
     ((\<lambda>_. 0)(0x500 := 0x42), PrintAligned 24 0x500 VTERM_ALIGN_RIGHT)]
     (vterm_static \<lparr>ports = [], framebuffer = (\<lambda>_. 0)\<rparr>) = Some vt' \<and> cursor_row vt' < 25 \<and> cursor_col vt' \<le> 80"
proof -
  let ?vt = "vterm_static \<lparr>ports = [], framebuffer = (\<lambda>_. 0)\<rparr>"
  let ?m = "(\<lambda>_. 0)(0x500 := 0x42) :: mem"
  let ?cs = "[(\<lambda>_. 0, Init COLOR_WHITE COLOR_BLACK), (\<lambda>_. 0, WriteChar 0x41), (?m, PrintAligned 24 0x500 VTERM_ALIGN_RIGHT)]"
  have ok: "vterm_ok ?vt" by (simp add: vterm_static_def vterm_ok_def cells_ok_def)
  have "str_at ?m 0x500 [0x42]" by (simp add: load8_def)
  then have "terminated ?m 0x500" unfolding terminated_def by (intro exI [of _ "[0x42]"]) simp
  then have "\<forall>(m, c) \<in> set ?cs. text_ok m c" by simp
  from vterm_in_bounds [OF ok this, of "\<lambda>_ _. 0"] show ?thesis by blast
qed

text \<open>C33: in stream mode the text memory shows the screen buffer.  Every character but a backspace keeps every cell
  of text memory equal to its cell of the buffer.  A backspace keeps it exactly when it has nothing to erase or the
  erased cell has the current colours: it draws the blank in the current colours while the buffer keeps the
  cell's own.\<close>

theorem vterm_stream_mirrors:
  assumes "vterm_ok vt" "mirrors vt" "current_mode vt = BUFFER_MODE_STREAM"
  shows "current_mode (vterm_write_char c vt) = BUFFER_MODE_STREAM \<and>
    (c \<noteq> 0x08 \<longrightarrow> mirrors (vterm_write_char c vt)) \<and>
    (mirrors (vterm_write_char 0x08 vt) \<longleftrightarrow>
      cursor_row vt = 0 \<and> cursor_col vt = 0 \<or> current_colors vt (erased_cell vt))"
proof -
  have "vterm_write_char 0x08 vt = vterm_backspace vt" by (simp add: vterm_write_char_def)
  moreover have "current_mode (vterm_backspace vt) = BUFFER_MODE_STREAM"
    using assms(3) backspace_simps(6) [OF assms(1)] by (cases "cursor_row vt = 0 \<and> cursor_col vt = 0") (simp_all add: vterm_backspace_def)
  moreover have "mirrors (vterm_write_char c vt) \<and> current_mode (vterm_write_char c vt) = BUFFER_MODE_STREAM" if "c \<noteq> 0x08"
  proof (cases "c = 0x0A")
    case True
    then show ?thesis using assms by (simp add: newline_effect mirrors_def)
  next
    case False
    then show ?thesis using that put_mirrors [OF assms] by (simp add: vterm_write_char_def)
  qed
  ultimately show ?thesis using backspace_mirrors [OF assms] by metis
qed

theorem vterm_stream_mirrors_witness:
  "\<exists>vt. mirrors vt \<and> mirrors (vterm_write_char 0x41 vt) \<and> \<not> mirrors (vterm_write_char 0x08 vt)"
proof -
  let ?v = "vterm_flush ((vterm_static \<lparr>ports = [], framebuffer = (\<lambda>_. 0)\<rparr>)\<lparr>cursor_col := 1\<rparr>)"
  have ok: "vterm_ok ?v" "current_mode ?v = BUFFER_MODE_STREAM" and m: "mirrors ?v"
    by (simp_all add: vterm_static_def vterm_ok_def cells_ok_def mirrors_def)
  have "\<not> current_colors ?v (erased_cell ?v)" "cursor_col ?v \<noteq> 0"
    by (simp_all add: current_colors_def erased_cell_def vterm_static_def Let_def)
  with vterm_stream_mirrors [OF ok(1) m ok(2), of "0x41"] m show ?thesis by auto
qed

text \<open>C36: a newline on the last row does not scroll.  The cursor only goes back to the start of
  the row and the screen keeps its contents, so the next line is written over the last one;
  the test for scrolling after it can never hold.\<close>

theorem newline_never_scrolls:
  assumes "vterm_ok vt" "cursor_row vt = 24"
  shows "screen_buffer (vterm_write_char 0x0A vt) = screen_buffer vt \<and>
    framebuffer (io (vterm_write_char 0x0A vt)) = framebuffer (io vt) \<and>
    cursor_row (vterm_write_char 0x0A vt) = 24 \<and> cursor_col (vterm_write_char 0x0A vt) = 0"
  using assms by (simp add: newline_effect)

theorem newline_never_scrolls_witness:
  "cursor_row (vterm_write_char 0x0A ((vterm_static \<lparr>ports = [], framebuffer = (\<lambda>_. 0)\<rparr>)\<lparr>cursor_row := 24\<rparr>)) = 24"
proof -
  let ?v = "(vterm_static \<lparr>ports = [], framebuffer = (\<lambda>_. 0)\<rparr>)\<lparr>cursor_row := 24\<rparr>"
  have "vterm_ok ?v" "cursor_row ?v = 24" by (simp_all add: vterm_static_def vterm_ok_def cells_ok_def)
  from newline_never_scrolls [OF this] show ?thesis by blast
qed

text \<open>A character written at the end of the last row does scroll: every row moves up by
  one, the last row is blank but for the character in its first cell, and the cursor follows
  the character.\<close>

theorem vterm_wrap_scrolls:
  assumes "vterm_ok vt" "cursor_row vt = 24" "cursor_col vt = 80" "c \<noteq> 0x0A" "c \<noteq> 0x08"
  shows "(\<forall>r < 24. \<forall>k < 80. screen_buffer (vterm_write_char c vt) r k = screen_buffer vt (Suc r) k) \<and>
    screen_buffer (vterm_write_char c vt) 24 0 = written_cell c vt \<and>
    (\<forall>k. 0 < k \<and> k < 80 \<longrightarrow> screen_buffer (vterm_write_char c vt) 24 k = blank_cell vt) \<and>
    cursor_row (vterm_write_char c vt) = 24 \<and> cursor_col (vterm_write_char c vt) = 1"
proof -
  let ?u = "vt\<lparr>cursor_col := 0, cursor_row := 25\<rparr>"
  have w: "vterm_wrap vt = vterm_scroll ?u"
    using assms(2,3) by (simp add: vterm_wrap_def SCREEN_COLS_def SCREEN_ROWS_def)
  have "blank_cell ?u = blank_cell vt" "written_cell c (vterm_scroll ?u) = written_cell c vt"
    by (simp_all add: blank_cell_def written_cell_def)
  with assms(4,5) show ?thesis
    by (simp add: vterm_write_char_def put_simps [OF assms(1)] w set_cell_def scrolled_def)
qed

theorem vterm_wrap_scrolls_witness:
  "screen_buffer (vterm_write_char 0x41 ((vterm_static \<lparr>ports = [], framebuffer = (\<lambda>_. 0)\<rparr>)
     \<lparr>cursor_row := 24, cursor_col := 80\<rparr>)) 24 0 = \<lparr>character = 0x41, cell_fg = 15, cell_bg = 0\<rparr>"
proof -
  let ?v = "(vterm_static \<lparr>ports = [], framebuffer = (\<lambda>_. 0)\<rparr>)\<lparr>cursor_row := 24, cursor_col := 80\<rparr>"
  have "vterm_ok ?v" "cursor_row ?v = 24" "cursor_col ?v = 80"
    by (simp_all add: vterm_static_def vterm_ok_def cells_ok_def)
  from vterm_wrap_scrolls [OF this, of "0x41"] show ?thesis by (simp add: written_cell_def vterm_static_def)
qed

text \<open>\<open>vterm_write_hex\<close> writes \<open>0x\<close> and eight hexadecimal digits whose value is the
  number, in the given colours, and restores the colours.\<close>

theorem vterm_write_hex_roundtrip:
  "\<exists>ds. length ds = 8 \<and> set ds \<subseteq> set hex_chars \<and> hex_value ds = val \<and>
     vterm_write_hex val fg bg vt = vterm_set_color (current_fg vt) (current_bg vt)
       (fold vterm_write_char (0x30 # 0x78 # ds) (vterm_set_color fg bg vt))"
proof (intro exI [of _ "hex_digits val"] conjI)
  show "hex_value (hex_digits val) = val"
    using hex_value_prefix [of 8 val] by (simp add: hex_value_def hex_digits_def)
  have "hex_chars ! unat (hex_nibble val i) \<in> set hex_chars" if "i < 8" for i
    using that by (intro nth_mem) (simp add: hex_nibble_unat hex_chars_def)
  then show "set (hex_digits val) \<subseteq> set hex_chars" by (auto simp: hex_digits_def)
qed (simp_all add: hex_digits_def write_hex_chars [unfolded hex_digits_def])

end
