(* ===== verification/Tables.thy ===== *)
theory Tables
  imports Prelude
begin

text \<open>
  \<^verbatim>\<open>src/kernel/arch/i386/tables/gdt.c\<close> and \<^verbatim>\<open>idt.c\<close>: the descriptor tables.
  The address of each static table and the table of interrupt stubs (assembly) are parameters.
  The \<open>lgdt\<close> and \<open>lidt\<close> instructions load the returned register values.  The decoding
  functions are what the processor makes of a descriptor, as in the i386 architecture.
\<close>

section \<open>Global descriptor table\<close>

record GdtDescriptor =
  limit_low :: u16
  gdt_base_low :: u16
  base_middle :: u8
  access :: u8
  granularity :: u8
  gdt_base_high :: u8

record GdtRegister =
  gdtr_limit :: u16
  gdtr_base :: u32

definition GDT_ENTRIES :: nat where "GDT_ENTRIES = 5"

definition gdt_set_gate :: "nat \<Rightarrow> u32 \<Rightarrow> u32 \<Rightarrow> u8 \<Rightarrow> u8 \<Rightarrow> GdtDescriptor list \<Rightarrow> GdtDescriptor list" where
  "gdt_set_gate num base limit acc gran gdt =
     gdt[num := \<lparr>limit_low = ucast (limit AND 0xFFFF), gdt_base_low = ucast (base AND 0xFFFF),
       base_middle = ucast (drop_bit 16 base AND 0xFF), access = acc,
       granularity = ucast (drop_bit 16 limit AND 0x0F) OR (gran AND 0xF0),
       gdt_base_high = ucast (drop_bit 24 base AND 0xFF)\<rparr>]"

definition init_gdt :: "u32 \<Rightarrow> GdtDescriptor list \<Rightarrow> GdtRegister \<times> GdtDescriptor list" where
  "init_gdt gdt_address gdt =
     (let gdt_pointer = \<lparr>gdtr_limit = of_nat (8 * GDT_ENTRIES - 1), gdtr_base = gdt_address\<rparr>;
          gdt = gdt_set_gate 0 0 0 0 0 gdt;
          gdt = gdt_set_gate 1 0 0xFFFFFFFF 0x9A 0xCF gdt;
          gdt = gdt_set_gate 2 0 0xFFFFFFFF 0x92 0xCF gdt;
          gdt = gdt_set_gate 3 0 0xFFFFFFFF 0xFA 0xCF gdt;
          gdt = gdt_set_gate 4 0 0xFFFFFFFF 0xF2 0xCF gdt
      in (gdt_pointer, gdt))"

text \<open>Base, limit in bytes, privilege level and the present, code and write bits.\<close>

definition segment_base :: "GdtDescriptor \<Rightarrow> u32" where
  "segment_base d = ucast (gdt_base_low d) OR push_bit 16 (ucast (base_middle d))
     OR push_bit 24 (ucast (gdt_base_high d))"

definition segment_limit :: "GdtDescriptor \<Rightarrow> u32" where
  "segment_limit d =
     (let l = ucast (limit_low d) OR push_bit 16 (ucast (granularity d AND 0x0F)) in
      if bit (granularity d) 7 then push_bit 12 l OR 0xFFF else l)"

definition segment_dpl :: "GdtDescriptor \<Rightarrow> u8" where
  "segment_dpl d = drop_bit 5 (access d) AND 3"

definition segment_present :: "GdtDescriptor \<Rightarrow> bool" where
  "segment_present d \<longleftrightarrow> bit (access d) 7"

definition segment_code :: "GdtDescriptor \<Rightarrow> bool" where
  "segment_code d \<longleftrightarrow> bit (access d) 4 \<and> bit (access d) 3"

section \<open>Interrupt descriptor table\<close>

record IdtDescriptor =
  idt_base_low :: u16
  selector :: u16
  always0 :: u8
  flags :: u8
  idt_base_high :: u16

record IdtRegister =
  idtr_limit :: u16
  idtr_base :: u32

definition IDT_ENTRIES :: nat where "IDT_ENTRIES = 256"

definition idt_set_gate :: "u8 \<Rightarrow> u32 \<Rightarrow> u16 \<Rightarrow> u8 \<Rightarrow> IdtDescriptor list \<Rightarrow> IdtDescriptor list" where
  "idt_set_gate num base sel fl idt =
     idt[unat num := \<lparr>idt_base_low = ucast (base AND 0xFFFF), selector = sel, always0 = 0, flags = fl,
       idt_base_high = ucast (drop_bit 16 base AND 0xFFFF)\<rparr>]"

definition init_idt :: "u32 \<Rightarrow> (nat \<Rightarrow> u32) \<Rightarrow> IdtDescriptor list \<Rightarrow> IdtRegister \<times> IdtDescriptor list" where
  "init_idt idt_address idt_stub_table idt =
     (let idt_pointer = \<lparr>idtr_limit = of_nat (8 * IDT_ENTRIES - 1), idtr_base = idt_address\<rparr>;
          idt = fold (\<lambda>i. idt_set_gate (of_nat i) (idt_stub_table i) 0x08 0x8E) [0..<256] idt
      in (idt_pointer, idt))"

definition gate_offset :: "IdtDescriptor \<Rightarrow> u32" where
  "gate_offset d = ucast (idt_base_low d) OR push_bit 16 (ucast (idt_base_high d))"

section \<open>Encoding and decoding\<close>

lemma join_base:
  "(ucast (ucast (base AND 0xFFFF) :: u16) :: u32) OR push_bit 16 (ucast (ucast (drop_bit 16 base AND 0xFF) :: u8))
     OR push_bit 24 (ucast (ucast (drop_bit 24 base AND 0xFF) :: u8)) = base"
proof (rule bit_word_eqI)
  have m: "(0xFFFF :: u32) = mask 16" "(0xFF :: u32) = mask 8" by (simp_all add: mask_eq_exp_minus_1)
  fix n assume "n < LENGTH(32)"
  then consider "n < 16" | "16 \<le> n" "n < 24" | "24 \<le> n" "n < 32" by fastforce
  then show "bit ((ucast (ucast (base AND 0xFFFF) :: u16) :: u32)
     OR push_bit 16 (ucast (ucast (drop_bit 16 base AND 0xFF) :: u8))
     OR push_bit 24 (ucast (ucast (drop_bit 24 base AND 0xFF) :: u8))) n \<longleftrightarrow> bit base n"
    unfolding m by cases (auto simp: bit_simps)
qed

lemma join_offset:
  "(ucast (ucast (base AND 0xFFFF) :: u16) :: u32) OR push_bit 16 (ucast (ucast (drop_bit 16 base AND 0xFFFF) :: u16)) = base"
proof (rule bit_word_eqI)
  have m: "(0xFFFF :: u32) = mask 16" by (simp add: mask_eq_exp_minus_1)
  fix n assume "n < LENGTH(32)"
  then consider "n < 16" | "16 \<le> n" "n < 32" by fastforce
  then show "bit ((ucast (ucast (base AND 0xFFFF) :: u16) :: u32)
     OR push_bit 16 (ucast (ucast (drop_bit 16 base AND 0xFFFF) :: u16))) n \<longleftrightarrow> bit base n"
    unfolding m by cases (auto simp: bit_simps)
qed

text \<open>Every base survives a descriptor, every limit up to 20 bits does.\<close>

lemma gdt_set_gate_base:
  "num < length gdt \<Longrightarrow> segment_base (gdt_set_gate num base limit acc gran gdt ! num) = base"
  using join_base by (simp add: gdt_set_gate_def segment_base_def)

lemma idt_gates:
  "n \<le> 256 \<Longrightarrow> length idt = 256 \<Longrightarrow>
    length (fold (\<lambda>i. idt_set_gate (of_nat i) (stubs i) sel fl) [0..<n] idt) = 256 \<and>
    (\<forall>i < n. let d = fold (\<lambda>i. idt_set_gate (of_nat i) (stubs i) sel fl) [0..<n] idt ! i in
       gate_offset d = stubs i \<and> selector d = sel \<and> flags d = fl \<and> always0 d = 0)"
proof (induction n)
  case (Suc n)
  have "unat (of_nat n :: u8) = n" using Suc.prems(1) by (simp add: unat_of_nat take_bit_eq_mod)
  with Suc join_offset show ?case
    by (auto simp: idt_set_gate_def gate_offset_def Let_def nth_list_update less_Suc_eq)
qed simp

lemma list_update_numeral: "(x # xs)[numeral k := y] = x # xs[pred_numeral k := y]"
  by (simp add: numeral_eq_Suc)

section \<open>Properties\<close>

text \<open>The flat segments.  After \<open>init_gdt\<close> entry 0 is the null descriptor and the other
  four decode to segments over the whole address space, code and data for the kernel
  (privilege 0) and for user programs (privilege 3).\<close>

theorem init_gdt_flat:
  assumes "length gdt = 5"
  shows "(\<forall>i \<in> {1, 2, 3, 4}. let d = snd (init_gdt a gdt) ! i in
      segment_base d = 0 \<and> segment_limit d = 0xFFFFFFFF \<and> segment_present d \<and>
      (segment_code d \<longleftrightarrow> i = 1 \<or> i = 3) \<and> segment_dpl d = (if i \<le> 2 then 0 else 3)) \<and>
    segment_present (snd (init_gdt a gdt) ! 0) = False \<and>
    unat (gdtr_limit (fst (init_gdt a gdt))) = 8 * length (snd (init_gdt a gdt)) - 1"
proof -
  have d: "snd (init_gdt a gdt) =
      [\<lparr>limit_low = 0, gdt_base_low = 0, base_middle = 0, access = 0, granularity = 0, gdt_base_high = 0\<rparr>,
       \<lparr>limit_low = 0xFFFF, gdt_base_low = 0, base_middle = 0, access = 0x9A, granularity = 0xCF, gdt_base_high = 0\<rparr>,
       \<lparr>limit_low = 0xFFFF, gdt_base_low = 0, base_middle = 0, access = 0x92, granularity = 0xCF, gdt_base_high = 0\<rparr>,
       \<lparr>limit_low = 0xFFFF, gdt_base_low = 0, base_middle = 0, access = 0xFA, granularity = 0xCF, gdt_base_high = 0\<rparr>,
       \<lparr>limit_low = 0xFFFF, gdt_base_low = 0, base_middle = 0, access = 0xF2, granularity = 0xCF, gdt_base_high = 0\<rparr>]"
  proof -
    obtain x0 x1 x2 x3 x4 where "gdt = [x0, x1, x2, x3, x4]"
      using assms by (auto simp: length_Suc_conv numeral_eq_Suc)
    then show ?thesis by (simp add: init_gdt_def gdt_set_gate_def Let_def list_update_numeral)
  qed
  show ?thesis
    unfolding d by (simp add: segment_base_def segment_limit_def segment_present_def segment_code_def
        segment_dpl_def init_gdt_def GDT_ENTRIES_def Let_def bit_simps)
qed

theorem init_gdt_flat_witness:
  "segment_limit (snd (init_gdt 0x101000 (replicate 5 \<lparr>limit_low = 0, gdt_base_low = 0, base_middle = 0,
     access = 0, granularity = 0, gdt_base_high = 0\<rparr>)) ! 3) = 0xFFFFFFFF"
  using init_gdt_flat [of "replicate 5 \<lparr>limit_low = 0, gdt_base_low = 0, base_middle = 0,
     access = 0, granularity = 0, gdt_base_high = 0\<rparr>" "0x101000"] by (simp add: Let_def)

text \<open>C37: after \<open>init_idt\<close> every one of the 256 vectors has a 32-bit interrupt gate, privilege 0,
  in the kernel's code segment whose offset is exactly the vector's stub.\<close>

theorem init_idt_gates:
  assumes "length idt = 256" "i < 256"
  shows "gate_offset (snd (init_idt a stubs idt) ! i) = stubs i \<and>
    selector (snd (init_idt a stubs idt) ! i) = 0x08 \<and> flags (snd (init_idt a stubs idt) ! i) = 0x8E \<and>
    unat (idtr_limit (fst (init_idt a stubs idt))) = 8 * length (snd (init_idt a stubs idt)) - 1"
  using idt_gates [of 256 idt stubs "0x08" "0x8E"] assms by (simp add: init_idt_def IDT_ENTRIES_def Let_def)

theorem init_idt_gates_witness:
  "gate_offset (snd (init_idt 0x102000 (\<lambda>i. 0x100000 + 16 * of_nat i) (replicate 256
     \<lparr>idt_base_low = 0, selector = 0, always0 = 0, flags = 0, idt_base_high = 0\<rparr>)) ! 32) = 0x100200"
  using init_idt_gates [of "replicate 256
     \<lparr>idt_base_low = 0, selector = 0, always0 = 0, flags = 0, idt_base_high = 0\<rparr>" 32 "0x102000"
     "\<lambda>i. 0x100000 + 16 * of_nat i"] by simp

end
