(* ===== verification/Isr.thy ===== *)
theory Isr
  imports Memory
begin

text \<open>
  \<^verbatim>\<open>src/kernel/arch/i386/interrupts/isr.c\<close>: the tables of interrupt handlers.  The
  three static arrays are in memory at addresses the linker chooses; function pointers are
  addresses, 0 for none.  The two irq routines index the array of 16 entries by the vector
  itself, 32 to 47, so they access memory behind it; the model does the same.  A dispatch
  returns which handler is called.
\<close>

definition CPU_ENTRIES :: nat where "CPU_ENTRIES = 32"
definition IRQ_ENTRIES :: nat where "IRQ_ENTRIES = 16"
definition SYSCALL_ENTRIES :: nat where "SYSCALL_ENTRIES = 256"

record CpuRegisters =
  ds :: u32
  edi :: u32
  esi :: u32
  ebp :: u32
  esp :: u32
  ebx :: u32
  edx :: u32
  ecx :: u32
  eax :: u32
  interrupt_number :: u32
  error_code :: u32
  eip :: u32
  cs :: u32
  eflags :: u32
  useresp :: u32
  ss :: u32

record isr_tables =
  cpu_exception_handlers :: u32
  irq_handlers :: u32
  syscall_handlers :: u32

definition get_handler :: "u32 \<Rightarrow> u32 \<Rightarrow> mem \<Rightarrow> u32" where
  "get_handler table i m = load32 m (table + 4 * i)"

definition set_handler :: "u32 \<Rightarrow> u32 \<Rightarrow> u32 \<Rightarrow> mem \<Rightarrow> mem" where
  "set_handler table i h m = store32 (table + 4 * i) h m"

section \<open>Operations\<close>

definition register_cpu_handler :: "isr_tables \<Rightarrow> u8 \<Rightarrow> u32 \<Rightarrow> mem \<Rightarrow> mem" where
  "register_cpu_handler t vector handler m =
     (if vector < 32 then set_handler (cpu_exception_handlers t) (ucast vector) handler m else m)"

definition register_irq_handler :: "isr_tables \<Rightarrow> u8 \<Rightarrow> u32 \<Rightarrow> mem \<Rightarrow> mem" where
  "register_irq_handler t irq_line handler m =
     (if 32 \<le> irq_line \<and> irq_line < 48 then set_handler (irq_handlers t) (ucast irq_line) handler m else m)"

definition register_syscall_handler :: "isr_tables \<Rightarrow> u8 \<Rightarrow> u32 \<Rightarrow> mem \<Rightarrow> mem" where
  "register_syscall_handler t vector handler m =
     (if 48 \<le> vector then set_handler (syscall_handlers t) (ucast vector) handler m else m)"

definition init_isr :: "isr_tables \<Rightarrow> u32 \<Rightarrow> mem \<Rightarrow> mem" where
  "init_isr t kernel_panic m =
     (let m = fold (\<lambda>i. set_handler (cpu_exception_handlers t) (of_nat i) 0) [0..<CPU_ENTRIES] m;
          m = fold (\<lambda>i. set_handler (irq_handlers t) (of_nat i) 0) [0..<IRQ_ENTRIES] m;
          m = fold (\<lambda>i. set_handler (syscall_handlers t) (of_nat i) 0) [0..<SYSCALL_ENTRIES] m
      in fold (\<lambda>i. register_cpu_handler t (of_nat i) kernel_panic) [0..<32] m)"

datatype call = NoCall | CallIsr u32 | CallIrq u32

definition master_exception_handler :: "isr_tables \<Rightarrow> CpuRegisters \<Rightarrow> mem \<Rightarrow> call" where
  "master_exception_handler t regs m =
     (let vector = interrupt_number regs in
      if vector < 32 then
        let handler = get_handler (cpu_exception_handlers t) vector m
        in if handler \<noteq> 0 then CallIsr handler else NoCall
      else if 32 \<le> vector \<and> vector < 48 then
        let handler = get_handler (irq_handlers t) vector m
        in if handler \<noteq> 0 then CallIrq handler else NoCall
      else if 48 \<le> vector \<and> vector < 256 then
        let handler = get_handler (syscall_handlers t) vector m
        in if handler \<noteq> 0 then CallIsr handler else NoCall
      else NoCall)"

section \<open>The slots of the vectors\<close>

text \<open>
  What any linker guarantees: the three arrays are different objects.  The interrupt routines are given \<open>irq_handlers\<close> with
  vectors from 32 on, so their slots are the 64 bytes that start 128 bytes behind the array; of these only that they do
  not wrap around the address space is assumed, and nothing about what lies there.
\<close>

definition tables_apart :: "isr_tables \<Rightarrow> bool" where
  "tables_apart t \<longleftrightarrow> fits (cpu_exception_handlers t) 128 \<and> fits (irq_handlers t) 192 \<and>
     fits (syscall_handlers t) 1024 \<and> apart (cpu_exception_handlers t) 128 (irq_handlers t) 64 \<and>
     apart (cpu_exception_handlers t) 128 (syscall_handlers t) 1024 \<and> apart (irq_handlers t) 64 (syscall_handlers t) 1024"

definition handlers_for :: "isr_tables \<Rightarrow> u32 \<Rightarrow> u32" where
  "handlers_for t v = (if v < 32 then cpu_exception_handlers t
     else if v < 48 then irq_handlers t else syscall_handlers t)"

definition dispatch :: "u32 \<Rightarrow> u32 \<Rightarrow> call" where
  "dispatch vector handler =
     (if handler = 0 \<or> 256 \<le> vector then NoCall
      else if 32 \<le> vector \<and> vector < 48 then CallIrq handler else CallIsr handler)"

lemma master_exception_handler_slot:
  "master_exception_handler t regs m =
    dispatch (interrupt_number regs) (get_handler (handlers_for t (interrupt_number regs)) (interrupt_number regs) m)"
proof -
  let ?v = "interrupt_number regs"
  consider "?v < 32" "\<not> 32 \<le> ?v" "\<not> 256 \<le> ?v" | "32 \<le> ?v" "?v < 48" "\<not> ?v < 32" "\<not> 256 \<le> ?v"
    | "48 \<le> ?v" "?v < 256" "\<not> ?v < 32" "\<not> ?v < 48" "\<not> 256 \<le> ?v"
    | "256 \<le> ?v" "\<not> ?v < 256" "\<not> ?v < 32" "\<not> ?v < 48"
    unfolding word_less_nat_alt word_le_nat_alt by fastforce
  then show ?thesis
    by cases (simp_all add: master_exception_handler_def dispatch_def handlers_for_def Let_def)
qed

lemma unat_u8_bound: "unat (v :: u8) < 256"
  using unsigned_less [of v] by simp

lemma unat_ucast_u8 [simp]: "unat (ucast (v :: u8) :: u32) = unat v"
  using unat_u8_bound [of v] by (simp add: unsigned_ucast_eq take_bit_eq_mod)

text \<open>Entries of one table, and of two tables.\<close>

lemma entry_at:
  assumes "fits a (4 * n)" "unat i < n"
  shows "unat (a + 4 * i) = unat a + 4 * unat i" "fits (a + 4 * i) 4"
proof -
  have "a + 4 * i = a + U32 (4 * unat i)" using of_nat_unat_u32 [of i] by simp
  then show u: "unat (a + 4 * i) = unat a + 4 * unat i" using assms(2) unat_offset [OF assms(1), of "4 * unat i"] by simp
  show "fits (a + 4 * i) 4" using assms unfolding fits_def u by linarith
qed

lemma get_set_handler:
  assumes "fits a (4 * n)" "unat i < n" "unat j < n"
  shows "get_handler a j (set_handler a i h m) = (if i = j then h else get_handler a j m)"
proof (cases "i = j")
  case False
  then have "unat i \<noteq> unat j" by (simp add: word_unat_eq_iff)
  then have "apart (a + 4 * i) 4 (a + 4 * j) 4"
    using entry_at(1) [OF assms(1,2)] entry_at(1) [OF assms(1,3)] unfolding apart_def by linarith
  then show ?thesis
    using False entry_at(2) [OF assms(1,2)] entry_at(2) [OF assms(1,3)]
    by (simp add: get_handler_def set_handler_def load32_store32_apart)
qed (simp add: get_handler_def set_handler_def)

lemma get_set_other:
  assumes "fits a (4 * n)" "fits b (4 * k)" "apart a (4 * n) b (4 * k)" "unat i < n" "unat j < k"
  shows "get_handler b j (set_handler a i h m) = get_handler b j m"
proof -
  have "apart (a + 4 * i) 4 (b + 4 * j) 4"
    using assms(3-5) entry_at(1) [OF assms(1,4)] entry_at(1) [OF assms(2,5)] unfolding apart_def by linarith
  then show ?thesis
    using entry_at(2) [OF assms(1,4)] entry_at(2) [OF assms(2,5)]
    by (simp add: get_handler_def set_handler_def load32_store32_apart)
qed

lemma tables_apartD:
  assumes "tables_apart t"
  shows "fits (cpu_exception_handlers t) (4 * 32)" "fits (irq_handlers t) (4 * 48)" "fits (irq_handlers t) (4 * 16)"
    "fits (syscall_handlers t) (4 * 256)" "apart (cpu_exception_handlers t) (4 * 32) (irq_handlers t) (4 * 16)"
    "apart (cpu_exception_handlers t) (4 * 32) (syscall_handlers t) (4 * 256)"
    "apart (syscall_handlers t) (4 * 256) (cpu_exception_handlers t) (4 * 32)"
    "apart (irq_handlers t) (4 * 16) (syscall_handlers t) (4 * 256)"
    "apart (irq_handlers t) (4 * 16) (cpu_exception_handlers t) (4 * 32)"
  using assms by (auto simp: tables_apart_def fits_def apart_def)

lemma vector_cases:
  obtains (cpu) "w < (32 :: u32)" "unat w < 32" | (irq) "32 \<le> w" "w < 48" "unat w < 48" "32 \<le> unat w"
    | (sys) "48 \<le> w" "w < 256" "unat w < 256" "48 \<le> unat w" | (none) "256 \<le> w" "256 \<le> unat w"
  unfolding word_less_nat_alt word_le_nat_alt by fastforce

lemma master_cases:
  fixes regs :: CpuRegisters
  defines "w \<equiv> interrupt_number regs"
  shows "unat w < 32 \<Longrightarrow> master_exception_handler t regs m = dispatch w (get_handler (cpu_exception_handlers t) w m)"
    "32 \<le> unat w \<Longrightarrow> unat w < 48 \<Longrightarrow> master_exception_handler t regs m = dispatch w (get_handler (irq_handlers t) w m)"
    "48 \<le> unat w \<Longrightarrow> master_exception_handler t regs m = dispatch w (get_handler (syscall_handlers t) w m)"
    "256 \<le> unat w \<Longrightarrow> master_exception_handler t regs m = NoCall"
  unfolding master_exception_handler_slot handlers_for_def w_def
  by (simp_all add: word_less_nat_alt word_le_nat_alt dispatch_def)

lemma dispatch_call:
  "unat w < 32 \<or> 48 \<le> unat w \<Longrightarrow> unat w < 256 \<Longrightarrow> dispatch w h = (if h = 0 then NoCall else CallIsr h)"
  "32 \<le> unat w \<Longrightarrow> unat w < 48 \<Longrightarrow> dispatch w h = (if h = 0 then NoCall else CallIrq h)"
  by (auto simp: dispatch_def word_less_nat_alt word_le_nat_alt)

lemma register_cpu_dispatch:
  assumes "tables_apart t" "interrupt_number regs < 32 \<or> 48 \<le> interrupt_number regs"
  shows "master_exception_handler t regs (register_cpu_handler t v h m) =
    (if v < 32 \<and> interrupt_number regs = ucast v then if h = 0 then NoCall else CallIsr h else master_exception_handler t regs m)"
proof (cases "v < 32")
  case True
  note d = tables_apartD [OF assms(1)]
  let ?w = "interrupt_number regs"
  have r: "register_cpu_handler t v h m = set_handler (cpu_exception_handlers t) (ucast v) h m" "unat (ucast v :: u32) < 32"
    using True by (simp_all add: register_cpu_handler_def word_less_nat_alt)
  show ?thesis
  proof (cases rule: vector_cases [of ?w])
    case cpu
    then show ?thesis using True unfolding master_cases(1) [OF cpu(2)] r(1) get_set_handler [OF d(1) r(2) cpu(2)]
      by (auto simp: dispatch_call)
  next
    case irq
    with assms(2) show ?thesis by (auto simp: word_less_nat_alt word_le_nat_alt)
  next
    case sys
    then have "?w \<noteq> ucast v" using r(2) by auto
    then show ?thesis unfolding master_cases(3) [OF sys(4)] r(1) get_set_other [OF d(1,4,6) r(2) sys(3)] by simp
  next
    case none
    then have "?w \<noteq> ucast v" using r(2) by auto
    then show ?thesis using none by (simp add: master_cases(4))
  qed
qed (simp add: register_cpu_handler_def)

lemma register_syscall_dispatch:
  assumes "tables_apart t" "interrupt_number regs < 32 \<or> 48 \<le> interrupt_number regs"
  shows "master_exception_handler t regs (register_syscall_handler t v h m) =
    (if 48 \<le> v \<and> interrupt_number regs = ucast v then if h = 0 then NoCall else CallIsr h else master_exception_handler t regs m)"
proof (cases "48 \<le> v")
  case True
  note d = tables_apartD [OF assms(1)]
  let ?w = "interrupt_number regs"
  have r: "register_syscall_handler t v h m = set_handler (syscall_handlers t) (ucast v) h m" "unat (ucast v :: u32) < 256"
      "48 \<le> unat (ucast v :: u32)"
    using True unat_u8_bound [of v] by (simp_all add: register_syscall_handler_def word_le_nat_alt)
  show ?thesis
  proof (cases rule: vector_cases [of ?w])
    case cpu
    then have "?w \<noteq> ucast v" using r(3) by auto
    then show ?thesis unfolding master_cases(1) [OF cpu(2)] r(1) get_set_other [OF d(4,1,7) r(2) cpu(2)] by simp
  next
    case irq
    with assms(2) show ?thesis by (auto simp: word_less_nat_alt word_le_nat_alt)
  next
    case sys
    then show ?thesis using True unfolding master_cases(3) [OF sys(4)] r(1) get_set_handler [OF d(4) r(2) sys(3)]
      by (auto simp: dispatch_call)
  next
    case none
    then have "?w \<noteq> ucast v" using r(2) by auto
    then show ?thesis using none by (simp add: master_cases(4))
  qed
qed (simp add: register_syscall_handler_def)

lemma register_irq_dispatch:
  assumes "tables_apart t" "32 \<le> interrupt_number regs \<and> interrupt_number regs < 48"
  shows "master_exception_handler t regs (register_irq_handler t v h m) =
    (if 32 \<le> v \<and> v < 48 \<and> interrupt_number regs = ucast v then if h = 0 then NoCall else CallIrq h
     else master_exception_handler t regs m)"
proof (cases "32 \<le> v \<and> v < 48")
  case True
  note d = tables_apartD [OF assms(1)]
  let ?w = "interrupt_number regs"
  have r: "register_irq_handler t v h m = set_handler (irq_handlers t) (ucast v) h m" "unat (ucast v :: u32) < 48"
    using True by (simp_all add: register_irq_handler_def word_less_nat_alt)
  have w: "32 \<le> unat ?w" "unat ?w < 48" using assms(2) by (auto simp: word_less_nat_alt word_le_nat_alt)
  show ?thesis
    using True w unfolding master_cases(2) [OF w] r(1) get_set_handler [OF d(2) r(2) w(2)] by (auto simp: dispatch_call)
qed (auto simp: register_irq_handler_def)

text \<open>C38: Wherever the linker puts the three arrays, registering a handler for a CPU exception or a system call makes exactly
  the dispatch of that vector call the handler (or nothing, for the null handler) among all vectors but those of the
  interrupt lines, 32 to 47, and registering one for an interrupt line does the same among the interrupt lines.  A vector outside
  the range of the registration routine changes nothing at all.  Nothing is claimed between the two groups: the slots of the interrupt lines lie
  outside their array (C39), so which other memory they share is up to the linker.\<close>

theorem isr_register_dispatch:
  assumes "tables_apart t"
  shows "(interrupt_number regs < 32 \<or> 48 \<le> interrupt_number regs \<longrightarrow>
      master_exception_handler t regs (register_cpu_handler t v h m) =
        (if v < 32 \<and> interrupt_number regs = ucast v then if h = 0 then NoCall else CallIsr h
         else master_exception_handler t regs m) \<and>
      master_exception_handler t regs (register_syscall_handler t v h m) =
        (if 48 \<le> v \<and> interrupt_number regs = ucast v then if h = 0 then NoCall else CallIsr h
         else master_exception_handler t regs m)) \<and>
    (32 \<le> interrupt_number regs \<and> interrupt_number regs < 48 \<longrightarrow>
      master_exception_handler t regs (register_irq_handler t v h m) =
        (if 32 \<le> v \<and> v < 48 \<and> interrupt_number regs = ucast v then if h = 0 then NoCall else CallIrq h
         else master_exception_handler t regs m)) \<and>
    (\<not> v < 32 \<longrightarrow> register_cpu_handler t v h m = m) \<and>
    (\<not> (32 \<le> v \<and> v < 48) \<longrightarrow> register_irq_handler t v h m = m) \<and>
    (\<not> 48 \<le> v \<longrightarrow> register_syscall_handler t v h m = m)"
proof (intro conjI impI)
  assume w: "interrupt_number regs < 32 \<or> 48 \<le> interrupt_number regs"
  show "master_exception_handler t regs (register_cpu_handler t v h m) =
      (if v < 32 \<and> interrupt_number regs = ucast v then if h = 0 then NoCall else CallIsr h else master_exception_handler t regs m)"
    by (rule register_cpu_dispatch [OF assms w])
  show "master_exception_handler t regs (register_syscall_handler t v h m) =
      (if 48 \<le> v \<and> interrupt_number regs = ucast v then if h = 0 then NoCall else CallIsr h else master_exception_handler t regs m)"
    by (rule register_syscall_dispatch [OF assms w])
next
  assume w: "32 \<le> interrupt_number regs \<and> interrupt_number regs < 48"
  show "master_exception_handler t regs (register_irq_handler t v h m) =
      (if 32 \<le> v \<and> v < 48 \<and> interrupt_number regs = ucast v then if h = 0 then NoCall else CallIrq h
       else master_exception_handler t regs m)"
    by (rule register_irq_dispatch [OF assms w])
qed (auto simp: register_cpu_handler_def register_irq_handler_def register_syscall_handler_def)

theorem isr_register_dispatch_witness:
  "tables_apart \<lparr>cpu_exception_handlers = 0x5000, irq_handlers = 0x7000, syscall_handlers = 0x6000\<rparr> \<and>
   master_exception_handler \<lparr>cpu_exception_handlers = 0x5000, irq_handlers = 0x7000, syscall_handlers = 0x6000\<rparr>
     \<lparr>ds = 0, edi = 0, esi = 0, ebp = 0, esp = 0, ebx = 0, edx = 0, ecx = 0, eax = 0, interrupt_number = 33,
      error_code = 0, eip = 0, cs = 0, eflags = 0, useresp = 0, ss = 0\<rparr>
     (register_irq_handler \<lparr>cpu_exception_handlers = 0x5000, irq_handlers = 0x7000, syscall_handlers = 0x6000\<rparr>
       33 0x1234 (\<lambda>_. 0)) = CallIrq 0x1234 \<and>
   master_exception_handler \<lparr>cpu_exception_handlers = 0x5000, irq_handlers = 0x7000, syscall_handlers = 0x6000\<rparr>
     \<lparr>ds = 0, edi = 0, esi = 0, ebp = 0, esp = 0, ebx = 0, edx = 0, ecx = 0, eax = 0, interrupt_number = 128,
      error_code = 0, eip = 0, cs = 0, eflags = 0, useresp = 0, ss = 0\<rparr>
     (register_syscall_handler \<lparr>cpu_exception_handlers = 0x5000, irq_handlers = 0x7000, syscall_handlers = 0x6000\<rparr>
       128 0x4321 (\<lambda>_. 0)) = CallIsr 0x4321"
proof -
  let ?t = "\<lparr>cpu_exception_handlers = 0x5000, irq_handlers = 0x7000, syscall_handlers = 0x6000\<rparr> :: isr_tables"
  have c: "tables_apart ?t" by (simp add: tables_apart_def fits_def apart_def)
  show ?thesis using c isr_register_dispatch [OF c, where v = 33 and h = "0x1234"]
      isr_register_dispatch [OF c, where v = 128 and h = "0x4321"] by simp
qed

section \<open>Initialisation\<close>

lemma fill_table:
  assumes "fits a (4 * N)" "n \<le> N" "unat j < N" "N < 4294967296"
  shows "get_handler a j (fold (\<lambda>i. set_handler a (of_nat i) h) [0..<n] m) =
    (if unat j < n then h else get_handler a j m)"
  using assms(2)
proof (induction n)
  case (Suc n)
  then have n: "unat (of_nat n :: u32) = n" "n < N" using assms(4) by (simp_all add: unat_of_nat_u32)
  have "get_handler a j (fold (\<lambda>i. set_handler a (of_nat i) h) [0..<Suc n] m) =
      (if of_nat n = j then h else get_handler a j (fold (\<lambda>i. set_handler a (of_nat i) h) [0..<n] m))"
    using n by (simp add: get_set_handler [OF assms(1) _ assms(3)])
  moreover have "of_nat n = j \<longleftrightarrow> unat j = n" using n(1) by (auto simp: word_unat_eq_iff)
  ultimately show ?case using Suc by auto
qed simp

lemma fill_other:
  assumes "fits a (4 * N)" "fits b (4 * k)" "apart a (4 * N) b (4 * k)" "n \<le> N" "unat j < k" "N < 4294967296"
  shows "get_handler b j (fold (\<lambda>i. set_handler a (of_nat i) h) [0..<n] m) = get_handler b j m"
  using assms(4)
proof (induction n)
  case (Suc n)
  then have "unat (of_nat n :: u32) < N" using assms(6) by (simp add: unat_of_nat_u32)
  with Suc show ?case by (simp add: get_set_other [OF assms(1-3) _ assms(5)])
qed simp

text \<open>After the initialisation every CPU exception is dispatched to the kernel panic routine and every system call is
  ignored.  Of the interrupt lines nothing is said: the loop clears their array, which the dispatch does not
  read.\<close>

theorem init_isr_dispatch:
  assumes "tables_apart t" "kernel_panic \<noteq> 0" "interrupt_number regs < 32 \<or> 48 \<le> interrupt_number regs"
  shows "master_exception_handler t regs (init_isr t kernel_panic m) =
    (if interrupt_number regs < 32 then CallIsr kernel_panic else NoCall)"
proof -
  note d = tables_apartD [OF assms(1)]
  let ?w = "interrupt_number regs"
  have "register_cpu_handler t (of_nat i) kernel_panic = set_handler (cpu_exception_handlers t) (of_nat i) kernel_panic"
    if "i \<in> set [0..<32]" for i
  proof -
    have "unat (of_nat i :: u8) = i" "unat (of_nat i :: u32) = i" using that by (simp_all add: unat_of_nat take_bit_eq_mod)
    then have "(ucast (of_nat i :: u8) :: u32) = of_nat i" "(of_nat i :: u8) < 32"
      using that by (simp_all add: word_unat_eq_iff word_less_nat_alt)
    then show ?thesis by (simp add: register_cpu_handler_def fun_eq_iff)
  qed
  then have reg: "fold (\<lambda>i. register_cpu_handler t (of_nat i) kernel_panic) [0..<32] n =
      fold (\<lambda>i. set_handler (cpu_exception_handlers t) (of_nat i) kernel_panic) [0..<32] n" for n
    by (rule fold_cong [OF refl refl])
  consider (cpu) "?w < 32" "unat ?w < 32" | (sys) "48 \<le> ?w" "\<not> ?w < 32" "\<not> ?w < 48" "unat ?w < 256"
    | (none) "256 \<le> ?w" "\<not> ?w < 32"
    using assms(3) unfolding word_less_nat_alt word_le_nat_alt by fastforce
  then show ?thesis
  proof cases
    case cpu
    then show ?thesis unfolding master_exception_handler_slot init_isr_def Let_def reg handlers_for_def
      using assms(2) by (simp add: fill_table [OF d(1)] dispatch_def word_less_nat_alt word_le_nat_alt)
  next
    case sys
    then show ?thesis unfolding master_exception_handler_slot init_isr_def Let_def reg handlers_for_def SYSCALL_ENTRIES_def
      by (simp add: fill_other [OF d(1,4,6)] fill_table [OF d(4)] dispatch_def)
  next
    case none
    then show ?thesis by (simp add: master_exception_handler_slot dispatch_def)
  qed
qed

text \<open>C39: Registering an interrupt handler never writes the array \<open>irq_handlers\<close> itself: the
  64 bytes of its 16 entries are unchanged, and the handler goes to the address 4 times the
  vector behind its start, at least 64 bytes past its end, whatever the linker placed there.
\<close>

theorem irq_handler_outside_array:
  assumes "32 \<le> v" "v < 48" "fits (irq_handlers t) 192"
  shows "same_on (bytes (irq_handlers t) (4 * IRQ_ENTRIES)) m (register_irq_handler t v h m) \<and>
    load32 (register_irq_handler t v h m) (irq_handlers t + U32 (4 * unat v)) = h \<and>
    4 * IRQ_ENTRIES + 64 \<le> 4 * unat v"
proof -
  have v: "32 \<le> unat v" "unat v < 48" using assms(1,2) by (auto simp: word_less_nat_alt word_le_nat_alt)
  let ?a = "irq_handlers t + U32 (4 * unat v)"
  have w: "register_irq_handler t v h m = store32 ?a h m"
    using assms(1,2) by (simp add: register_irq_handler_def set_handler_def)
  have u: "unat ?a = unat (irq_handlers t) + 4 * unat v" using v by (intro unat_offset [OF assms(3)]) simp
  have "fits ?a 4" using assms(3) v unfolding fits_def u by linarith
  moreover have "bytes ?a 4 \<inter> bytes (irq_handlers t) (4 * IRQ_ENTRIES) = {}"
    using u v by (auto simp: bytes_def in_range_def IRQ_ENTRIES_def)
  ultimately have "same_on (bytes (irq_handlers t) (4 * IRQ_ENTRIES)) m (store32 ?a h m)"
    by (intro same_off_on [OF same_off_store32 [OF _ subset_refl]])
  with v show ?thesis unfolding w by (simp add: IRQ_ENTRIES_def)
qed

theorem irq_handler_outside_array_witness:
  "load32 (register_irq_handler \<lparr>cpu_exception_handlers = 0x5000, irq_handlers = 0x5080, syscall_handlers = 0x50C0\<rparr>
     33 0x1234 (\<lambda>_. 0)) 0x5104 = 0x1234"
  using irq_handler_outside_array [of 33 "\<lparr>cpu_exception_handlers = 0x5000, irq_handlers = 0x5080, syscall_handlers = 0x50C0\<rparr>"
      "\<lambda>_. 0" "0x1234"]
  by (simp add: fits_def)

end
