(* ===== verification/Keyboard.thy ===== *)
theory Keyboard
  imports Vterm Pic Isr
begin

text \<open>
  \<^verbatim>\<open>src/kernel/arch/i386/drivers/keyboard.c\<close>: the keyboard interrupt handler.  Its
  three static flags are the record \<open>keyboard\<close>; the console it drives is the state of
  \<open>Vterm\<close>, whose hardware also records the port accesses.  The tables are written as the
  source does, row by row, with the zeros of the rest of the array.
\<close>

definition KEYBOARD_DATA_PORT :: u16 where "KEYBOARD_DATA_PORT = 0x60"
definition KEYBOARD_STATUS_PORT :: u16 where "KEYBOARD_STATUS_PORT = 0x64"

record keyboard =
  shift_pressed :: bool
  caps_lock_active :: bool
  is_extended :: bool

definition keyboard_static :: keyboard where
  "keyboard_static = \<lparr>shift_pressed = False, caps_lock_active = False, is_extended = False\<rparr>"

definition kbd_us_map :: "u8 list" where
  "kbd_us_map =
     [0, 27] @ char_bytes ''1234567890-='' @ [0x08] @
     [0x09] @ char_bytes ''qwertyuiop[]'' @ [0x0A] @
     [0] @ char_bytes ''asdfghjkl;'' @ [0x27, 0x60] @ [0] @
     [0x5C] @ char_bytes ''zxcvbnm,./'' @ [0] @ char_bytes ''*'' @ [0] @ char_bytes '' '' @
     replicate 70 0"

definition kbd_us_shifted_map :: "u8 list" where
  "kbd_us_shifted_map =
     [0, 27] @ char_bytes ''!@#$%^&*()_+'' @ [0x08] @
     [0x09] @ char_bytes ''QWERTYUIOP{}'' @ [0x0A] @
     [0] @ char_bytes ''ASDFGHJKL:'' @ [0x22, 0x7E] @ [0] @
     [0x7C] @ char_bytes ''ZXCVBNM<>?'' @ [0] @ char_bytes ''*'' @ [0] @ char_bytes '' '' @
     replicate 70 0"

section \<open>Operations\<close>

text \<open>The keys behind the prefix \<open>0xE0\<close>: only the arrows do anything.\<close>

definition arrow_key :: "u8 \<Rightarrow> vterm \<Rightarrow> vterm" where
  "arrow_key scancode vt =
     (if scancode = 0x48 then vterm_move_cursor (vterm_get_cursor_row vt - 1) (vterm_get_cursor_col vt) vt
      else if scancode = 0x50 then vterm_move_cursor (vterm_get_cursor_row vt + 1) (vterm_get_cursor_col vt) vt
      else if scancode = 0x4B then vterm_move_cursor (vterm_get_cursor_row vt) (vterm_get_cursor_col vt - 1) vt
      else if scancode = 0x4D then vterm_move_cursor (vterm_get_cursor_row vt) (vterm_get_cursor_col vt + 1) vt
      else vt)"

text \<open>A key press without prefix that is neither shift nor caps lock.\<close>

definition type_key :: "keyboard \<Rightarrow> u8 \<Rightarrow> vterm \<Rightarrow> vterm" where
  "type_key kb scancode vt =
     (let use_uppercase = shift_pressed kb;
          base_char = kbd_us_map ! unat scancode;
          use_uppercase =
            (if 0x61 \<le> base_char \<and> base_char \<le> 0x7A
             then (if caps_lock_active kb then \<not> shift_pressed kb else use_uppercase)
             else use_uppercase);
          ascii = (if use_uppercase then kbd_us_shifted_map ! unat scancode else kbd_us_map ! unat scancode)
      in if ascii \<noteq> 0 then vterm_write_char ascii vt else vt)"

definition keyboard_handler :: "device \<Rightarrow> keyboard \<times> vterm \<Rightarrow> keyboard \<times> vterm" where
  "keyboard_handler dev = (\<lambda>(kb, vt).
     let (status, hw) = inb dev KEYBOARD_STATUS_PORT (io vt);
         vt = vt\<lparr>io := hw\<rparr>
     in
     if status AND 0x01 \<noteq> 0 then
       let (scancode, hw) = inb dev KEYBOARD_DATA_PORT (io vt);
           vt = vt\<lparr>io := pic_send_eoi 1 hw\<rparr>
       in
       if scancode = 0xE0 then (kb\<lparr>is_extended := True\<rparr>, vt)
       else if is_extended kb then
         let kb = kb\<lparr>is_extended := False\<rparr>
         in if scancode AND 0x80 \<noteq> 0 then (kb, vt) else (kb, arrow_key scancode vt)
       else if scancode AND 0x80 \<noteq> 0 then
         let released_scancode = scancode AND 0x7F
         in if released_scancode = 0x2A \<or> released_scancode = 0x36
            then (kb\<lparr>shift_pressed := False\<rparr>, vt) else (kb, vt)
       else if scancode = 0x2A \<or> scancode = 0x36 then (kb\<lparr>shift_pressed := True\<rparr>, vt)
       else if scancode = 0x3A then (kb\<lparr>caps_lock_active := \<not> caps_lock_active kb\<rparr>, vt)
       else if 128 \<le> scancode then (kb, vt)
       else (kb, type_key kb scancode vt)
     else (kb, vt))"

definition init_keyboard :: "isr_tables \<Rightarrow> u32 \<Rightarrow> mem \<Rightarrow> mem" where
  "init_keyboard t keyboard_handler_addr m = register_irq_handler t 33 keyboard_handler_addr m"

section \<open>The tables\<close>

lemma kbd_map_length: "length kbd_us_map = 128" "length kbd_us_shifted_map = 128"
  by (simp_all add: kbd_us_map_def kbd_us_shifted_map_def char_bytes_def)

definition is_letter :: "u8 \<Rightarrow> bool" where
  "is_letter c \<longleftrightarrow> 0x61 \<le> c \<and> c \<le> 0x7A"

lemma kbd_maps_agree:
  "list_all (\<lambda>i. is_letter (kbd_us_map ! i) \<longrightarrow> kbd_us_shifted_map ! i = kbd_us_map ! i - 0x20) [0..<128]"
  by code_simp

text \<open>
  What a key means to the typist: shift and caps lock together decide the case of a letter,
  shift alone chooses between the two characters of any other key.
\<close>

definition typed_char :: "bool \<Rightarrow> bool \<Rightarrow> u8 \<Rightarrow> u8" where
  "typed_char shift caps scancode =
     (let base = kbd_us_map ! unat scancode in
      if is_letter base then (if shift \<noteq> caps then base - 0x20 else base)
      else if shift then kbd_us_shifted_map ! unat scancode else base)"

lemma type_key_char:
  assumes "scancode < 128"
  shows "type_key kb scancode vt =
    (let c = typed_char (shift_pressed kb) (caps_lock_active kb) scancode
     in if c \<noteq> 0 then vterm_write_char c vt else vt)"
proof -
  have "unat scancode \<in> set [0..<128]" using assms by (simp add: word_less_nat_alt)
  then have "is_letter (kbd_us_map ! unat scancode) \<Longrightarrow>
      kbd_us_shifted_map ! unat scancode = kbd_us_map ! unat scancode - 0x20"
    using kbd_maps_agree unfolding list_all_iff by blast
  then show ?thesis
    by (auto simp: type_key_def typed_char_def Let_def is_letter_def)
qed

section \<open>The effect of one interrupt\<close>

definition kbd_status :: "device \<Rightarrow> vterm \<Rightarrow> u8" where
  "kbd_status dev vt = dev (ports (io vt)) KEYBOARD_STATUS_PORT"

definition kbd_data :: "device \<Rightarrow> vterm \<Rightarrow> u8" where
  "kbd_data dev vt =
     dev (ports (io vt) @ [In KEYBOARD_STATUS_PORT (kbd_status dev vt)]) KEYBOARD_DATA_PORT"

text \<open>The console after the port accesses that begin an interrupt: read and acknowledge.\<close>

definition kbd_acked :: "device \<Rightarrow> vterm \<Rightarrow> vterm" where
  "kbd_acked dev vt = vt\<lparr>io := (io vt)\<lparr>ports := ports (io vt) @
     [In KEYBOARD_STATUS_PORT (kbd_status dev vt), In KEYBOARD_DATA_PORT (kbd_data dev vt),
      Out PIC1_COMMAND PIC_EOI]\<rparr>\<rparr>"

lemma eoi_keyboard: "pic_send_eoi 1 hw = outb PIC1_COMMAND PIC_EOI hw"
  by (simp add: pic_send_eoi_def word_le_nat_alt)

lemma press_code:
  assumes "(x :: u8) < 0x80"
  shows "x AND 0x80 = 0"
proof -
  have "\<not> bit (unat x) 7" using assms by (simp add: word_less_nat_alt bit_iff_odd)
  then have "\<not> bit x 7" by (simp add: bit_unsigned_iff)
  then show ?thesis using and_exp_eq_0_iff_not_bit [of x 7] by simp
qed

lemma keyboard_idle:
  "kbd_status dev vt AND 0x01 = 0 \<Longrightarrow> keyboard_handler dev (kb, vt) =
    (kb, vt\<lparr>io := (io vt)\<lparr>ports := ports (io vt) @ [In KEYBOARD_STATUS_PORT (kbd_status dev vt)]\<rparr>\<rparr>)"
  by (simp add: keyboard_handler_def inb_def kbd_status_def Let_def)

lemma keyboard_ready:
  "kbd_status dev vt AND 0x01 \<noteq> 0 \<Longrightarrow> keyboard_handler dev (kb, vt) =
    (let sc = kbd_data dev vt; vt = kbd_acked dev vt in
     if sc = 0xE0 then (kb\<lparr>is_extended := True\<rparr>, vt)
     else if is_extended kb then (kb\<lparr>is_extended := False\<rparr>, if sc AND 0x80 \<noteq> 0 then vt else arrow_key sc vt)
     else if sc AND 0x80 \<noteq> 0 then
       (if sc AND 0x7F = 0x2A \<or> sc AND 0x7F = 0x36 then kb\<lparr>shift_pressed := False\<rparr> else kb, vt)
     else if sc = 0x2A \<or> sc = 0x36 then (kb\<lparr>shift_pressed := True\<rparr>, vt)
     else if sc = 0x3A then (kb\<lparr>caps_lock_active := \<not> caps_lock_active kb\<rparr>, vt)
     else if 128 \<le> sc then (kb, vt) else (kb, type_key kb sc vt))"
  by (simp add: keyboard_handler_def inb_def kbd_status_def kbd_data_def kbd_acked_def eoi_keyboard
      outb_def Let_def)

lemma ports_only_ok:
  "vterm_ok (vt\<lparr>io := (io vt)\<lparr>ports := p\<rparr>\<rparr>) = vterm_ok vt"
  "only_screen vt (vt\<lparr>io := (io vt)\<lparr>ports := p\<rparr>\<rparr>)"
  by (simp_all add: vterm_ok_def only_screen_def)

lemma arrow_key_ok: "vterm_ok vt \<Longrightarrow> vterm_ok (arrow_key sc vt) \<and> only_screen vt (arrow_key sc vt)"
  by (simp add: arrow_key_def move_cursor_ok)

lemma type_key_ok: "vterm_ok vt \<Longrightarrow> vterm_ok (type_key kb sc vt) \<and> only_screen vt (type_key kb sc vt)"
  by (simp add: type_key_def Let_def write_char_ok)

lemma keyboard_handler_ok:
  assumes "vterm_ok vt"
  shows "vterm_ok (snd (keyboard_handler dev (kb, vt))) \<and>
    only_screen vt (snd (keyboard_handler dev (kb, vt)))"
proof (cases "kbd_status dev vt AND 0x01 = 0")
  case True
  then show ?thesis using assms by (simp add: keyboard_idle ports_only_ok)
next
  case False
  have a: "vterm_ok (kbd_acked dev vt)" "only_screen vt (kbd_acked dev vt)"
    using assms by (simp_all add: kbd_acked_def ports_only_ok)
  with arrow_key_ok [OF a(1)] type_key_ok [OF a(1)] only_screen_trans [OF a(2)] show ?thesis
    by (simp add: keyboard_ready [OF False] Let_def)
qed

section \<open>Properties\<close>

text \<open>C40: A key press that is no modifier and no prefix is read once, acknowledged at the interrupt
  controller before the console is touched, and types exactly the character the layout gives it:
  a letter is upper case when exactly one of shift and caps lock is on, any other key gives its
  shifted character when shift is held; keys without a character type nothing.
\<close>

theorem keyboard_types:
  assumes "kbd_status dev vt AND 0x01 \<noteq> 0" "kbd_data dev vt < 0x80"
    "kbd_data dev vt \<notin> {0x2A, 0x36, 0x3A}" "\<not> is_extended kb"
  shows "keyboard_handler dev (kb, vt) =
    (kb, let c = typed_char (shift_pressed kb) (caps_lock_active kb) (kbd_data dev vt)
         in if c \<noteq> 0 then vterm_write_char c (kbd_acked dev vt) else kbd_acked dev vt)"
proof -
  let ?sc = "kbd_data dev vt"
  have "?sc AND 0x80 = 0" using assms(2) by (rule press_code)
  moreover have "?sc \<noteq> 0xE0" "\<not> 128 \<le> ?sc" using assms(2) by auto
  ultimately show ?thesis
    using assms(2-4) by (simp add: keyboard_ready [OF assms(1)] type_key_char Let_def)
qed

theorem keyboard_types_witness:
  "keyboard_handler (\<lambda>_ port. if port = 0x64 then 1 else 0x1E)
     (\<lparr>shift_pressed = True, caps_lock_active = False, is_extended = False\<rparr>,
      vterm_static \<lparr>ports = [], framebuffer = (\<lambda>_. 0)\<rparr>) =
   (\<lparr>shift_pressed = True, caps_lock_active = False, is_extended = False\<rparr>,
    vterm_write_char 0x41 (vterm_static
      \<lparr>ports = [In 0x64 1, In 0x60 0x1E, Out 0x20 0x20], framebuffer = (\<lambda>_. 0)\<rparr>))"
proof -
  let ?dev = "\<lambda>_ port. if port = 0x64 then 1 else 0x1E :: u8"
  let ?vt = "vterm_static \<lparr>ports = [], framebuffer = (\<lambda>_. 0)\<rparr>"
  let ?kb = "\<lparr>shift_pressed = True, caps_lock_active = False, is_extended = False\<rparr>"
  have d: "kbd_status ?dev ?vt = 1" "kbd_data ?dev ?vt = 0x1E"
    by (simp_all add: kbd_status_def kbd_data_def KEYBOARD_STATUS_PORT_def KEYBOARD_DATA_PORT_def)
  have a: "kbd_acked ?dev ?vt = vterm_static
      \<lparr>ports = [In 0x64 1, In 0x60 0x1E, Out 0x20 0x20], framebuffer = (\<lambda>_. 0)\<rparr>"
    unfolding kbd_acked_def d
    by (simp add: vterm_static_def pic_consts KEYBOARD_STATUS_PORT_def KEYBOARD_DATA_PORT_def)
  have c: "typed_char True False 0x1E = 0x41" by code_simp
  from keyboard_types [of ?dev ?vt ?kb] show ?thesis unfolding d a by (simp add: c)
qed

text \<open>However the keyboard answers, after any number of keyboard interrupts the cursor is on the
  screen and nothing but the cells of the console was written, arrow keys past the edge of the
  screen included.
\<close>

theorem keyboard_run_safe:
  assumes "vterm_ok vt"
  shows "vterm_ok (snd ((keyboard_handler dev ^^ n) (kb, vt))) \<and>
    only_screen vt (snd ((keyboard_handler dev ^^ n) (kb, vt)))"
proof (induction n)
  case (Suc n)
  obtain kb' vt' where s: "(keyboard_handler dev ^^ n) (kb, vt) = (kb', vt')" by fastforce
  with Suc keyboard_handler_ok [of vt' dev kb'] show ?case by (auto intro: only_screen_trans)
qed (simp add: assms)

theorem keyboard_run_safe_witness:
  "vterm_ok (snd ((keyboard_handler (\<lambda>_ port. if port = 0x64 then 1 else 0x1E) ^^ 3)
     (keyboard_static, vterm_static \<lparr>ports = [], framebuffer = (\<lambda>_. 0)\<rparr>)))"
proof -
  have "vterm_ok (vterm_static \<lparr>ports = [], framebuffer = (\<lambda>_. 0)\<rparr>)"
    by (simp add: vterm_static_def vterm_ok_def cells_ok_def)
  from keyboard_run_safe [OF this] show ?thesis by blast
qed

text \<open>An interrupt that finds the controller's output buffer empty only reads the status port:
  it changes neither flags nor console and sends no end of interrupt, so the interrupt line stays
  in service.
\<close>

theorem keyboard_spurious_unacknowledged:
  assumes "kbd_status dev vt AND 0x01 = 0" "Out PIC1_COMMAND PIC_EOI \<notin> set (ports (io vt))"
  shows "(let (kb', vt') = keyboard_handler dev (kb, vt)
     in kb' = kb \<and> vt'\<lparr>io := io vt\<rparr> = vt \<and> framebuffer (io vt') = framebuffer (io vt) \<and>
        Out PIC1_COMMAND PIC_EOI \<notin> set (ports (io vt')))"
  using assms(2) by (simp add: keyboard_idle [OF assms(1)])

theorem keyboard_spurious_unacknowledged_witness:
  "fst (keyboard_handler (\<lambda>_ _. 0) (keyboard_static, vterm_static \<lparr>ports = [], framebuffer = (\<lambda>_. 0)\<rparr>)) =
   keyboard_static"
  using keyboard_spurious_unacknowledged [of "\<lambda>_ _. 0" "vterm_static \<lparr>ports = [], framebuffer = (\<lambda>_. 0)\<rparr>" keyboard_static]
  by (auto simp: kbd_status_def vterm_static_def split: prod.splits)

end
