(* ===== verification/Pagetable.thy ===== *)
theory Pagetable
  imports Kmemory
begin

text \<open>
  \<^verbatim>\<open>src/include/arch/i386/memory/paging.h\<close>: page table and directory entries, tables
  in memory, and the walk of the memory management unit over them.  An entry is a 32-bit
  word; assigning a bit field reads the word, replaces the bits and writes it back.  Pages and
  directory entries have the same layout, so they share the field operations.
\<close>

definition PAGE_SIZE :: u32 where "PAGE_SIZE = 4096"
definition TOTAL_ENTRIES :: nat where "TOTAL_ENTRIES = 1024"

section \<open>Entries\<close>

definition pg_present :: "u32 \<Rightarrow> bool" where "pg_present e = bit e 0"
definition pg_rw :: "u32 \<Rightarrow> bool" where "pg_rw e = bit e 1"
definition pg_user :: "u32 \<Rightarrow> bool" where "pg_user e = bit e 2"
definition pg_frame_addr :: "u32 \<Rightarrow> u32" where "pg_frame_addr e = drop_bit 12 e"

definition set_flag :: "nat \<Rightarrow> bool \<Rightarrow> u32 \<Rightarrow> u32" where
  "set_flag n b e = (if b then e OR push_bit n 1 else e AND NOT (push_bit n 1))"

definition set_present :: "bool \<Rightarrow> u32 \<Rightarrow> u32" where "set_present = set_flag 0"
definition set_rw :: "bool \<Rightarrow> u32 \<Rightarrow> u32" where "set_rw = set_flag 1"
definition set_user :: "bool \<Rightarrow> u32 \<Rightarrow> u32" where "set_user = set_flag 2"

definition set_frame_addr :: "u32 \<Rightarrow> u32 \<Rightarrow> u32" where
  "set_frame_addr f e = (e AND 0xFFF) OR push_bit 12 f"

text \<open>The address an entry refers to, \<open>frame_addr << 12\<close>.\<close>

definition page_base :: "u32 \<Rightarrow> u32" where
  "page_base e = push_bit 12 (pg_frame_addr e)"

lemmas pg_defs = pg_present_def pg_rw_def pg_user_def pg_frame_addr_def set_present_def set_rw_def
  set_user_def set_frame_addr_def page_base_def

lemma bit_set_flag: "bit (set_flag n b e) k \<longleftrightarrow> (if k = n \<and> n < 32 then b else bit e k)"
  using bit_imp_le_length [of e k] by (auto simp: set_flag_def bit_simps)

lemma mask12: "(0xFFF :: u32) = mask 12"
  by (simp add: mask_eq_exp_minus_1)

lemma flag_laws [simp]:
  "pg_present (set_present b e) = b" "pg_rw (set_present b e) = pg_rw e" "pg_user (set_present b e) = pg_user e"
  "pg_present (set_rw b e) = pg_present e" "pg_rw (set_rw b e) = b" "pg_user (set_rw b e) = pg_user e"
  "pg_present (set_user b e) = pg_present e" "pg_rw (set_user b e) = pg_rw e" "pg_user (set_user b e) = b"
  by (simp_all add: pg_defs bit_set_flag)

lemma flag_set_frame [simp]:
  "pg_present (set_frame_addr f e) = pg_present e" "pg_rw (set_frame_addr f e) = pg_rw e"
  "pg_user (set_frame_addr f e) = pg_user e"
  unfolding pg_defs mask12 by (simp_all add: bit_simps)

lemma base_laws [simp]:
  "page_base (set_present b e) = page_base e" "page_base (set_rw b e) = page_base e"
  "page_base (set_user b e) = page_base e"
  by (rule bit_word_eqI; auto simp: pg_defs bit_simps bit_set_flag)+

lemma base_set_frame: "page_base (set_frame_addr (drop_bit 12 a) e) = push_bit 12 (drop_bit 12 a)"
  unfolding pg_defs mask12 by (rule bit_word_eqI) (auto simp: bit_simps)

lemma base_zero [simp]: "page_base (set_frame_addr 0 e) = 0"
  unfolding pg_defs mask12 by (rule bit_word_eqI) (auto simp: bit_simps)

lemma present_zero [simp]: "\<not> pg_present 0"
  by (simp add: pg_present_def)

section \<open>Entries as structures\<close>

text \<open>
  The C structure of an entry, with fields of the declared widths, and its packed layout in a word.
  A page of a table and an entry of a directory are declared alike; only the name of the
  address differs.
\<close>

record Page =
  Page_present :: bool
  Page_rw :: bool
  Page_user :: bool
  Page_reserved :: "9 word"
  Page_frame_addr :: "20 word"

type_synonym PageTableDirectoryEntry = Page

definition pack_page :: "Page \<Rightarrow> u32" where
  "pack_page r = of_bool (Page_present r) OR push_bit 1 (of_bool (Page_rw r)) OR push_bit 2 (of_bool (Page_user r))
     OR push_bit 3 (ucast (Page_reserved r)) OR push_bit 12 (ucast (Page_frame_addr r))"

definition unpack_page :: "u32 \<Rightarrow> Page" where
  "unpack_page e = \<lparr>Page_present = pg_present e, Page_rw = pg_rw e, Page_user = pg_user e,
     Page_reserved = ucast (drop_bit 3 e), Page_frame_addr = ucast (pg_frame_addr e)\<rparr>"

lemma bit_pack_page:
  "bit (pack_page r) k \<longleftrightarrow>
     (if k = 0 then Page_present r else if k = 1 then Page_rw r else if k = 2 then Page_user r
      else if k < 12 then bit (Page_reserved r) (k - 3) else k < 32 \<and> bit (Page_frame_addr r) (k - 12))"
  using bit_imp_le_length [of "Page_reserved r" "k - 3"] bit_imp_le_length [of "Page_frame_addr r" "k - 12"]
  by (auto simp: pack_page_def bit_simps)

lemma pack_page_inverse: "unpack_page (pack_page r) = r"
proof -
  have "ucast (drop_bit 3 (pack_page r)) = Page_reserved r" "ucast (drop_bit 12 (pack_page r)) = Page_frame_addr r"
    by (rule bit_word_eqI; simp add: bit_simps bit_pack_page)+
  then show ?thesis by (simp add: unpack_page_def pg_defs bit_pack_page)
qed

lemma unpack_page_inverse: "pack_page (unpack_page e) = e"
  by (rule bit_word_eqI) (auto simp: bit_pack_page unpack_page_def pg_defs bit_simps numeral_2_eq_2 le_Suc_eq not_less)

section \<open>Page-aligned addresses\<close>

definition page_aligned :: "u32 \<Rightarrow> bool" where
  "page_aligned a \<longleftrightarrow> unat a mod 4096 = 0"

lemma page_aligned_word: "page_aligned a \<longleftrightarrow> a mod 4096 = 0"
  by (simp add: page_aligned_def word_unat_eq_iff unat_mod)

lemma page_number:
  assumes "page_aligned a"
  obtains k where "unat a = 4096 * k" "k < 1048576"
proof
  show "unat a = 4096 * (unat a div 4096)"
    using assms div_mult_mod_eq [of "unat a" 4096] by (simp add: page_aligned_def)
  show "unat a div 4096 < 1048576" using unat_u32_bound [of a] by linarith
qed

lemma page_aligned_round [simp]: "page_aligned a \<Longrightarrow> push_bit 12 (drop_bit 12 a) = a"
  using bits_ident [of 12 a] by (simp add: page_aligned_word take_bit_eq_mod)

lemma base_set_page [simp]: "page_aligned a \<Longrightarrow> page_base (set_frame_addr (drop_bit 12 a) e) = a"
  by (simp add: base_set_frame)

lemma page_base_aligned [simp]: "page_aligned (page_base e)"
proof -
  have "take_bit 12 (page_base e) = 0" unfolding page_base_def by (rule bit_word_eqI) (auto simp: bit_simps)
  then show ?thesis by (simp add: page_aligned_word take_bit_eq_mod)
qed

lemma page_aligned_aligned4 [simp]: "page_aligned a \<Longrightarrow> aligned4 a"
  by (erule page_number) (simp add: aligned4_def)

lemma page_aligned_bound: "page_aligned a \<Longrightarrow> unat a + 4096 \<le> 4294967296"
  by (erule page_number) simp

lemma page_aligned_fits [simp]: "page_aligned a \<Longrightarrow> fits a 4096"
  using page_aligned_bound by (simp add: fits_def)

lemma page_aligned_apart:
  "page_aligned a \<Longrightarrow> page_aligned b \<Longrightarrow> a \<noteq> b \<Longrightarrow> unat a + 4096 \<le> unat b \<or> unat b + 4096 \<le> unat a"
  by (elim page_number) (simp add: word_unat_eq_iff, linarith)

section \<open>Tables in memory\<close>

definition entry :: "mem \<Rightarrow> u32 \<Rightarrow> nat \<Rightarrow> u32" where
  "entry m table i = load32 m (table + 4 * U32 i)"

definition modify_entry :: "u32 \<Rightarrow> nat \<Rightarrow> (u32 \<Rightarrow> u32) \<Rightarrow> mem \<Rightarrow> mem" where
  "modify_entry table i f m = store32 (table + 4 * U32 i) (f (entry m table i)) m"

lemma entry_addr: "page_aligned t \<Longrightarrow> i < 1024 \<Longrightarrow> unat (t + 4 * U32 i) = unat t + 4 * i"
  using unat_offset [of t 4096 "4 * i"] by simp

lemma entry_addr_eq:
  assumes "page_aligned t" "page_aligned t'" "i < 1024" "j < 1024"
  shows "t + 4 * U32 i = t' + 4 * U32 j \<longleftrightarrow> t = t' \<and> i = j"
proof
  assume "t + 4 * U32 i = t' + 4 * U32 j"
  then have eq: "unat t + 4 * i = unat t' + 4 * j"
    using entry_addr [OF assms(1,3)] entry_addr [OF assms(2,4)] by simp
  with page_aligned_apart [OF assms(1,2)] assms(3,4) have "t = t'" by fastforce
  with eq show "t = t' \<and> i = j" by simp
qed simp

lemma entry_modify [mem_frame]:
  assumes "page_aligned t" "page_aligned t'" "i < 1024" "j < 1024"
  shows "entry (modify_entry t i f m) t' j = (if t = t' \<and> i = j then f (entry m t i) else entry m t' j)"
  using assms by (auto simp: entry_def modify_entry_def load32_store32_aligned entry_addr_eq)

lemma modify_entry_frame:
  assumes "page_aligned t" "i < 1024" "x \<notin> bytes t 4096"
  shows "modify_entry t i f m x = m x"
proof -
  have "\<not> in_range x (t + 4 * U32 i) 4"
    using assms entry_addr [OF assms(1,2)] by (auto simp: bytes_def in_range_def)
  then show ?thesis using assms by (simp add: modify_entry_def store32_frame)
qed

lemma entry_cong:
  assumes "page_aligned t" "i < 1024" "\<And>x. x \<in> bytes t 4096 \<Longrightarrow> m' x = m x"
  shows "entry m' t i = entry m t i"
proof -
  have "bytes (t + 4 * U32 i) 4 \<subseteq> bytes t 4096"
    using entry_addr [OF assms(1,2)] assms(2) by (auto simp: bytes_def in_range_def)
  with assms(1) show ?thesis
    unfolding entry_def by (intro load32_same_on [where S = "bytes t 4096"]) (auto simp: same_on_def assms(3))
qed

lemma in_page: "page_aligned t \<Longrightarrow> x \<in> bytes t 4096 \<longleftrightarrow> x - t < 4096"
proof
  assume t: "page_aligned t" and "x \<in> bytes t 4096"
  then have x: "unat t \<le> unat x" "unat x < unat t + 4096" by (auto simp: bytes_def in_range_def)
  then show "x - t < 4096" by (simp add: word_less_nat_alt unat_sub word_le_nat_alt)
next
  assume t: "page_aligned t" and "x - t < 4096"
  then show "x \<in> bytes t 4096"
    using offset_outside [of t 4096 x] by (auto simp: word_less_nat_alt)
qed

lemma pages_disjoint:
  "page_aligned a \<Longrightarrow> page_aligned b \<Longrightarrow> a \<noteq> b \<Longrightarrow> x \<in> bytes a 4096 \<Longrightarrow> x \<notin> bytes b 4096"
  using page_aligned_apart [of a b] by (auto simp: bytes_def in_range_def)

lemma kmemset_page:
  "page_aligned t \<Longrightarrow> snd (kmemset t v 4096 m) x = (if x \<in> bytes t 4096 then v else m x)"
  by (simp add: kmemset_nth in_page)

lemma load32_zero: "(\<And>i. i < 4 \<Longrightarrow> m (a + U32 i) = 0) \<Longrightarrow> load32 m a = 0"
  using load32_cong [of m a "\<lambda>_. 0"] by (simp add: load32_def)

lemma entry_kmemset [mem_frame]:
  assumes "page_aligned t" "page_aligned t'" "i < 1024"
  shows "entry (snd (kmemset t 0 4096 m)) t' i = (if t = t' then 0 else entry m t' i)"
proof (cases "t = t'")
  case True
  have "entry (snd (kmemset t 0 4096 m)) t' i = entry (\<lambda>_. 0) t' i"
    using assms True by (intro entry_cong) (auto simp: kmemset_page)
  with True show ?thesis by (simp add: entry_def load32_def)
next
  case False
  then show ?thesis
    using assms pages_disjoint [OF assms(2,1)] by (auto intro!: entry_cong simp: kmemset_page)
qed

section \<open>The walk\<close>

definition dir_index :: "u32 \<Rightarrow> nat" where "dir_index va = unat (drop_bit 22 va)"
definition page_index :: "u32 \<Rightarrow> nat" where "page_index va = unat (drop_bit 12 va AND 0x3FF)"

text \<open>
  The entry of the page of a virtual address, when both levels are present, and the physical
  address.  Large pages are not enabled by the kernel.
\<close>

definition walk :: "u32 \<Rightarrow> mem \<Rightarrow> u32 \<Rightarrow> u32 option" where
  "walk dir m va =
     (let d = entry m dir (dir_index va) in
      if pg_present d then
        let e = entry m (page_base d) (page_index va)
        in if pg_present e then Some e else None
      else None)"

definition translate :: "u32 \<Rightarrow> mem \<Rightarrow> u32 \<Rightarrow> u32 option" where
  "translate dir m va = map_option (\<lambda>e. page_base e + (va AND 0xFFF)) (walk dir m va)"

lemma dir_index_div: "dir_index va = unat va div 4194304"
  by (simp add: dir_index_def drop_bit_eq_div unat_div)

lemma page_index_div: "page_index va = unat va div 4096 mod 1024"
proof -
  have "drop_bit 12 va AND 0x3FF = drop_bit 12 va mod (1024 :: u32)"
    using take_bit_eq_mod [of 10 "drop_bit 12 va"] by (simp add: take_bit_eq_mask mask_eq_exp_minus_1)
  then show ?thesis by (simp add: page_index_def unat_mod drop_bit_eq_div unat_div)
qed

lemma dir_index_bound [simp]: "dir_index va < 1024"
  using unat_u32_bound [of va] unfolding dir_index_div by linarith

lemma page_index_bound [simp]: "page_index va < 1024"
  by (simp add: page_index_div)

lemma index_eq: "dir_index va * 1024 + page_index va = unat va div 4096"
  unfolding dir_index_div page_index_div by (simp add: div_mult2_eq [of "unat va" 4096 1024, simplified])

lemma unat_offset12: "unat (va AND 0xFFF :: u32) = unat va mod 4096"
proof -
  have "va AND 0xFFF = va mod 4096"
    unfolding mask12 using take_bit_eq_mod [of 12 va] by (simp add: take_bit_eq_mask)
  then show ?thesis by (simp add: unat_mod)
qed

definition page_start :: "u32 \<Rightarrow> u32" where
  "page_start va = push_bit 12 (drop_bit 12 va)"

lemma page_start_split: "page_start va + (va AND 0xFFF) = va"
  using bits_ident [of 12 va] unfolding mask12 page_start_def by (simp add: take_bit_eq_mask)

lemma page_start_aligned [simp]: "page_aligned (page_start va)"
proof -
  have "take_bit 12 (page_start va) = 0" unfolding page_start_def by (rule bit_word_eqI) (auto simp: bit_simps)
  then show ?thesis by (simp add: page_aligned_word take_bit_eq_mod)
qed

lemma unat_page_start: "unat (page_start va) = unat va div 4096 * 4096"
proof -
  obtain k where k: "unat (page_start va) = 4096 * k" by (rule page_number [OF page_start_aligned])
  have o: "U32 (unat va mod 4096) = va AND 0xFFF" by (metis of_nat_unat_u32 unat_offset12)
  have "unat va = unat (page_start va) + unat va mod 4096"
    using unat_offset [OF page_aligned_fits [OF page_start_aligned], of "unat va mod 4096" va]
    unfolding o page_start_split by simp
  then show ?thesis using k div_mult_mod_eq [of "unat va" 4096] by linarith
qed

lemma page_start_index: "page_start va = U32 ((dir_index va * 1024 + page_index va) * 4096)"
  unfolding index_eq by (metis of_nat_unat_u32 unat_page_start)

section \<open>The fields of an entry\<close>

text \<open>The field assignments on words are those of the declared structure.  Packing and unpacking are
  inverse; assigning one field of an entry leaves all others, the reserved bits included, as they were; and
  an address is cut to its 20 bits.\<close>

lemma page_fields_layout:
  "pack_page (unpack_page e) = e \<and> unpack_page (pack_page r) = r \<and>
   unpack_page (set_present b e) = (unpack_page e)\<lparr>Page_present := b\<rparr> \<and>
   unpack_page (set_rw b e) = (unpack_page e)\<lparr>Page_rw := b\<rparr> \<and>
   unpack_page (set_user b e) = (unpack_page e)\<lparr>Page_user := b\<rparr> \<and>
   unpack_page (set_frame_addr f e) = (unpack_page e)\<lparr>Page_frame_addr := ucast f\<rparr> \<and>
   pg_frame_addr e = ucast (Page_frame_addr (unpack_page e))"
proof -
  have res: "(ucast (drop_bit 3 (set_flag n b e)) :: 9 word) = ucast (drop_bit 3 e)"
      "(ucast (drop_bit 12 (set_flag n b e)) :: 20 word) = ucast (drop_bit 12 e)" if "n < 3" for n
    by (rule bit_word_eqI; use that in \<open>auto simp: bit_simps bit_set_flag\<close>)+
  have frame: "(ucast (drop_bit 3 (set_frame_addr f e)) :: 9 word) = ucast (drop_bit 3 e)"
      "(ucast (drop_bit 12 (set_frame_addr f e)) :: 20 word) = ucast f"
    unfolding set_frame_addr_def mask12 by (rule bit_word_eqI; auto simp: bit_simps)+
  have "pg_frame_addr e = ucast (ucast (pg_frame_addr e) :: 20 word)"
    by (rule bit_word_eqI) (auto simp: pg_frame_addr_def bit_simps dest: bit_imp_le_length)
  then show ?thesis
    using pack_page_inverse unpack_page_inverse res [of 0] res [of 1] res [of 2] frame
    by (simp add: unpack_page_def) (simp add: pg_defs)
qed

end
