(* ===== verification/Paging.thy ===== *)
theory Paging
  imports Pagetable Pmm Isr
begin

text \<open>
  \<^verbatim>\<open>src/kernel/arch/i386/memory/paging.c\<close>: the kernel's page tables.  The processor's
  part of the state is the record \<open>mmu\<close>: the two control registers and, in order, the
  addresses whose cached translation was invalidated.  The symbols of the linker script are
  a record of addresses.  \<open>paging_init\<close> runs with paging off, so it works on physical
  memory; like the code it does not test the frames it is given for 0.
\<close>

record mmu =
  cr0 :: u32
  cr3 :: u32
  invalidated :: "u32 list"

record sections =
  text_start :: u32
  rodata_start :: u32
  data_start :: u32

section \<open>Operations\<close>

definition paging_switch_address_space :: "u32 \<Rightarrow> mmu \<Rightarrow> mmu" where
  "paging_switch_address_space space u = u\<lparr>cr3 := space\<rparr>"

definition paging_invalidate_page_cache :: "u32 \<Rightarrow> mmu \<Rightarrow> mmu" where
  "paging_invalidate_page_cache virtual_addr u = u\<lparr>invalidated := invalidated u @ [virtual_addr]\<rparr>"

definition map_low :: "sections \<Rightarrow> u32 \<Rightarrow> nat \<Rightarrow> mem \<Rightarrow> mem" where
  "map_low sec table i m =
     (let physical_address = U32 i * PAGE_SIZE;
          m = modify_entry table i (set_present True) m;
          m = modify_entry table i (set_user False) m;
          is_writeable =
            \<not> (text_start sec \<le> physical_address \<and> physical_address < rodata_start sec \<or>
               rodata_start sec \<le> physical_address \<and> physical_address < data_start sec);
          m = modify_entry table i (set_rw is_writeable) m
      in modify_entry table i (set_frame_addr (drop_bit 12 physical_address)) m)"

definition map_high :: "u32 \<Rightarrow> nat \<Rightarrow> mem \<Rightarrow> mem" where
  "map_high table i m =
     (let physical_address = 4 * 1024 * 1024 + U32 i * PAGE_SIZE;
          m = modify_entry table i (set_present True) m;
          m = modify_entry table i (set_rw True) m;
          m = modify_entry table i (set_user False) m
      in modify_entry table i (set_frame_addr (drop_bit 12 physical_address)) m)"

definition link_table :: "u32 \<Rightarrow> nat \<Rightarrow> u32 \<Rightarrow> mem \<Rightarrow> mem" where
  "link_table dir i table m =
     (let m = modify_entry dir i (set_present True) m;
          m = modify_entry dir i (set_rw True) m;
          m = modify_entry dir i (set_user False) m
      in modify_entry dir i (set_frame_addr (drop_bit 12 table)) m)"

definition paging_init ::
    "sections \<Rightarrow> isr_tables \<Rightarrow> u32 \<Rightarrow> pmm \<Rightarrow> mmu \<Rightarrow> mem \<Rightarrow> u32 \<times> mmu \<times> mem" where
  "paging_init sec tables page_fault_handler p u m =
     (let (kernel_directory, m) = pmm_allocate_frame p m;
          (kernel_page_table, m) = pmm_allocate_frame p m;
          (second_page_table, m) = pmm_allocate_frame p m;
          m = snd (kmemset kernel_directory 0 4096 m);
          m = snd (kmemset kernel_page_table 0 4096 m);
          m = snd (kmemset second_page_table 0 4096 m);
          m = fold (map_low sec kernel_page_table) [0..<TOTAL_ENTRIES] m;
          m = modify_entry kernel_page_table 0 (set_present False) m;
          m = fold (map_high second_page_table) [0..<TOTAL_ENTRIES] m;
          m = link_table kernel_directory 0 kernel_page_table m;
          m = link_table kernel_directory 1 second_page_table m;
          m = register_cpu_handler tables 14 page_fault_handler m;
          u = paging_switch_address_space kernel_directory u;
          u = u\<lparr>cr0 := cr0 u OR 0x80000000\<rparr>
      in (kernel_directory, u, m))"

section \<open>The loops in closed form\<close>

lemma store32_twice: "store32 a v (store32 a w m) = store32 a v m"
  by (simp add: store32_def fun_upd_twist fun_eq_iff)

lemma modify_twice: "modify_entry t i f (modify_entry t i g m) = modify_entry t i (\<lambda>e. f (g e)) m"
  by (simp add: modify_entry_def entry_def store32_twice)

definition low_entry :: "sections \<Rightarrow> nat \<Rightarrow> u32 \<Rightarrow> u32" where
  "low_entry sec i e = set_frame_addr (drop_bit 12 (U32 i * 4096))
     (set_rw (\<not> (text_start sec \<le> U32 i * 4096 \<and> U32 i * 4096 < rodata_start sec \<or>
               rodata_start sec \<le> U32 i * 4096 \<and> U32 i * 4096 < data_start sec))
       (set_user False (set_present True e)))"

definition high_entry :: "nat \<Rightarrow> u32 \<Rightarrow> u32" where
  "high_entry i e = set_frame_addr (drop_bit 12 (0x400000 + U32 i * 4096))
     (set_user False (set_rw True (set_present True e)))"

definition table_entry :: "u32 \<Rightarrow> u32 \<Rightarrow> u32" where
  "table_entry table e = set_frame_addr (drop_bit 12 table) (set_user False (set_rw True (set_present True e)))"

lemma map_low_modify: "map_low sec t i = modify_entry t i (low_entry sec i)"
  by (simp add: map_low_def low_entry_def [abs_def] modify_twice PAGE_SIZE_def Let_def fun_eq_iff)

lemma map_high_modify: "map_high t i = modify_entry t i (high_entry i)"
  by (simp add: map_high_def high_entry_def [abs_def] modify_twice PAGE_SIZE_def Let_def fun_eq_iff)

lemma link_table_modify: "link_table d i t = modify_entry d i (table_entry t)"
  by (simp add: link_table_def table_entry_def [abs_def] modify_twice Let_def fun_eq_iff)

lemma entry_fold_modify:
  assumes "page_aligned t" "page_aligned t'" "n \<le> 1024" "j < 1024"
  shows "entry (fold (\<lambda>i. modify_entry t i (f i)) [0..<n] m) t' j =
    (if t = t' \<and> j < n then f j (entry m t j) else entry m t' j)"
  using assms(3)
proof (induction n)
  case (Suc n)
  then show ?case using assms by (auto simp: entry_modify less_Suc_eq)
qed simp

lemma fold_modify_frame:
  "page_aligned t \<Longrightarrow> n \<le> 1024 \<Longrightarrow> x \<notin> bytes t 4096 \<Longrightarrow>
    fold (\<lambda>i. modify_entry t i (f i)) [0..<n] m x = m x"
  by (induction n) (simp_all add: modify_entry_frame)

lemma low_page: "i < 1024 \<Longrightarrow> page_aligned (U32 i * 4096) \<and> unat (U32 i * 4096) = i * 4096"
  by (subst page_aligned_def, subst (1 2) unat_mult_u32) (simp_all add: unat_of_nat_u32)

lemma high_page:
  "i < 1024 \<Longrightarrow> page_aligned (0x400000 + U32 i * 4096) \<and> unat (0x400000 + U32 i * 4096) = 0x400000 + i * 4096"
  using low_page [of i] by (subst page_aligned_def, subst (1 2) unat_add_u32) simp_all

lemma low_entry_laws:
  assumes "i < 1024"
  shows "pg_present (low_entry sec i e)" "\<not> pg_user (low_entry sec i e)"
    "page_base (low_entry sec i e) = U32 i * 4096"
  using low_page [OF assms] by (simp_all add: low_entry_def)

lemma high_entry_laws:
  assumes "i < 1024"
  shows "pg_present (high_entry i e)" "\<not> pg_user (high_entry i e)" "pg_rw (high_entry i e)"
    "page_base (high_entry i e) = 0x400000 + U32 i * 4096"
  using high_page [OF assms] by (simp_all add: high_entry_def)

lemma table_entry_laws [simp]:
  "pg_present (table_entry t e)" "\<not> pg_user (table_entry t e)" "pg_rw (table_entry t e)"
  "page_aligned t \<Longrightarrow> page_base (table_entry t e) = t"
  by (simp_all add: table_entry_def)

section \<open>The tables after initialisation\<close>

text \<open>Three frames granted one after the other.\<close>

definition three_frames :: "pmm \<Rightarrow> mem \<Rightarrow> u32 \<Rightarrow> u32 \<Rightarrow> u32 \<Rightarrow> mem \<Rightarrow> bool" where
  "three_frames p m a b c m' \<longleftrightarrow> a \<noteq> 0 \<and> b \<noteq> 0 \<and> c \<noteq> 0 \<and>
     (\<exists>m1 m2. pmm_allocate_frame p m = (a, m1) \<and> pmm_allocate_frame p m1 = (b, m2) \<and>
        pmm_allocate_frame p m2 = (c, m'))"

lemma three_frames_fresh:
  assumes "pmm_ok p" "three_frames p m a b c m'"
  shows "page_aligned a" "page_aligned b" "page_aligned c" "a \<noteq> b" "a \<noteq> c" "b \<noteq> c"
proof -
  obtain m1 m2 where al: "pmm_allocate_frame p m = (a, m1)" "pmm_allocate_frame p m1 = (b, m2)"
      "pmm_allocate_frame p m2 = (c, m')" and nz: "a \<noteq> 0" "b \<noteq> 0" "c \<noteq> 0"
    using assms(2) by (auto simp: three_frames_def)
  note g = pm.alloc_grants [OF assms(1) al(1) nz(1)] pm.alloc_grants [OF assms(1) al(2) nz(2)]
    pm.alloc_grants [OF assms(1) al(3) nz(3)]
  from g show "page_aligned a" "page_aligned b" "page_aligned c" by (simp_all add: page_aligned_word)
  from g show "a \<noteq> b" "a \<noteq> c" "b \<noteq> c" by auto
qed

text \<open>The handler table entry that is written lies outside the frame.\<close>

definition slot_outside :: "isr_tables \<Rightarrow> u32 \<Rightarrow> bool" where
  "slot_outside tables t \<longleftrightarrow> fits (cpu_exception_handlers tables + 56) 4 \<and>
     bytes (cpu_exception_handlers tables + 56) 4 \<inter> bytes t 4096 = {}"

lemma entry_register:
  assumes "slot_outside tables t" "page_aligned t" "i < 1024"
  shows "entry (register_cpu_handler tables 14 h m) t i = entry m t i"
  using assms
  by (intro entry_cong) (auto simp: slot_outside_def register_cpu_handler_def set_handler_def bytes_def
      intro!: store32_frame)

lemma paging_init_run:
  assumes "three_frames p m kd pt pt2 m3"
  shows "paging_init sec tables h p u m = (kd, u\<lparr>cr3 := kd, cr0 := cr0 u OR 0x80000000\<rparr>,
      register_cpu_handler tables 14 h
        (modify_entry kd 1 (table_entry pt2) (modify_entry kd 0 (table_entry pt)
          (fold (\<lambda>i. modify_entry pt2 i (high_entry i)) [0..<1024]
            (modify_entry pt 0 (set_present False)
              (fold (\<lambda>i. modify_entry pt i (low_entry sec i)) [0..<1024]
                (snd (kmemset pt2 0 4096 (snd (kmemset pt 0 4096 (snd (kmemset kd 0 4096 m3))))))))))))"
  using assms
  by (auto simp: three_frames_def paging_init_def Let_def map_low_modify [abs_def] map_high_modify [abs_def]
      link_table_modify TOTAL_ENTRIES_def paging_switch_address_space_def)

lemma paging_init_entries:
  assumes "pmm_ok p" "three_frames p m kd pt pt2 m3"
    and "slot_outside tables kd" "slot_outside tables pt" "slot_outside tables pt2"
    and "paging_init sec tables h p u m = (d, u', m')" "i < 1024"
  shows "d = kd" "cr3 u' = kd" "cr0 u' = cr0 u OR 0x80000000"
    "entry m' kd i = (if i = 0 then table_entry pt 0 else if i = 1 then table_entry pt2 0 else 0)"
    "entry m' pt i = (if i = 0 then set_present False (low_entry sec 0 0) else low_entry sec i 0)"
    "entry m' pt2 i = high_entry i 0"
  using paging_init_run [OF assms(2), of sec tables h u] assms(3-7)
    three_frames_fresh [OF assms(1,2)]
  by (auto simp: entry_register entry_modify entry_fold_modify entry_kmemset)

lemma low_range: "dir_index va = 0 \<longleftrightarrow> va < 0x400000"
  unfolding dir_index_div word_less_nat_alt by simp linarith

lemma high_range: "dir_index va = 1 \<longleftrightarrow> 0x400000 \<le> va \<and> va < 0x800000"
  unfolding dir_index_div word_less_nat_alt word_le_nat_alt by simp linarith

lemma first_page: "dir_index va = 0 \<Longrightarrow> page_index va = 0 \<longleftrightarrow> va < 0x1000"
  using index_eq [of va] unfolding word_less_nat_alt by simp linarith

lemma paging_init_walk:
  assumes "pmm_ok p" "three_frames p m kd pt pt2 m3"
    and "slot_outside tables kd" "slot_outside tables pt" "slot_outside tables pt2"
    and "paging_init sec tables h p u m = (d, u', m')"
  shows "walk kd m' va =
    (if va < 0x1000 \<or> 0x800000 \<le> va then None
     else if va < 0x400000 then Some (low_entry sec (page_index va) 0)
     else Some (high_entry (page_index va) 0))"
proof -
  note e = paging_init_entries [OF assms]
  have al: "page_aligned pt" "page_aligned pt2" using three_frames_fresh [OF assms(1,2)] by auto
  consider "dir_index va = 0" "va < 0x400000" "\<not> 0x800000 \<le> va"
    | "dir_index va = 1" "\<not> va < 0x1000" "\<not> 0x800000 \<le> va" "\<not> va < 0x400000"
    | "dir_index va \<noteq> 0" "dir_index va \<noteq> 1" "0x800000 \<le> va"
    using low_range [of va] high_range [of va] unfolding word_less_nat_alt word_le_nat_alt by fastforce
  then show ?thesis
    by cases (auto simp: walk_def Let_def e al low_entry_laws high_entry_laws first_page)
qed

lemma low_entry_base: "dir_index va = 0 \<Longrightarrow> page_base (low_entry sec (page_index va) e) = page_start va"
  by (simp add: low_entry_laws page_start_index)

lemma high_entry_base: "dir_index va = 1 \<Longrightarrow> page_base (high_entry (page_index va) e) = page_start va"
  by (simp add: high_entry_laws page_start_index algebra_simps)

lemma paging_init_translate:
  assumes "pmm_ok p" "three_frames p m kd pt pt2 m3"
    and "slot_outside tables kd" "slot_outside tables pt" "slot_outside tables pt2"
    and "paging_init sec tables h p u m = (d, u', m')"
  shows "translate kd m' va = (if 0x1000 \<le> va \<and> va < 0x800000 then Some va else None)"
  using low_range [of va] high_range [of va]
  by (auto simp: translate_def paging_init_walk [OF assms] low_entry_base high_entry_base page_start_split not_less not_le)

text \<open>The kernel image: text, then constants, then data, below 4 MB.\<close>

definition image_layout :: "sections \<Rightarrow> bool" where
  "image_layout sec \<longleftrightarrow> text_start sec \<le> rodata_start sec \<and> rodata_start sec \<le> data_start sec \<and>
     data_start sec \<le> 0x400000"

lemma low_entry_rw:
  assumes "image_layout sec" "dir_index va = 0"
  shows "pg_rw (low_entry sec (page_index va) e) \<longleftrightarrow>
    \<not> (text_start sec \<le> page_start va \<and> page_start va < data_start sec)"
  using assms by (auto simp: low_entry_def image_layout_def page_start_index)

lemma high_not_data: "image_layout sec \<Longrightarrow> 0x400000 \<le> va \<Longrightarrow> \<not> page_start va < data_start sec"
  unfolding image_layout_def word_less_nat_alt word_le_nat_alt unat_page_start
  using div_le_mono [of 4194304 "unat va" 4096] by simp

lemma pmm_allocate_lowest:
  assumes "pmm_ok p" "frame_exists p f" "\<And>g. frame_used p g m \<longleftrightarrow> g < f" "f \<noteq> 0"
  obtains m' where "pmm_allocate_frame p m = (f * 4096, m')" "f * 4096 \<noteq> 0"
    "\<And>g. frame_used p g m' \<longleftrightarrow> g = f \<or> g < f"
proof
  show "pmm_allocate_frame p m = (f * 4096, bitmap_set (frame_bitmap p) f m)"
    using assms by (intro pmm_allocate_first) auto
  show "f * 4096 \<noteq> 0" using assms frame_address(3) by blast
  show "frame_used p g (bitmap_set (frame_bitmap p) f m) \<longleftrightarrow> g = f \<or> g < f" for g
    using assms by (simp add: frame_used_set)
qed

lemma pmm_init_three_frames:
  assumes "pmm_layout ram start" "pmm_init ram start m = (nxt, p, m')"
    and "0 < unat nxt div 4096" "unat nxt div 4096 + 2 < unat ram div 4096"
  obtains m3 where "three_frames p m' (nxt div 4096 * 4096) ((nxt div 4096 + 1) * 4096)
    ((nxt div 4096 + 2) * 4096) m3"
proof -
  note parts = pmm_init_parts [OF assms(1,2)]
  let ?f = "nxt div 4096"
  have f: "unat ?f = unat nxt div 4096" by (simp add: unat_div)
  have b: "unat nxt div 4096 + 2 < 1048576"
    using assms(4) unat_u32_bound [of ram] by linarith
  have f1: "unat (?f + 1) = unat nxt div 4096 + 1" and f2: "unat (?f + 2) = unat nxt div 4096 + 2"
    using b f by (subst unat_add_u32; simp)+
  have ex: "frame_exists p ?f" "frame_exists p (?f + 1)" "frame_exists p (?f + 2)"
    using assms(4) f f1 f2 by (auto simp: frame_exists_def parts(1) word_less_nat_alt unat_div)
  have u0: "frame_used p g m' \<longleftrightarrow> g < ?f" for g
    using ex(1) by (auto simp: pmm_init_used [OF assms(1,2)] frame_exists_def parts(1))
  have nz: "?f \<noteq> 0" "?f + 1 \<noteq> 0" "?f + 2 \<noteq> 0"
    using f f1 f2 assms(3) by (auto simp: word_unat_eq_iff)
  have lt: "g < ?f + 1 \<longleftrightarrow> g = ?f \<or> g < ?f" "g < ?f + 2 \<longleftrightarrow> g = ?f + 1 \<or> g < ?f + 1" for g
    using f f1 f2 by (auto simp: word_less_nat_alt word_unat_eq_iff)
  obtain m1 where m1: "pmm_allocate_frame p m' = (?f * 4096, m1)" "?f * 4096 \<noteq> 0"
      "\<And>g. frame_used p g m1 \<longleftrightarrow> g < ?f + 1"
    using pmm_allocate_lowest [OF parts(4) ex(1) u0 nz(1)] lt(1) by metis
  obtain m2 where m2: "pmm_allocate_frame p m1 = ((?f + 1) * 4096, m2)" "(?f + 1) * 4096 \<noteq> 0"
      "\<And>g. frame_used p g m2 \<longleftrightarrow> g < ?f + 2"
    using pmm_allocate_lowest [OF parts(4) ex(2) m1(3) nz(2)] lt(2) by metis
  obtain m3 where m3: "pmm_allocate_frame p m2 = ((?f + 2) * 4096, m3)" "(?f + 2) * 4096 \<noteq> 0"
    using pmm_allocate_lowest [OF parts(4) ex(3) m2(3) nz(3)] by metis
  show ?thesis using m1 m2 m3 by (intro that) (auto simp: three_frames_def)
qed

section \<open>Properties\<close>

text \<open>C13: the initialisation of paging.  When the frame allocator grants three frames, the kernel
  directory is the first of them, it is loaded and paging is on; the address space then maps
  exactly the addresses from \<open>0x1000\<close> below 8 MB, each to itself, never to user mode, and
  the pages are writable except those from the start of the text to the start of the data.  So page 0 is
  unmapped and \<open>0x1000\<close> to \<open>0xFFFFF\<close> is writable, where the map drawn in \<^verbatim>\<open>paging.h\<close> starts at address 0 and has this
  part read-only.\<close>

theorem paging_init_identity:
  assumes "pmm_ok p" "three_frames p m kd pt pt2 m3" "image_layout sec"
    and "slot_outside tables kd" "slot_outside tables pt" "slot_outside tables pt2"
    and "paging_init sec tables h p u m = (d, u', m')"
  shows "d = kd \<and> cr3 u' = kd \<and> bit (cr0 u') 31 \<and>
    translate kd m' va = (if 0x1000 \<le> va \<and> va < 0x800000 then Some va else None) \<and>
    (case walk kd m' va of None \<Rightarrow> True
     | Some e \<Rightarrow> \<not> pg_user e \<and>
         (pg_rw e \<longleftrightarrow> \<not> (text_start sec \<le> page_start va \<and> page_start va < data_start sec)))"
proof -
  note e = paging_init_entries [OF assms(1,2,4-7), of 0]
  note w = paging_init_walk [OF assms(1,2,4-7)]
  have cr0: "bit (cr0 u') 31"
    using e(3) bit_push_bit_iff [of 31 "1 :: u32" 31] by (simp add: bit_simps)
  note tr = paging_init_translate [OF assms(1,2,4-7), of va]
  have perm: "case walk kd m' va of None \<Rightarrow> True
     | Some e \<Rightarrow> \<not> pg_user e \<and>
         (pg_rw e \<longleftrightarrow> \<not> (text_start sec \<le> page_start va \<and> page_start va < data_start sec))"
    using low_range [of va] high_range [of va] assms(3) high_not_data [OF assms(3), of va]
    by (auto simp: w low_entry_laws high_entry_laws low_entry_rw)
  show ?thesis using e cr0 tr perm by simp
qed

theorem paging_init_identity_witness:
  "\<exists>nxt p m kd u' m'. pmm_init 0x8000000 0x400000 (\<lambda>_. 0) = (nxt, p, m) \<and>
     paging_init \<lparr>text_start = 0x100000, rodata_start = 0x105000, data_start = 0x106000\<rparr>
       \<lparr>cpu_exception_handlers = 0x107000, irq_handlers = 0x107080, syscall_handlers = 0x1070C0\<rparr> 0x100040 p
       \<lparr>cr0 = 0x11, cr3 = 0, invalidated = []\<rparr> m = (kd, u', m') \<and>
     kd = 0x401000 \<and> translate kd m' 0x7FF123 = Some 0x7FF123 \<and> translate kd m' 0 = None"
proof -
  obtain nxt p m where init: "pmm_init 0x8000000 0x400000 (\<lambda>_. 0) = (nxt, p, m)" by (metis prod_cases3)
  have lay: "pmm_layout 0x8000000 0x400000" by (simp add: pmm_layout_def aligned4_def)
  note parts = pmm_init_parts [OF lay init]
  have nxt: "nxt = 0x401000"
    using parts(1,3) by (simp add: word_unat_eq_iff bitmap_words_def unat_div)
  obtain m3 where f: "three_frames p m 0x401000 0x402000 0x403000 m3"
    using pmm_init_three_frames [OF lay init] unfolding nxt by (auto simp: unat_div)
  let ?t = "\<lparr>cpu_exception_handlers = 0x107000, irq_handlers = 0x107080, syscall_handlers = 0x1070C0\<rparr>"
  let ?s = "\<lparr>text_start = 0x100000, rodata_start = 0x105000, data_start = 0x106000\<rparr>"
  let ?u = "\<lparr>cr0 = 0x11, cr3 = 0, invalidated = []\<rparr>"
  have sl: "slot_outside ?t 0x401000" "slot_outside ?t 0x402000" "slot_outside ?t 0x403000"
    by (auto simp: slot_outside_def fits_def bytes_def in_range_def)
  have im: "image_layout ?s" by (simp add: image_layout_def)
  obtain kd u' m' where r: "paging_init ?s ?t 0x100040 p ?u m = (kd, u', m')" by (metis prod_cases3)
  note i = paging_init_identity [OF parts(4) f im sl r]
  from i [of "0x7FF123"] i [of 0] init r show ?thesis by auto
qed

end
