(* ===== verification/Vmm.thy ===== *)
theory Vmm
  imports Paging
begin

text \<open>
  \<^verbatim>\<open>src/kernel/memory/vmm.c\<close>: the virtual memory manager.  It runs with paging on, so
  every access goes through the page tables of the current address space: \<open>translate\<close> from
  \<open>cr3\<close>, with a page fault when a level is not present.  The manager casts physical addresses
  of tables to pointers and relies on the identity mapping of the first 8 MB for them; where it
  does not hold the model faults or accesses the frame that is really mapped there.  Supervisor
  accesses ignore the write bit, as the write-protect flag of \<open>cr0\<close> is never set.  Cached
  translations are not modelled; the calls that invalidate them are recorded in order.

  The frame allocator's bitmap is below 8 MB; its routines are applied to physical memory.  The
  parameters \<open>p\<close> and \<open>kd\<close> are the static variables of \<open>pmm.c\<close> and
  \<open>kernel_directory\<close>.  A pointer result is 0 for NULL.
\<close>

definition VMM_TEMP_WINDOW_VIRTUAL :: u32 where "VMM_TEMP_WINDOW_VIRTUAL = 0x007FF000"
definition VMM_TEMP_WINDOW_PAGE_IDX :: nat where "VMM_TEMP_WINDOW_PAGE_IDX = 1023"
definition KERNEL_PT1_DIR_IDX :: nat where "KERNEL_PT1_DIR_IDX = 1"

section \<open>Accesses through the page tables\<close>

record vm =
  ram :: mem
  regs :: mmu

definition bind_result :: "'a result \<Rightarrow> ('a \<Rightarrow> 'b result) \<Rightarrow> 'b result" where
  "bind_result r f = (case r of Inl e \<Rightarrow> Inl e | Inr a \<Rightarrow> f a)"

lemma bind_result_simps [simp]:
  "bind_result (Inr a) f = f a" "bind_result (Inl e) f = Inl e"
  by (simp_all add: bind_result_def)

definition resolve :: "vm \<Rightarrow> u32 \<Rightarrow> u32 result" where
  "resolve s va =
     (case translate (cr3 (regs s)) (ram s) va of None \<Rightarrow> Inl (PageFault va) | Some pa \<Rightarrow> Inr pa)"

text \<open>Reading and assigning a field of entry \<open>i\<close> of the table a pointer refers to.\<close>

definition get_entry :: "u32 \<Rightarrow> nat \<Rightarrow> vm \<Rightarrow> u32 result" where
  "get_entry table i s = bind_result (resolve s (table + 4 * U32 i)) (\<lambda>pa. Inr (load32 (ram s) pa))"

definition set_entry :: "u32 \<Rightarrow> nat \<Rightarrow> (u32 \<Rightarrow> u32) \<Rightarrow> vm \<Rightarrow> vm result" where
  "set_entry table i f s =
     bind_result (resolve s (table + 4 * U32 i))
       (\<lambda>pa. Inr (s\<lparr>ram := store32 pa (f (load32 (ram s) pa)) (ram s)\<rparr>))"

definition get_byte :: "u32 \<Rightarrow> vm \<Rightarrow> u8 result" where
  "get_byte va s = bind_result (resolve s va) (\<lambda>pa. Inr (ram s pa))"

definition set_byte :: "u32 \<Rightarrow> u8 \<Rightarrow> vm \<Rightarrow> vm result" where
  "set_byte va v s = bind_result (resolve s va) (\<lambda>pa. Inr (s\<lparr>ram := store8 pa v (ram s)\<rparr>))"

definition each :: "('a \<Rightarrow> vm \<Rightarrow> vm result) \<Rightarrow> 'a list \<Rightarrow> vm \<Rightarrow> vm result" where
  "each f xs s = fold (\<lambda>x r. bind_result r (f x)) xs (Inr s)"

text \<open>\<open>kmemset\<close> and \<open>kmemcpy\<close> through the page tables.\<close>

definition vkmemset :: "u32 \<Rightarrow> u8 \<Rightarrow> u32 \<Rightarrow> vm \<Rightarrow> vm result" where
  "vkmemset dest val count s = each (\<lambda>i. set_byte (dest + U32 i) val) [0..<unat count] s"

definition vkmemcpy :: "u32 \<Rightarrow> u32 \<Rightarrow> u32 \<Rightarrow> vm \<Rightarrow> vm result" where
  "vkmemcpy src dest count s =
     each (\<lambda>i s. bind_result (get_byte (src + U32 i) s) (\<lambda>v. set_byte (dest + U32 i) v s)) [0..<unat count] s"

definition invalidate :: "u32 \<Rightarrow> vm \<Rightarrow> vm" where
  "invalidate va s = s\<lparr>regs := paging_invalidate_page_cache va (regs s)\<rparr>"

definition vpmm_allocate_frame :: "pmm \<Rightarrow> vm \<Rightarrow> u32 \<times> vm" where
  "vpmm_allocate_frame p s = (let (a, m) = pmm_allocate_frame p (ram s) in (a, s\<lparr>ram := m\<rparr>))"

section \<open>Operations\<close>

text \<open>The four assignments that fill in a page or directory entry.\<close>

definition write_entry :: "u32 \<Rightarrow> nat \<Rightarrow> bool \<Rightarrow> bool \<Rightarrow> u32 \<Rightarrow> vm \<Rightarrow> vm result" where
  "write_entry table i is_rw is_user address s =
     bind_result (set_entry table i (set_present True) s) (\<lambda>s.
     bind_result (set_entry table i (set_rw is_rw) s) (\<lambda>s.
     bind_result (set_entry table i (set_user is_user) s) (\<lambda>s.
     set_entry table i (set_frame_addr (drop_bit 12 address)) s)))"

definition vmm_map_to_temp_window :: "u32 \<Rightarrow> u32 \<Rightarrow> vm \<Rightarrow> (u32 \<times> vm) result" where
  "vmm_map_to_temp_window kd table_physical_addr s =
     bind_result (get_entry kd KERNEL_PT1_DIR_IDX s) (\<lambda>d.
     let kernel_pt1 = page_base d in
     bind_result (set_entry kernel_pt1 VMM_TEMP_WINDOW_PAGE_IDX (set_present True) s) (\<lambda>s.
     bind_result (set_entry kernel_pt1 VMM_TEMP_WINDOW_PAGE_IDX (set_rw True) s) (\<lambda>s.
     bind_result (set_entry kernel_pt1 VMM_TEMP_WINDOW_PAGE_IDX
         (set_frame_addr (drop_bit 12 table_physical_addr)) s) (\<lambda>s.
     Inr (VMM_TEMP_WINDOW_VIRTUAL, invalidate VMM_TEMP_WINDOW_VIRTUAL s)))))"

definition vmm_unmap_temp_window :: "u32 \<Rightarrow> vm \<Rightarrow> vm result" where
  "vmm_unmap_temp_window kd s =
     bind_result (get_entry kd KERNEL_PT1_DIR_IDX s) (\<lambda>d.
     let kernel_pt1 = page_base d in
     bind_result (set_entry kernel_pt1 VMM_TEMP_WINDOW_PAGE_IDX (set_present False) s) (\<lambda>s.
     Inr (invalidate VMM_TEMP_WINDOW_VIRTUAL s)))"

fun find_page :: "u32 \<Rightarrow> nat list \<Rightarrow> vm \<Rightarrow> nat option result" where
  "find_page pt [] s = Inr None"
| "find_page pt (pt_idx # rest) s =
     bind_result (get_entry pt pt_idx s) (\<lambda>e.
     if \<not> pg_present e then Inr (Some pt_idx) else find_page pt rest s)"

fun find_slot :: "u32 \<Rightarrow> nat list \<Rightarrow> vm \<Rightarrow> u32 option result" where
  "find_slot space [] s = Inr None"
| "find_slot space (pd_idx # rest) s =
     (if pd_idx = 768 \<or> pd_idx = 769 then find_slot space rest s
      else
        bind_result (get_entry space pd_idx s) (\<lambda>d.
        if \<not> pg_present d then Inr (Some (push_bit 22 (U32 pd_idx)))
        else
          bind_result (find_page (page_base d) [0..<1024] s) (\<lambda>found.
          case found of
            Some pt_idx \<Rightarrow> Inr (Some (push_bit 22 (U32 pd_idx) OR push_bit 12 (U32 pt_idx)))
          | None \<Rightarrow> find_slot space rest s)))"

text \<open>The table of a directory entry that is not present: a fresh, zeroed frame.\<close>

definition vmm_new_table :: "u32 \<Rightarrow> u32 \<Rightarrow> nat \<Rightarrow> bool \<Rightarrow> bool \<Rightarrow> u32 \<Rightarrow> vm \<Rightarrow> vm result" where
  "vmm_new_table kd space directory_index is_rw is_user new_table_frame s =
     bind_result (write_entry space directory_index is_rw is_user new_table_frame s) (\<lambda>s.
     bind_result (vmm_map_to_temp_window kd new_table_frame s) (\<lambda>(temp_table, s).
     bind_result (vkmemset temp_table 0 4096 s) (\<lambda>s.
     vmm_unmap_temp_window kd s)))"

text \<open>Filling in the page entry through the window.\<close>

definition vmm_fill_page :: "u32 \<Rightarrow> u32 \<Rightarrow> u32 \<Rightarrow> u32 \<Rightarrow> bool \<Rightarrow> bool \<Rightarrow> vm \<Rightarrow> (u32 \<times> vm) result" where
  "vmm_fill_page kd space target_virtual physical_frame is_rw is_user s =
     (let directory_index = unat (drop_bit 22 target_virtual AND 0x3FF);
          page_idx = unat (drop_bit 12 target_virtual AND 0x3FF) in
     bind_result (get_entry space directory_index s) (\<lambda>d.
     bind_result (vmm_map_to_temp_window kd (page_base d) s) (\<lambda>(table, s).
     bind_result (write_entry table page_idx is_rw is_user physical_frame s) (\<lambda>s.
     bind_result (vmm_unmap_temp_window kd s) (\<lambda>s.
     Inr (target_virtual, invalidate target_virtual s))))))"

text \<open>\<open>vmm_get_new_page\<close> once the address is chosen.\<close>

definition vmm_get_page_at :: "pmm \<Rightarrow> u32 \<Rightarrow> u32 \<Rightarrow> bool \<Rightarrow> bool \<Rightarrow> u32 \<Rightarrow> vm \<Rightarrow> (u32 \<times> vm) result" where
  "vmm_get_page_at p kd space is_rw is_user target_virtual s =
     (let directory_index = unat (drop_bit 22 target_virtual AND 0x3FF);
          (physical_frame, s) = vpmm_allocate_frame p s in
     if physical_frame = 0 then Inr (0, s)
     else
       bind_result (get_entry space directory_index s) (\<lambda>d.
       if \<not> pg_present d then
         (let (new_table_frame, s) = vpmm_allocate_frame p s in
          if new_table_frame = 0 then Inr (0, s)
          else
            bind_result (vmm_new_table kd space directory_index is_rw is_user new_table_frame s) (\<lambda>s.
            vmm_fill_page kd space target_virtual physical_frame is_rw is_user s))
       else vmm_fill_page kd space target_virtual physical_frame is_rw is_user s))"

definition vmm_get_new_page :: "pmm \<Rightarrow> u32 \<Rightarrow> u32 \<Rightarrow> bool \<Rightarrow> bool \<Rightarrow> u32 \<Rightarrow> vm \<Rightarrow> (u32 \<times> vm) result" where
  "vmm_get_new_page p kd space is_rw is_user explicit_virtual s =
     (if explicit_virtual \<noteq> 0 then vmm_get_page_at p kd space is_rw is_user explicit_virtual s
      else
        bind_result (find_slot space [2..<1024] s) (\<lambda>slot.
        case slot of
          None \<Rightarrow> Inr (0, s)
        | Some target_virtual \<Rightarrow> vmm_get_page_at p kd space is_rw is_user target_virtual s))"

definition vmm_free_page :: "u32 \<Rightarrow> u32 \<Rightarrow> vm \<Rightarrow> vm result" where
  "vmm_free_page space vaddr s =
     (let directory_index = unat (drop_bit 22 vaddr AND 0x3FF);
          page_idx = unat (drop_bit 12 vaddr AND 0x3FF) in
     bind_result (get_entry space directory_index s) (\<lambda>d.
     if \<not> pg_present d then Inr s
     else
       bind_result (set_entry (page_base d) page_idx (set_present False) s) (\<lambda>s.
       bind_result (set_entry (page_base d) page_idx (set_frame_addr 0) s) (\<lambda>s.
       Inr (invalidate vaddr s)))))"

definition vmm_get_physical_address :: "u32 \<Rightarrow> u32 \<Rightarrow> u32 \<Rightarrow> vm \<Rightarrow> (u32 \<times> vm) result" where
  "vmm_get_physical_address kd space vaddr s =
     (let dir_idx = unat (drop_bit 22 vaddr AND 0x3FF);
          page_idx = unat (drop_bit 12 vaddr AND 0x3FF) in
     bind_result (get_entry space dir_idx s) (\<lambda>d.
     if \<not> pg_present d then Inr (0, s)
     else
       bind_result (get_entry kd 1 s) (\<lambda>k.
       let kernel_pt1 = page_base k in
       bind_result (set_entry kernel_pt1 1023 (set_present True) s) (\<lambda>s.
       bind_result (set_entry kernel_pt1 1023 (set_rw False) s) (\<lambda>s.
       bind_result (set_entry kernel_pt1 1023 (set_frame_addr (drop_bit 12 (page_base d))) s) (\<lambda>s.
       let s = invalidate 0x007FF000 s in
       bind_result (get_entry 0x007FF000 page_idx s) (\<lambda>e.
       let phys_frame = page_base e in
       bind_result (set_entry kernel_pt1 1023 (set_present False) s) (\<lambda>s.
       Inr (phys_frame, invalidate 0x007FF000 s)))))))))"

definition vmm_map_frame :: "pmm \<Rightarrow> u32 \<Rightarrow> u32 \<Rightarrow> u32 \<Rightarrow> u32 \<Rightarrow> bool \<Rightarrow> bool \<Rightarrow> vm \<Rightarrow> (bool \<times> vm) result" where
  "vmm_map_frame p kd target_dir v_addr physical_frame is_writeable is_user_process s =
     (let pd_idx = unat (drop_bit 22 v_addr);
          pt_idx = unat (drop_bit 12 v_addr AND 0x3FF) in
     bind_result (get_entry target_dir pd_idx s) (\<lambda>d.
     if pg_present d then
       bind_result (write_entry (page_base d) pt_idx is_writeable is_user_process physical_frame s) (\<lambda>s.
       Inr (True, invalidate v_addr s))
     else
       bind_result (vmm_get_new_page p kd kd True False 0 s) (\<lambda>(local_pt_window, s).
       if local_pt_window = 0 then Inr (False, s)
       else
         bind_result (vkmemset local_pt_window 0 4096 s) (\<lambda>s.
         bind_result (vmm_get_physical_address kd kd local_pt_window s) (\<lambda>(pt_phys, s).
         bind_result (write_entry target_dir pd_idx True is_user_process pt_phys s) (\<lambda>s.
         bind_result (write_entry local_pt_window pt_idx is_writeable is_user_process physical_frame s) (\<lambda>s.
         Inr (True, invalidate v_addr s))))))))"

text \<open>One page of the program: a page mapped in the kernel, filled, mapped in the new space.\<close>

definition vmm_copy_page ::
    "pmm \<Rightarrow> u32 \<Rightarrow> u32 \<Rightarrow> u32 \<Rightarrow> u32 \<Rightarrow> bool \<Rightarrow> u32 \<Rightarrow> u32 \<Rightarrow> vm \<Rightarrow> (bool \<times> vm) result" where
  "vmm_copy_page p kd new_address_space entry_point prog_size is_user_process num_pages pg s =
     bind_result (vmm_get_new_page p kd kd True False 0 s) (\<lambda>(local_user_code, s).
     if local_user_code = 0 then Inr (False, s)
     else
       let src_chunk = entry_point + pg * PAGE_SIZE;
           last = (pg = num_pages - 1);
           bytes_to_copy = (if last then prog_size - pg * PAGE_SIZE else PAGE_SIZE) in
       bind_result (if last then vkmemset local_user_code 0 PAGE_SIZE s else Inr s) (\<lambda>s.
       bind_result (vkmemcpy src_chunk local_user_code bytes_to_copy s) (\<lambda>s.
       bind_result (vmm_get_physical_address kd kd local_user_code s) (\<lambda>(user_code_physical_frame, s).
       bind_result (vmm_map_frame p kd new_address_space (0xC0000000 + pg * PAGE_SIZE)
           user_code_physical_frame True is_user_process s) (\<lambda>(_, s).
       bind_result (vmm_free_page kd local_user_code s) (\<lambda>s.
       Inr (True, s)))))))"

fun vmm_copy_pages ::
    "pmm \<Rightarrow> u32 \<Rightarrow> u32 \<Rightarrow> u32 \<Rightarrow> u32 \<Rightarrow> bool \<Rightarrow> u32 \<Rightarrow> nat list \<Rightarrow> vm \<Rightarrow> (bool \<times> vm) result" where
  "vmm_copy_pages p kd space entry_point prog_size is_user num_pages [] s = Inr (True, s)"
| "vmm_copy_pages p kd space entry_point prog_size is_user num_pages (pg # rest) s =
     bind_result (vmm_copy_page p kd space entry_point prog_size is_user num_pages (U32 pg) s) (\<lambda>(done, s).
     if done then vmm_copy_pages p kd space entry_point prog_size is_user num_pages rest s
     else Inr (False, s))"

definition copy_entry :: "u32 \<Rightarrow> u32 \<Rightarrow> nat \<Rightarrow> vm \<Rightarrow> vm result" where
  "copy_entry from to i s = bind_result (get_entry from i s) (\<lambda>e. set_entry to i (\<lambda>_. e) s)"

definition vmm_create_virtual_address_space ::
    "pmm \<Rightarrow> u32 \<Rightarrow> u32 \<Rightarrow> u32 \<Rightarrow> bool \<Rightarrow> vm \<Rightarrow> (u32 \<times> vm) result" where
  "vmm_create_virtual_address_space p kd entry_point prog_size is_user_process s =
     bind_result (vmm_get_new_page p kd kd True False 0 s) (\<lambda>(new_address_space, s).
     if new_address_space = 0 then Inr (0, s)
     else
       bind_result (vkmemset new_address_space 0 4096 s) (\<lambda>s.
       bind_result (copy_entry kd new_address_space 0 s) (\<lambda>s.
       bind_result (copy_entry kd new_address_space 1 s) (\<lambda>s.
       let num_pages = (prog_size + PAGE_SIZE - 1) div PAGE_SIZE in
       bind_result (vmm_copy_pages p kd new_address_space entry_point prog_size is_user_process num_pages
           [0..<unat num_pages] s) (\<lambda>(done, s).
       if done then Inr (new_address_space, s) else Inr (0, s))))))"

end
