(* ===== verification/Vmm_Correct.thy ===== *)
theory Vmm_Correct
  imports Vmm
begin

text \<open>
  Correctness of the virtual memory manager.  The kernel's address space is well formed when the
  tables of its present directory entries are distinct frames below the temporary window, and
  when it maps the addresses below the window identically.  Under that invariant every access of
  the manager resolves, and its operations are updates of one entry of the two-level table.
\<close>

declare One_nat_def [simp del] upt_rec_numeral [simp del]

section \<open>Tables and translation\<close>

abbreviation table :: "mem \<Rightarrow> u32 \<Rightarrow> nat \<Rightarrow> u32" where
  "table m kd i \<equiv> page_base (entry m kd i)"

definition low_addr :: "u32 \<Rightarrow> bool" where
  "low_addr a \<longleftrightarrow> 0x1000 \<le> unat a \<and> unat a < 0x7FF000"

definition ident :: "u32 \<Rightarrow> mem \<Rightarrow> bool" where
  "ident kd m \<longleftrightarrow> page_aligned kd \<and> low_addr kd \<and> table m kd 0 \<noteq> kd \<and> table m kd 1 \<noteq> kd \<and>
     table m kd 0 \<noteq> table m kd 1 \<and> pg_present (entry m kd 1) \<and> low_addr (table m kd 1) \<and>
     (\<forall>va. low_addr va \<longrightarrow> translate kd m va = Some va)"

lemma walk_eqI:
  assumes "entry m' kd (dir_index va) = entry m kd (dir_index va)"
    and "pg_present (entry m kd (dir_index va)) \<Longrightarrow>
      entry m' (table m kd (dir_index va)) (page_index va) = entry m (table m kd (dir_index va)) (page_index va)"
  shows "walk kd m' va = walk kd m va"
  using assms by (simp add: walk_def Let_def)

lemma translate_eqI:
  assumes "entry m' kd (dir_index va) = entry m kd (dir_index va)"
    and "pg_present (entry m kd (dir_index va)) \<Longrightarrow>
      entry m' (table m kd (dir_index va)) (page_index va) = entry m (table m kd (dir_index va)) (page_index va)"
  shows "translate kd m' va = translate kd m va"
  using walk_eqI [OF assms] by (simp add: translate_def)

lemma low_index:
  "low_addr va \<Longrightarrow> dir_index va < 2 \<and> (dir_index va = 1 \<longrightarrow> page_index va \<noteq> 1023)"
  using index_eq [of va] unfolding low_addr_def dir_index_div by auto

lemma low_page_offset:
  "page_aligned t \<Longrightarrow> low_addr t \<Longrightarrow> i < 4096 \<Longrightarrow> low_addr (t + U32 i)"
proof -
  assume t: "page_aligned t" and l: "low_addr t" and i: "i < 4096"
  obtain k where k: "unat t = 4096 * k" by (rule page_number [OF t])
  have "1 \<le> k" "k \<le> 2046" using l k by (auto simp: low_addr_def)
  then show ?thesis
    using i k unfolding low_addr_def unat_offset [OF page_aligned_fits [OF t] i] by simp
qed

lemma ident_eqI:
  assumes "ident kd m"
    and "entry m' kd 0 = entry m kd 0" "entry m' kd 1 = entry m kd 1"
    and "\<And>j. j < 1024 \<Longrightarrow> entry m' (table m kd 0) j = entry m (table m kd 0) j"
    and "\<And>j. j < 1023 \<Longrightarrow> entry m' (table m kd 1) j = entry m (table m kd 1) j"
  shows "ident kd m'"
proof -
  have "translate kd m' va = Some va" if "low_addr va" for va
  proof -
    from low_index [OF that] have d: "dir_index va = 0 \<or> dir_index va = 1 \<and> page_index va < 1023"
      using page_index_bound [of va] by linarith
    then have "translate kd m' va = translate kd m va"
      by (intro translate_eqI) (auto simp: assms(2-5))
    with assms(1) that show ?thesis by (simp add: ident_def)
  qed
  with assms(1-3) show ?thesis by (simp add: ident_def)
qed

lemma ident_aligned [simp]: "ident kd m \<Longrightarrow> page_aligned kd"
  by (simp add: ident_def)

lemma ident_modify_dir:
  assumes "ident kd m" "2 \<le> i" "i < 1024"
  shows "ident kd (modify_entry kd i f m)"
  using assms by (intro ident_eqI [OF assms(1)]) (auto simp: entry_modify ident_def)

lemma ident_modify_table:
  assumes "ident kd m" "page_aligned t" "j < 1024" "t \<noteq> kd" "t \<noteq> table m kd 0"
    and "t = table m kd 1 \<Longrightarrow> j = 1023"
  shows "ident kd (modify_entry t j f m)"
  using assms by (intro ident_eqI [OF assms(1)]) (auto simp: entry_modify ident_def)

lemma ident_same:
  assumes "ident kd m" "\<And>x. x \<in> bytes kd 4096 \<union> bytes (table m kd 0) 4096 \<union> bytes (table m kd 1) 4096 \<Longrightarrow> m' x = m x"
  shows "ident kd m'"
  using assms by (intro ident_eqI [OF assms(1)] entry_cong) auto

section \<open>Accesses below the window\<close>

definition running :: "u32 \<Rightarrow> vm \<Rightarrow> bool" where
  "running kd s \<longleftrightarrow> cr3 (regs s) = kd \<and> ident kd (ram s)"

lemma resolve_low: "running kd s \<Longrightarrow> low_addr va \<Longrightarrow> resolve s va = Inr va"
  by (simp add: running_def ident_def resolve_def)

lemma entry_low: "page_aligned t \<Longrightarrow> low_addr t \<Longrightarrow> i < 1024 \<Longrightarrow> low_addr (t + 4 * U32 i)"
  using low_page_offset [of t "4 * i"] by simp

lemma get_entry_low:
  "running kd s \<Longrightarrow> page_aligned t \<Longrightarrow> low_addr t \<Longrightarrow> i < 1024 \<Longrightarrow>
    get_entry t i s = Inr (entry (ram s) t i)"
  by (simp add: get_entry_def resolve_low entry_low entry_def)

lemma set_entry_low:
  "running kd s \<Longrightarrow> page_aligned t \<Longrightarrow> low_addr t \<Longrightarrow> i < 1024 \<Longrightarrow>
    set_entry t i f s = Inr (s\<lparr>ram := modify_entry t i f (ram s)\<rparr>)"
  by (simp add: set_entry_def resolve_low entry_low entry_def modify_entry_def)

lemma running_kd [simp]: "running kd s \<Longrightarrow> page_aligned kd" "running kd s \<Longrightarrow> low_addr kd"
  by (simp_all add: running_def ident_def)

lemma invalidate_simps [simp]:
  "ram (invalidate va s) = ram s" "cr3 (regs (invalidate va s)) = cr3 (regs s)"
  "invalidated (regs (invalidate va s)) = invalidated (regs s) @ [va]"
  by (simp_all add: invalidate_def paging_invalidate_page_cache_def)

lemma running_ram: "running kd s \<Longrightarrow> ident kd m \<Longrightarrow> running kd (s\<lparr>ram := m\<rparr>)"
  by (simp add: running_def)

lemma running_invalidate [simp]: "running kd (invalidate va s) = running kd s"
  by (simp add: running_def)

section \<open>The temporary window\<close>

definition window_entry :: "u32 \<Rightarrow> u32 \<Rightarrow> u32" where
  "window_entry t e = set_frame_addr (drop_bit 12 t) (set_rw True (set_present True e))"

lemma pt1_low:
  assumes "running kd s"
  shows "low_addr (table (ram s) kd 1)" "pg_present (entry (ram s) kd 1)"
    "table (ram s) kd 1 \<noteq> kd" "table (ram s) kd 0 \<noteq> table (ram s) kd 1"
  using assms unfolding running_def ident_def by blast+

lemma running_window:
  "running kd s \<Longrightarrow> running kd (s\<lparr>ram := modify_entry (table (ram s) kd 1) 1023 f (ram s)\<rparr>)"
  using pt1_low [of kd s] by (intro running_ram ident_modify_table) (auto simp: running_def)

lemma table1_window:
  "running kd s \<Longrightarrow> j < 1024 \<Longrightarrow>
    entry (modify_entry (table (ram s) kd 1) 1023 f (ram s)) kd j = entry (ram s) kd j"
  using pt1_low [of kd s] by (simp add: entry_modify)

lemma set_window:
  "running kd s \<Longrightarrow> set_entry (table (ram s) kd 1) 1023 f s =
    Inr (s\<lparr>ram := modify_entry (table (ram s) kd 1) 1023 f (ram s)\<rparr>)"
  using pt1_low [of kd s] by (simp add: set_entry_low)

lemma window_steps:
  assumes "running kd s"
  shows "set_entry (table (ram s) kd 1) 1023 g (s\<lparr>ram := modify_entry (table (ram s) kd 1) 1023 f (ram s)\<rparr>) =
    Inr (s\<lparr>ram := modify_entry (table (ram s) kd 1) 1023 (\<lambda>e. g (f e)) (ram s)\<rparr>)"
  using set_window [OF running_window [OF assms], of f g] table1_window [OF assms, of 1 f]
  by (simp add: modify_twice)

lemma map_window:
  assumes "running kd s"
  shows "vmm_map_to_temp_window kd t s = Inr (0x7FF000,
    invalidate 0x7FF000 (s\<lparr>ram := modify_entry (table (ram s) kd 1) 1023 (window_entry t) (ram s)\<rparr>))"
  using assms window_steps [OF assms]
  by (simp add: vmm_map_to_temp_window_def KERNEL_PT1_DIR_IDX_def VMM_TEMP_WINDOW_PAGE_IDX_def
      VMM_TEMP_WINDOW_VIRTUAL_def get_entry_low set_window window_entry_def [abs_def] Let_def)

lemma unmap_window:
  assumes "running kd s"
  shows "vmm_unmap_temp_window kd s = Inr (invalidate 0x7FF000
    (s\<lparr>ram := modify_entry (table (ram s) kd 1) 1023 (set_present False) (ram s)\<rparr>))"
  using assms
  by (simp add: vmm_unmap_temp_window_def KERNEL_PT1_DIR_IDX_def VMM_TEMP_WINDOW_PAGE_IDX_def
      VMM_TEMP_WINDOW_VIRTUAL_def get_entry_low set_window Let_def)

text \<open>While the window shows frame \<open>t\<close>, accesses to it go to that frame.\<close>

lemma window_index: "i < 4096 \<Longrightarrow> dir_index (0x7FF000 + U32 i) = 1 \<and> page_index (0x7FF000 + U32 i) = 1023 \<and>
    (0x7FF000 + U32 i) AND 0xFFF = (U32 i :: u32)"
proof -
  assume i: "i < 4096"
  then have u: "unat (0x7FF000 + U32 i) = 0x7FF000 + i"
    using unat_offset [of "0x7FF000" 4096 i] by (simp add: fits_def)
  have m: "(8384512 + i) mod 4096 = i" using mod_mult_self3 [of 2047 4096 i] i by simp
  have d: "(8384512 + i) div 4194304 = 1" "(8384512 + i) div 4096 = 2047"
    using i by (auto intro!: div_nat_eqI)
  have "unat ((0x7FF000 + U32 i) AND 0xFFF) = i" unfolding unat_offset12 u by (simp add: m)
  then have "(0x7FF000 + U32 i) AND 0xFFF = U32 i" by (metis of_nat_unat_u32)
  then show ?thesis unfolding dir_index_div page_index_div u by (simp add: d)
qed

lemma translate_window:
  assumes "pg_present (entry m kd 1)" "pg_present (entry m (table m kd 1) 1023)"
    "page_base (entry m (table m kd 1) 1023) = t" "i < 4096"
  shows "translate kd m (0x7FF000 + U32 i) = Some (t + U32 i)"
  using assms window_index [OF assms(4)] by (simp add: translate_def walk_def Let_def)

lemma invalidate_ram [simp]:
  "(invalidate va s)\<lparr>ram := m\<rparr> = invalidate va (s\<lparr>ram := m\<rparr>)"
  by (simp add: invalidate_def)

definition shows_frame :: "u32 \<Rightarrow> u32 \<Rightarrow> vm \<Rightarrow> bool" where
  "shows_frame kd t s \<longleftrightarrow> running kd s \<and> page_aligned t \<and> t \<noteq> kd \<and> t \<noteq> table (ram s) kd 0 \<and>
     t \<noteq> table (ram s) kd 1 \<and> pg_present (entry (ram s) (table (ram s) kd 1) 1023) \<and>
     page_base (entry (ram s) (table (ram s) kd 1) 1023) = t"

lemma shows_running: "shows_frame kd t s \<Longrightarrow> running kd s"
  by (simp add: shows_frame_def)

lemma window_entry_laws [simp]:
  "pg_present (window_entry t e)" "page_aligned t \<Longrightarrow> page_base (window_entry t e) = t"
  by (simp_all add: window_entry_def)

lemma shows_window:
  assumes "running kd s" "page_aligned t" "t \<noteq> kd" "t \<noteq> table (ram s) kd 0" "t \<noteq> table (ram s) kd 1"
    and "\<And>e. pg_present (g e)" "\<And>e. page_base (g e) = t"
  shows "shows_frame kd t (invalidate va (s\<lparr>ram := modify_entry (table (ram s) kd 1) 1023 g (ram s)\<rparr>))"
  using assms running_window [OF assms(1), of g] table1_window [OF assms(1)]
  by (simp add: shows_frame_def entry_modify)

lemma shows_off:
  assumes "shows_frame kd t s" "\<And>x. x \<notin> bytes t 4096 \<Longrightarrow> m' x = ram s x"
  shows "shows_frame kd t (s\<lparr>ram := m'\<rparr>)"
proof -
  have off: "entry m' a i = entry (ram s) a i" if "page_aligned a" "a \<noteq> t" "i < 1024" for a i
    using that assms pages_disjoint [of a t] by (intro entry_cong) (auto simp: shows_frame_def)
  note f = assms(1) [unfolded shows_frame_def running_def]
  have kd: "entry m' kd i = entry (ram s) kd i" if "i < 1024" for i
    using f that by (intro off) auto
  have "ident kd m'"
  proof (rule ident_eqI [of kd "ram s"])
    show "ident kd (ram s)" using f by blast
    show "entry m' kd 0 = entry (ram s) kd 0" "entry m' kd 1 = entry (ram s) kd 1" by (simp_all add: kd)
    show "entry m' (table (ram s) kd 0) j = entry (ram s) (table (ram s) kd 0) j" if "j < 1024" for j
      using f that by (intro off) auto
    show "entry m' (table (ram s) kd 1) j = entry (ram s) (table (ram s) kd 1) j" if "j < 1023" for j
      using f that by (intro off) auto
  qed
  moreover have "entry m' (table (ram s) kd 1) 1023 = entry (ram s) (table (ram s) kd 1) 1023"
    using f by (intro off) auto
  ultimately show ?thesis using f by (simp add: shows_frame_def running_def kd)
qed

lemma translate_shown:
  "shows_frame kd t s \<Longrightarrow> i < 4096 \<Longrightarrow> translate kd (ram s) (0x7FF000 + U32 i) = Some (t + U32 i)"
  using pt1_low [of kd s] by (auto simp: shows_frame_def intro!: translate_window)

lemma set_entry_shown:
  assumes "shows_frame kd t s" "j < 1024"
  shows "set_entry 0x7FF000 j f s = Inr (s\<lparr>ram := modify_entry t j f (ram s)\<rparr>)"
proof -
  have "cr3 (regs s) = kd" using assms(1) by (simp add: shows_frame_def running_def)
  then show ?thesis
    using translate_shown [OF assms(1), of "4 * j"] assms(2)
    by (simp add: set_entry_def resolve_def modify_entry_def entry_def)
qed

lemma get_entry_shown:
  assumes "shows_frame kd t s" "j < 1024"
  shows "get_entry 0x7FF000 j s = Inr (entry (ram s) t j)"
proof -
  have "cr3 (regs s) = kd" using assms(1) by (simp add: shows_frame_def running_def)
  then show ?thesis
    using translate_shown [OF assms(1), of "4 * j"] assms(2)
    by (simp add: get_entry_def resolve_def entry_def)
qed

lemma shows_modify:
  "shows_frame kd t s \<Longrightarrow> j < 1024 \<Longrightarrow> shows_frame kd t (s\<lparr>ram := modify_entry t j f (ram s)\<rparr>)"
  by (rule shows_off) (auto simp: shows_frame_def intro!: modify_entry_frame)

lemma vkmemset_page:
  assumes "page_aligned t"
    and "\<And>m' i. (\<And>x. x \<notin> bytes t 4096 \<Longrightarrow> m' x = ram s x) \<Longrightarrow> i < 4096 \<Longrightarrow>
      translate (cr3 (regs s)) m' (dest + U32 i) = Some (t + U32 i)"
  shows "vkmemset dest v 4096 s = Inr (s\<lparr>ram := snd (kmemset t v 4096 (ram s))\<rparr>)"
proof -
  have "each (\<lambda>i. set_byte (dest + U32 i) v) [0..<n] s =
      Inr (s\<lparr>ram := fold (\<lambda>i. store8 (t + U32 i) v) [0..<n] (ram s)\<rparr>)" if "n \<le> 4096" for n
    using that
  proof (induction n)
    case (Suc n)
    let ?m = "fold (\<lambda>i. store8 (t + U32 i) v) [0..<n] (ram s)"
    have "?m x = ram s x" if "x \<notin> bytes t 4096" for x
      using that Suc.prems offset_outside [OF page_aligned_fits [OF assms(1)], of x]
      by (subst fold_store8_nth) auto
    with assms(2) [of ?m n] Suc show ?case
      by (simp add: each_def set_byte_def resolve_def)
  qed (simp add: each_def)
  from this [of 4096] show ?thesis by (simp add: vkmemset_def kmemset_def)
qed

lemma vkmemset_shown:
  assumes "shows_frame kd t s"
  shows "vkmemset 0x7FF000 v 4096 s = Inr (s\<lparr>ram := snd (kmemset t v 4096 (ram s))\<rparr>)"
proof (rule vkmemset_page)
  show "page_aligned t" using assms by (simp add: shows_frame_def)
  have "cr3 (regs s) = kd" using assms by (simp add: shows_frame_def running_def)
  then show "translate (cr3 (regs s)) m' (0x7FF000 + U32 i) = Some (t + U32 i)"
    if "\<And>x. x \<notin> bytes t 4096 \<Longrightarrow> m' x = ram s x" "i < 4096" for m' i
    using translate_shown [OF shows_off [OF assms that(1)] that(2)] by simp
qed

section \<open>What the operations write\<close>

definition page_word :: "bool \<Rightarrow> bool \<Rightarrow> u32 \<Rightarrow> u32 \<Rightarrow> u32" where
  "page_word is_rw is_user a e = set_frame_addr (drop_bit 12 a) (set_user is_user (set_rw is_rw (set_present True e)))"

lemma page_word_laws [simp]:
  "pg_present (page_word w us a e)" "pg_rw (page_word w us a e) = w" "pg_user (page_word w us a e) = us"
  "page_aligned a \<Longrightarrow> page_base (page_word w us a e) = a"
  by (simp_all add: page_word_def)

text \<open>Four assignments to the same entry, when each of them reaches it.\<close>

lemma write_entry_reaches:
  assumes "\<And>f g. set_entry va i g (s\<lparr>ram := modify_entry t i f (ram s)\<rparr>) =
      Inr (s\<lparr>ram := modify_entry t i g (modify_entry t i f (ram s))\<rparr>)"
    and "\<And>g. set_entry va i g s = Inr (s\<lparr>ram := modify_entry t i g (ram s)\<rparr>)"
  shows "write_entry va i w us a s = Inr (s\<lparr>ram := modify_entry t i (page_word w us a) (ram s)\<rparr>)"
  by (simp add: write_entry_def assms modify_twice page_word_def [abs_def])

lemma write_dir:
  assumes "running kd s" "2 \<le> i" "i < 1024"
  shows "write_entry kd i w us a s = Inr (s\<lparr>ram := modify_entry kd i (page_word w us a) (ram s)\<rparr>)"
proof (rule write_entry_reaches)
  note k = running_kd [OF assms(1)]
  have r: "running kd (s\<lparr>ram := modify_entry kd i f (ram s)\<rparr>)" for f
    using assms by (intro running_ram ident_modify_dir) (simp_all add: running_def)
  show "set_entry kd i g (s\<lparr>ram := modify_entry kd i f (ram s)\<rparr>) =
      Inr (s\<lparr>ram := modify_entry kd i g (modify_entry kd i f (ram s))\<rparr>)" for f g
    using set_entry_low [OF r k assms(3)] by simp
  show "set_entry kd i g s = Inr (s\<lparr>ram := modify_entry kd i g (ram s)\<rparr>)" for g
    by (rule set_entry_low [OF assms(1) k assms(3)])
qed

lemma write_shown:
  assumes "shows_frame kd t s" "j < 1024"
  shows "write_entry 0x7FF000 j w us a s = Inr (s\<lparr>ram := modify_entry t j (page_word w us a) (ram s)\<rparr>)"
  using set_entry_shown [OF assms] set_entry_shown [OF shows_modify [OF assms] assms(2)]
  by (intro write_entry_reaches) simp_all

text \<open>Frame \<open>t\<close> is neither the directory nor one of the two tables of the identity mapping.\<close>

definition other_frame :: "u32 \<Rightarrow> mem \<Rightarrow> u32 \<Rightarrow> bool" where
  "other_frame kd m t \<longleftrightarrow> page_aligned t \<and> t \<noteq> kd \<and> t \<noteq> table m kd 0 \<and> t \<noteq> table m kd 1"

lemma other_shows:
  "running kd s \<Longrightarrow> other_frame kd (ram s) t \<Longrightarrow>
    shows_frame kd t (invalidate va (s\<lparr>ram := modify_entry (table (ram s) kd 1) 1023 (window_entry t) (ram s)\<rparr>))"
  by (intro shows_window) (simp_all add: other_frame_def)

text \<open>The physical effect of opening the window on a frame, applying \<open>f\<close> and closing it.\<close>

definition through_window :: "u32 \<Rightarrow> u32 \<Rightarrow> (mem \<Rightarrow> mem) \<Rightarrow> mem \<Rightarrow> mem" where
  "through_window kd t f m =
     (let pt1 = table m kd 1
      in modify_entry pt1 1023 (set_present False) (f (modify_entry pt1 1023 (window_entry t) m)))"

lemma unmap_shown:
  assumes "shows_frame kd t (s\<lparr>ram := m\<rparr>)" "entry m kd 1 = entry m0 kd 1"
  shows "vmm_unmap_temp_window kd (s\<lparr>ram := m\<rparr>) = Inr (invalidate 0x7FF000
    (s\<lparr>ram := modify_entry (table m0 kd 1) 1023 (set_present False) m\<rparr>))"
  using unmap_window [OF shows_running [OF assms(1)]] assms(2) by simp

lemma new_table_run:
  assumes "running kd s" "2 \<le> i" "i < 1024" "other_frame kd (ram s) t"
  shows "vmm_new_table kd kd i w us t s =
    Inr (invalidate 0x7FF000 (invalidate 0x7FF000 (s\<lparr>ram :=
      through_window kd t (\<lambda>m. snd (kmemset t 0 4096 m)) (modify_entry kd i (page_word w us t) (ram s))\<rparr>)))"
proof -
  let ?m1 = "modify_entry kd i (page_word w us t) (ram s)"
  let ?s1 = "s\<lparr>ram := ?m1\<rparr>"
  have kd: "page_aligned kd" using assms(1) by simp
  have r1: "running kd ?s1"
    using assms by (intro running_ram ident_modify_dir) (simp_all add: running_def)
  have e: "entry ?m1 kd 0 = entry (ram s) kd 0" "entry ?m1 kd 1 = entry (ram s) kd 1"
    using kd assms(2,3) by (simp_all add: entry_modify)
  have o: "other_frame kd (ram ?s1) t" using assms(4) by (simp add: other_frame_def e)
  let ?s2 = "invalidate 0x7FF000 (?s1\<lparr>ram := modify_entry (table (ram ?s1) kd 1) 1023 (window_entry t) (ram ?s1)\<rparr>)"
  have sh: "shows_frame kd t ?s2" by (rule other_shows [OF r1 o])
  have t: "page_aligned t" "t \<noteq> kd" using assms(4) by (simp_all add: other_frame_def)
  have sh3: "shows_frame kd t (?s2\<lparr>ram := snd (kmemset t 0 4096 (ram ?s2))\<rparr>)"
    by (rule shows_off [OF sh]) (simp add: kmemset_page t)
  have "table (ram s) kd 1 \<noteq> kd" using pt1_low [OF assms(1)] by blast
  then have e3: "entry (snd (kmemset t 0 4096 (ram ?s2))) kd 1 = entry ?m1 kd 1"
    using t kd by (simp add: entry_kmemset entry_modify e)
  show ?thesis
    using write_dir [OF assms(1-3)] map_window [OF r1] vkmemset_shown [OF sh] unmap_shown [OF sh3 e3]
    by (simp add: vmm_new_table_def through_window_def Let_def)
qed

lemma index_and: "unat (drop_bit 22 va AND 0x3FF :: u32) = dir_index va"
proof -
  have "drop_bit 22 va AND 0x3FF = drop_bit 22 va mod (1024 :: u32)"
    using take_bit_eq_mod [of 10 "drop_bit 22 va"] by (simp add: take_bit_eq_mask mask_eq_exp_minus_1)
  then show ?thesis using dir_index_bound [of va] by (simp add: dir_index_def unat_mod)
qed

lemma fill_page_run:
  assumes "running kd s" "other_frame kd (ram s) t" "t = table (ram s) kd (dir_index va)"
  shows "vmm_fill_page kd kd va a w us s =
    Inr (va, invalidate va (invalidate 0x7FF000 (invalidate 0x7FF000 (s\<lparr>ram :=
      through_window kd t (modify_entry t (page_index va) (page_word w us a)) (ram s)\<rparr>))))"
proof -
  let ?s2 = "invalidate 0x7FF000 (s\<lparr>ram := modify_entry (table (ram s) kd 1) 1023 (window_entry t) (ram s)\<rparr>)"
  have sh: "shows_frame kd t ?s2" by (rule other_shows [OF assms(1,2)])
  note sh3 = shows_modify [OF sh page_index_bound [of va], of "page_word w us a"]
  have kd: "page_aligned kd" "low_addr kd" using assms(1) by simp_all
  have "table (ram s) kd 1 \<noteq> kd" "page_aligned t" "t \<noteq> kd"
    using pt1_low [OF assms(1)] assms(2) by (simp_all add: other_frame_def)
  then have e3: "entry (modify_entry t (page_index va) (page_word w us a) (ram ?s2)) kd 1 = entry (ram s) kd 1"
    using kd by (simp add: entry_modify)
  show ?thesis
    using map_window [OF assms(1), of t] write_shown [OF sh page_index_bound [of va], of w us a]
      unmap_shown [OF sh3 e3] get_entry_low [OF assms(1) kd dir_index_bound [of va]] assms(3)
    by (simp add: vmm_fill_page_def index_and through_window_def Let_def flip: page_index_def)
qed

section \<open>The invariant\<close>

definition is_table :: "u32 \<Rightarrow> mem \<Rightarrow> u32 \<Rightarrow> bool" where
  "is_table kd m t \<longleftrightarrow> t = kd \<or> (\<exists>i < 1024. pg_present (entry m kd i) \<and> t = table m kd i)"

lemma is_tableI [simp, intro]:
  "is_table kd m kd" "i < 1024 \<Longrightarrow> pg_present (entry m kd i) \<Longrightarrow> is_table kd m (table m kd i)"
  by (auto simp: is_table_def)

definition tables_ok :: "u32 \<Rightarrow> mem \<Rightarrow> bool" where
  "tables_ok kd m \<longleftrightarrow>
     (\<forall>i < 1024. pg_present (entry m kd i) \<longrightarrow> table m kd i \<noteq> kd \<and> low_addr (table m kd i)) \<and>
     (\<forall>i < 1024. \<forall>j < 1024. pg_present (entry m kd i) \<longrightarrow> pg_present (entry m kd j) \<longrightarrow>
        table m kd i = table m kd j \<longrightarrow> i = j)"

definition bitmap_apart :: "pmm \<Rightarrow> u32 \<Rightarrow> bool" where
  "bitmap_apart p t \<longleftrightarrow> (\<forall>x \<in> bytes t 4096. \<not> in_storage (frame_bitmap p) x)"

definition bitmap_reserved :: "pmm \<Rightarrow> mem \<Rightarrow> bool" where
  "bitmap_reserved p m \<longleftrightarrow> (\<forall>x. in_storage (frame_bitmap p) x \<longrightarrow> frame_used p (x div 4096) m)"

text \<open>
  The directory and its tables are frames in use, apart from the bitmap; the frames of the
  bitmap are in use as well, so that no granted frame contains a part of it.
\<close>

definition vmm_ok :: "pmm \<Rightarrow> u32 \<Rightarrow> vm \<Rightarrow> bool" where
  "vmm_ok p kd s \<longleftrightarrow> running kd s \<and> tables_ok kd (ram s) \<and> pmm_ok p \<and> bitmap_reserved p (ram s) \<and>
     frame_used p 0 (ram s) \<and>
     (\<forall>t. is_table kd (ram s) t \<longrightarrow> frame_used p (t div 4096) (ram s) \<and> bitmap_apart p t)"

lemma frame_used_cong:
  assumes "pmm_ok p" "\<And>x. in_storage (frame_bitmap p) x \<Longrightarrow> m' x = m x"
  shows "frame_used p f m' = frame_used p f m"
proof (cases "f < total_bits (frame_bitmap p)")
  case True
  let ?b = "frame_bitmap p"
  have ok: "bitmap_ok ?b" using assms(1) by (simp add: pmm_ok_def)
  have "bytes (word_addr ?b f) 4 \<subseteq> {x. in_storage ?b x}"
    using word_addr_storage [OF ok bit_word_index [OF True]] by (auto simp: bytes_def word_addr_index)
  then have "load32 m' (word_addr ?b f) = load32 m (word_addr ?b f)"
    using assms(2) ok by (intro load32_same_on [where S = "{x. in_storage ?b x}"]) (auto simp: same_on_def)
  then show ?thesis by (simp add: frame_used_def bitmap_test_bit)
qed (simp add: frame_used_def bitmap_test_bit)

lemma entry_through_modify:
  assumes "page_aligned t" "t \<noteq> table m kd 1" "j < 1024" "page_aligned u" "k < 1024"
  shows "entry (through_window kd t (modify_entry t j g) m) u k =
    (if u = table m kd 1 \<and> k = 1023 then set_present False (window_entry t (entry m u k))
     else if u = t \<and> k = j then g (entry m u k) else entry m u k)"
  using assms by (auto simp: through_window_def Let_def entry_modify)

lemma entry_through_clear:
  assumes "page_aligned t" "t \<noteq> table m kd 1" "page_aligned u" "k < 1024"
  shows "entry (through_window kd t (\<lambda>m. snd (kmemset t 0 4096 m)) m) u k =
    (if u = table m kd 1 \<and> k = 1023 then set_present False (window_entry t (entry m u k))
     else if u = t then 0 else entry m u k)"
  using assms by (auto simp: through_window_def Let_def entry_modify entry_kmemset)

lemma through_modify_frame:
  assumes "page_aligned t" "j < 1024" "x \<notin> bytes t 4096" "x \<notin> bytes (table m kd 1) 4096"
  shows "through_window kd t (modify_entry t j g) m x = m x"
  using assms by (simp add: through_window_def Let_def modify_entry_frame)

lemma through_clear_frame:
  assumes "page_aligned t" "x \<notin> bytes t 4096" "x \<notin> bytes (table m kd 1) 4096"
  shows "through_window kd t (\<lambda>m. snd (kmemset t 0 4096 m)) m x = m x"
  using assms by (simp add: through_window_def Let_def modify_entry_frame kmemset_page)

lemma ident_dir0: "ident kd m \<Longrightarrow> pg_present (entry m kd 0)"
proof -
  assume i: "ident kd m"
  have "low_addr 0x1000" by (simp add: low_addr_def)
  with i have "translate kd m 0x1000 = Some 0x1000" by (simp add: ident_def)
  moreover have "dir_index 0x1000 = 0" by (simp add: dir_index_div)
  ultimately show ?thesis by (auto simp: translate_def walk_def Let_def split: if_splits)
qed

lemma ok_dir01:
  assumes "vmm_ok p kd s"
  shows "pg_present (entry (ram s) kd 0)" "pg_present (entry (ram s) kd 1)"
  using assms ident_dir0 pt1_low(2) by (auto simp: vmm_ok_def running_def)

lemma ok_other:
  assumes "vmm_ok p kd s" "2 \<le> i" "i < 1024" "pg_present (entry (ram s) kd i)"
  shows "other_frame kd (ram s) (table (ram s) kd i)"
proof -
  have d: "(\<And>i. i < 1024 \<Longrightarrow> pg_present (entry (ram s) kd i) \<Longrightarrow> table (ram s) kd i \<noteq> kd)"
    "(\<And>i j. i < 1024 \<Longrightarrow> j < 1024 \<Longrightarrow> pg_present (entry (ram s) kd i) \<Longrightarrow> pg_present (entry (ram s) kd j) \<Longrightarrow>
        table (ram s) kd i = table (ram s) kd j \<Longrightarrow> i = j)"
    using assms(1) unfolding vmm_ok_def tables_ok_def by blast+
  have "table (ram s) kd i \<noteq> table (ram s) kd 0" "table (ram s) kd i \<noteq> table (ram s) kd 1"
    using d(2) [of i 0] d(2) [of i 1] assms ok_dir01 [OF assms(1)] by auto
  with d(1) [of i] assms show ?thesis by (simp add: other_frame_def)
qed

lemma vmm_okI:
  assumes "vmm_ok p kd s" "ident kd m'" "tables_ok kd m'"
    and "\<And>x. in_storage (frame_bitmap p) x \<Longrightarrow> m' x = ram s x"
    and "\<And>t. is_table kd m' t \<Longrightarrow> is_table kd (ram s) t \<or> frame_used p (t div 4096) (ram s) \<and> bitmap_apart p t"
  shows "vmm_ok p kd (s\<lparr>ram := m'\<rparr>)"
proof -
  have "pmm_ok p" using assms(1) by (simp add: vmm_ok_def)
  then have "frame_used p f m' = frame_used p f (ram s)" for f by (rule frame_used_cong [OF _ assms(4)])
  then show ?thesis
    using assms unfolding vmm_ok_def bitmap_reserved_def running_def by (simp, blast)
qed

lemma vmm_ok_invalidate [simp]: "vmm_ok p kd (invalidate va s) = vmm_ok p kd s"
  by (simp add: vmm_ok_def)

lemma same_dir:
  assumes "\<And>i. i < 1024 \<Longrightarrow> entry m' kd i = entry m kd i"
  shows "tables_ok kd m' = tables_ok kd m" "is_table kd m' = is_table kd m"
  using assms by (auto simp: tables_ok_def is_table_def fun_eq_iff)

text \<open>Two cases of an entry: present with a value, or not.\<close>

definition seen :: "u32 \<Rightarrow> u32 option" where
  "seen e = (if pg_present e then Some e else None)"

lemma walk_seen: "walk kd m va = (if pg_present (entry m kd (dir_index va))
    then seen (entry m (table m kd (dir_index va)) (page_index va)) else None)"
  by (simp add: walk_def seen_def Let_def)

definition in_window :: "u32 \<Rightarrow> bool" where
  "in_window va \<longleftrightarrow> dir_index va = 1 \<and> page_index va = 1023"

lemma ok_table_apart:
  "vmm_ok p kd s \<Longrightarrow> i < 1024 \<Longrightarrow> pg_present (entry (ram s) kd i) \<Longrightarrow> bitmap_apart p (table (ram s) kd i)"
  unfolding vmm_ok_def is_table_def by blast

text \<open>
  Changing one entry of a table: any entry of a table outside the identity mapping, or the
  entry of the window.
\<close>

lemma ok_modify:
  fixes g :: "u32 \<Rightarrow> u32"
  assumes ok: "vmm_ok p kd s" and i: "i < 1024" "pg_present (entry (ram s) kd i)" and j: "j < 1024"
    and place: "2 \<le> i \<or> i = 1 \<and> j = 1023"
  defines "t \<equiv> table (ram s) kd i"
  defines "m' \<equiv> modify_entry t j g (ram s)"
  shows "vmm_ok p kd (s\<lparr>ram := m'\<rparr>)"
    "walk kd m' va = (if dir_index va = i \<and> page_index va = j then seen (g (entry (ram s) t j))
       else walk kd (ram s) va)"
    "frame_used p f m' = frame_used p f (ram s)" "is_table kd m' = is_table kd (ram s)"
    "\<And>k. k < 1024 \<Longrightarrow> entry m' kd k = entry (ram s) kd k"
    "\<And>k l. k < 1024 \<Longrightarrow> l < 1024 \<Longrightarrow> pg_present (entry (ram s) kd k) \<Longrightarrow> \<not> (k = i \<and> l = j) \<Longrightarrow>
       entry m' (table (ram s) kd k) l = entry (ram s) (table (ram s) kd k) l"
proof -
  have run: "running kd s" "tables_ok kd (ram s)" and pok: "pmm_ok p" using ok by (simp_all add: vmm_ok_def)
  have kd: "page_aligned kd" using run(1) by simp
  have t: "page_aligned t" "t \<noteq> kd" using run(2) i by (simp_all add: tables_ok_def t_def)
  have distinct: "t = table (ram s) kd k \<longleftrightarrow> k = i" if "k < 1024" "pg_present (entry (ram s) kd k)" for k
    using run(2) that i unfolding tables_ok_def t_def by auto
  have e: "entry m' u k = (if t = u \<and> j = k then g (entry (ram s) t j) else entry (ram s) u k)"
    if "page_aligned u" "k < 1024" for u k
    using that t(1) j by (simp add: m'_def entry_modify)
  show dir: "\<And>k. k < 1024 \<Longrightarrow> entry m' kd k = entry (ram s) kd k" using e [OF kd] t(2) by auto
  show tab: "\<And>k l. k < 1024 \<Longrightarrow> l < 1024 \<Longrightarrow> pg_present (entry (ram s) kd k) \<Longrightarrow> \<not> (k = i \<and> l = j) \<Longrightarrow>
       entry m' (table (ram s) kd k) l = entry (ram s) (table (ram s) kd k) l"
    using e distinct by auto
  have id: "ident kd m'"
  proof (rule ident_eqI)
    show "ident kd (ram s)" using run(1) by (simp add: running_def)
  qed (use place ok_dir01 [OF ok] in \<open>auto simp: dir intro!: tab\<close>)
  have st: "m' x = ram s x" if "in_storage (frame_bitmap p) x" for x
    using that ok_table_apart [OF ok i] t(1) j
    by (auto simp: bitmap_apart_def t_def m'_def intro!: modify_entry_frame)
  show "is_table kd m' = is_table kd (ram s)" by (rule same_dir(2) [OF dir])
  show "frame_used p f m' = frame_used p f (ram s)" by (rule frame_used_cong [OF pok st])
  show "vmm_ok p kd (s\<lparr>ram := m'\<rparr>)"
    using same_dir [OF dir] run(2) by (intro vmm_okI [OF ok id _ st]) simp_all
  show "walk kd m' va = (if dir_index va = i \<and> page_index va = j then seen (g (entry (ram s) t j))
       else walk kd (ram s) va)"
  proof (cases "pg_present (entry (ram s) kd (dir_index va))")
    case True
    have "walk kd m' va = seen (if dir_index va = i \<and> page_index va = j then g (entry (ram s) t j)
        else entry (ram s) (table (ram s) kd (dir_index va)) (page_index va))"
      using True by (auto simp: walk_seen dir e distinct t_def [symmetric])
    then show ?thesis using True by (auto simp: walk_seen [of kd "ram s"])
  qed (use i in \<open>auto simp: walk_seen dir\<close>)
qed

lemma ok_fill:
  fixes g :: "u32 \<Rightarrow> u32"
  assumes ok: "vmm_ok p kd s" and i: "2 \<le> i" "i < 1024" "pg_present (entry (ram s) kd i)" and j: "j < 1024"
  defines "t \<equiv> table (ram s) kd i"
  defines "m' \<equiv> through_window kd t (modify_entry t j g) (ram s)"
  shows "vmm_ok p kd (s\<lparr>ram := m'\<rparr>)"
    "walk kd m' va = (if in_window va then None
       else if dir_index va = i \<and> page_index va = j then seen (g (entry (ram s) t j)) else walk kd (ram s) va)"
    "frame_used p f m' = frame_used p f (ram s)" "is_table kd m' = is_table kd (ram s)"
    "\<And>k. k < 1024 \<Longrightarrow> entry m' kd k = entry (ram s) kd k"
proof -
  let ?pt1 = "table (ram s) kd 1"
  let ?a = "modify_entry ?pt1 1023 (window_entry t) (ram s)"
  let ?b = "modify_entry t j g ?a"
  note am = ok_modify [OF ok _ ok_dir01(2) [OF ok], where j = 1023 and g = "window_entry t"]
  have a: "vmm_ok p kd (s\<lparr>ram := ?a\<rparr>)" "\<And>va. walk kd ?a va = (if in_window va
        then seen (window_entry t (entry (ram s) ?pt1 1023)) else walk kd (ram s) va)"
      "\<And>f. frame_used p f ?a = frame_used p f (ram s)" "is_table kd ?a = is_table kd (ram s)"
      "\<And>k. k < 1024 \<Longrightarrow> entry ?a kd k = entry (ram s) kd k"
    by (simp_all add: am in_window_def)
  have at: "entry ?a t j = entry (ram s) t j" using am(6) [of i j] i j by (simp add: t_def [symmetric])
  have ti: "table ?a kd i = t" "pg_present (entry ?a kd i)" using i a(5) by (simp_all add: t_def)
  have pr: "pg_present (entry (ram (s\<lparr>ram := ?a\<rparr>)) kd i)" using ti(2) by simp
  note bm = ok_modify [OF a(1) i(2) pr j disjI1 [OF i(1)], where g = g]
  have b: "vmm_ok p kd (s\<lparr>ram := ?b\<rparr>)" "\<And>va. walk kd ?b va = (if dir_index va = i \<and> page_index va = j
        then seen (g (entry ?a t j)) else walk kd ?a va)"
      "\<And>f. frame_used p f ?b = frame_used p f ?a" "is_table kd ?b = is_table kd ?a"
      "\<And>k. k < 1024 \<Longrightarrow> entry ?b kd k = entry ?a kd k"
    using bm(1) bm(2) bm(3) bm(4) bm(5) by (simp_all add: ti)
  have m': "m' = modify_entry (table ?b kd 1) 1023 (set_present False) ?b"
    by (simp add: m'_def through_window_def Let_def a b)
  have p1: "pg_present (entry (ram (s\<lparr>ram := ?b\<rparr>)) kd 1)" using ok_dir01(2) [OF b(1)] .
  note c = ok_modify [OF b(1) _ p1, where j = 1023 and g = "set_present False", simplified, folded m']
  show "vmm_ok p kd (s\<lparr>ram := m'\<rparr>)" "frame_used p f m' = frame_used p f (ram s)"
    "is_table kd m' = is_table kd (ram s)" "\<And>k. k < 1024 \<Longrightarrow> entry m' kd k = entry (ram s) kd k"
    using c(1,3,4,5) a b by simp_all
  show "walk kd m' va = (if in_window va then None
       else if dir_index va = i \<and> page_index va = j then seen (g (entry (ram s) t j)) else walk kd (ram s) va)"
    using c(2) [of va] a at b(2) [of va] i(1) by (auto simp: in_window_def seen_def)
qed

section \<open>Granting frames\<close>

lemma page_div:
  assumes "page_aligned a" "x \<in> bytes a 4096"
  shows "x div 4096 = a div 4096"
proof -
  obtain k where k: "unat a = 4096 * k" by (rule page_number [OF assms(1)])
  with assms(2) have "unat x div 4096 = k" by (auto simp: bytes_def in_range_def intro!: div_nat_eqI)
  with k show ?thesis by (simp add: word_unat_eq_iff unat_div)
qed

lemma ok_table_same:
  assumes "vmm_ok p kd s" "is_table kd (ram s) t" "\<And>x. \<not> in_storage (frame_bitmap p) x \<Longrightarrow> m' x = ram s x" "i < 1024"
  shows "entry m' t i = entry (ram s) t i"
proof (rule entry_cong)
  show "page_aligned t" using assms(1,2) by (auto simp: vmm_ok_def is_table_def)
  have "bitmap_apart p t" using assms(1,2) by (simp add: vmm_ok_def)
  then show "m' x = ram s x" if "x \<in> bytes t 4096" for x
    using that assms(3) by (simp add: bitmap_apart_def)
qed (rule assms)

lemma ok_grant:
  assumes ok: "vmm_ok p kd s" and al: "pmm_allocate_frame p (ram s) = (a, m')" and "a \<noteq> 0"
  shows "vmm_ok p kd (s\<lparr>ram := m'\<rparr>)"
    "page_aligned a" "\<not> is_table kd (ram s) a" "bitmap_apart p a" "\<not> frame_used p (a div 4096) (ram s)"
    "\<And>f. frame_used p f m' \<longleftrightarrow> f = a div 4096 \<or> frame_used p f (ram s)"
    "\<And>t i. is_table kd (ram s) t \<Longrightarrow> i < 1024 \<Longrightarrow> entry m' t i = entry (ram s) t i"
    "\<And>x. \<not> in_storage (frame_bitmap p) x \<Longrightarrow> m' x = ram s x"
proof -
  have pok: "pmm_ok p" and res: "bitmap_reserved p (ram s)" using ok by (simp_all add: vmm_ok_def)
  note g = pm.alloc_grants [OF pok al \<open>a \<noteq> 0\<close>]
  show pa: "page_aligned a" using g by (simp add: page_aligned_word)
  show nu: "\<not> frame_used p (a div 4096) (ram s)"
    and us: "\<And>f. frame_used p f m' \<longleftrightarrow> f = a div 4096 \<or> frame_used p f (ram s)" using g by blast+
  show "\<not> is_table kd (ram s) a" using ok nu unfolding vmm_ok_def by blast
  show "bitmap_apart p a"
    using res nu page_div [OF pa] unfolding bitmap_apart_def bitmap_reserved_def by metis
  show off: "\<And>x. \<not> in_storage (frame_bitmap p) x \<Longrightarrow> m' x = ram s x"
    by (rule pmm_allocate_frame_memory [OF pok al])
  show same: "\<And>t i. is_table kd (ram s) t \<Longrightarrow> i < 1024 \<Longrightarrow> entry m' t i = entry (ram s) t i"
    by (rule ok_table_same [OF ok _ off])
  have dir: "entry m' kd i = entry (ram s) kd i" if "i < 1024" for i
    using that by (intro same) (simp_all add: is_table_def)
  have t01: "is_table kd (ram s) (table (ram s) kd 0)" "is_table kd (ram s) (table (ram s) kd 1)"
    using ok_dir01 [OF ok] by simp_all
  have "ident kd m'"
  proof (rule ident_eqI)
    show "ident kd (ram s)" using ok by (simp add: vmm_ok_def running_def)
  qed (simp_all add: dir same t01)
  with ok same_dir [OF dir] us show "vmm_ok p kd (s\<lparr>ram := m'\<rparr>)"
    unfolding vmm_ok_def running_def bitmap_reserved_def by simp
qed

lemma grant_walk:
  assumes "vmm_ok p kd s" "pmm_allocate_frame p (ram s) = (a, m')" "a \<noteq> 0"
  shows "walk kd m' va = walk kd (ram s) va"
  using ok_grant(7) [OF assms] by (intro walk_eqI) simp_all

lemma ok_refuse: "vmm_ok p kd s \<Longrightarrow> pmm_allocate_frame p (ram s) = (0, m') \<Longrightarrow> m' = ram s"
  using pm.alloc_refuses [of p "ram s" m'] by (simp add: vmm_ok_def)

section \<open>A new table\<close>

lemma new_table_effect:
  fixes w us :: bool
  assumes run: "running kd s" and i: "2 \<le> i" "i < 1024" and o: "other_frame kd (ram s) t"
  defines "m' \<equiv> through_window kd t (\<lambda>m. snd (kmemset t 0 4096 m)) (modify_entry kd i (page_word w us t) (ram s))"
  shows "ident kd m'"
    "\<And>k. k < 1024 \<Longrightarrow> entry m' kd k = (if k = i then page_word w us t (entry (ram s) kd i) else entry (ram s) kd k)"
    "\<And>u k. page_aligned u \<Longrightarrow> u \<noteq> t \<Longrightarrow> u \<noteq> kd \<Longrightarrow> k < 1024 \<Longrightarrow>
      entry m' u k = (if u = table (ram s) kd 1 \<and> k = 1023
        then set_present False (window_entry t (entry (ram s) u k)) else entry (ram s) u k)"
    "\<And>k. k < 1024 \<Longrightarrow> entry m' t k = 0"
    "\<And>x. x \<notin> bytes t 4096 \<Longrightarrow> x \<notin> bytes kd 4096 \<Longrightarrow> x \<notin> bytes (table (ram s) kd 1) 4096 \<Longrightarrow> m' x = ram s x"
proof -
  let ?m1 = "modify_entry kd i (page_word w us t) (ram s)"
  note p1 = pt1_low [OF run]
  have kd: "page_aligned kd" using run by simp
  have t: "page_aligned t" "t \<noteq> kd" "t \<noteq> table (ram s) kd 0" "t \<noteq> table (ram s) kd 1"
    using o by (simp_all add: other_frame_def)
  have d1: "entry ?m1 kd k = (if k = i then page_word w us t (entry (ram s) kd i) else entry (ram s) kd k)"
    if "k < 1024" for k using kd i(2) that by (auto simp: entry_modify)
  have pt1: "table ?m1 kd 1 = table (ram s) kd 1" using i(1) by (simp add: d1)
  note e = entry_through_clear [OF t(1) t(4) [folded pt1], folded m'_def, unfolded pt1]
  show dir: "\<And>k. k < 1024 \<Longrightarrow> entry m' kd k = (if k = i then page_word w us t (entry (ram s) kd i) else entry (ram s) kd k)"
    using e [OF kd] t(2) p1(3) d1 by auto
  show tab: "\<And>u k. page_aligned u \<Longrightarrow> u \<noteq> t \<Longrightarrow> u \<noteq> kd \<Longrightarrow> k < 1024 \<Longrightarrow>
      entry m' u k = (if u = table (ram s) kd 1 \<and> k = 1023
        then set_present False (window_entry t (entry (ram s) u k)) else entry (ram s) u k)"
    using kd i(2) by (simp add: e entry_modify)
  show "\<And>k. k < 1024 \<Longrightarrow> entry m' t k = 0" using e [OF t(1)] t(4) by auto
  show "\<And>x. x \<notin> bytes t 4096 \<Longrightarrow> x \<notin> bytes kd 4096 \<Longrightarrow> x \<notin> bytes (table (ram s) kd 1) 4096 \<Longrightarrow> m' x = ram s x"
    unfolding m'_def using t(1) kd i(2) pt1 by (simp add: through_clear_frame modify_entry_frame)
  show "ident kd m'"
  proof (rule ident_eqI)
    show id: "ident kd (ram s)" using run by (simp add: running_def)
    show "entry m' (table (ram s) kd 0) j = entry (ram s) (table (ram s) kd 0) j" if "j < 1024" for j
      using that t id by (subst tab) (auto simp: ident_def)
    show "entry m' (table (ram s) kd 1) j = entry (ram s) (table (ram s) kd 1) j" if "j < 1023" for j
      using that p1 t by (subst tab) auto
  qed (use i in \<open>simp_all add: dir\<close>)
qed

lemma ok_new_table:
  fixes w us :: bool
  assumes ok: "vmm_ok p kd s" and i: "2 \<le> i" "i < 1024" "\<not> pg_present (entry (ram s) kd i)"
    and t: "page_aligned t" "low_addr t" "\<not> is_table kd (ram s) t" "bitmap_apart p t"
      "frame_used p (t div 4096) (ram s)"
  defines "m' \<equiv> through_window kd t (\<lambda>m. snd (kmemset t 0 4096 m)) (modify_entry kd i (page_word w us t) (ram s))"
  shows "vmm_ok p kd (s\<lparr>ram := m'\<rparr>)"
    "walk kd m' va = (if in_window va then None else walk kd (ram s) va)"
    "entry m' kd i = page_word w us t (entry (ram s) kd i)"
    "\<And>f. frame_used p f m' = frame_used p f (ram s)"
    "\<And>u. is_table kd m' u \<Longrightarrow> is_table kd (ram s) u \<or> u = t"
proof -
  have run: "running kd s" "tables_ok kd (ram s)" and pok: "pmm_ok p" using ok by (simp_all add: vmm_ok_def)
  have tk: "t \<noteq> kd" and tt: "\<And>k. k < 1024 \<Longrightarrow> pg_present (entry (ram s) kd k) \<Longrightarrow> t \<noteq> table (ram s) kd k"
    using t(3) by (auto simp: is_table_def)
  have o: "other_frame kd (ram s) t"
    using t(1) tk tt [of 0] tt [of 1] ok_dir01 [OF ok] by (simp add: other_frame_def)
  note ne = new_table_effect [OF run(1) i(1,2) o, where w = w and us = us, folded m'_def]
  note dir = ne(2) and tab = ne(3)
  show "entry m' kd i = page_word w us t (entry (ram s) kd i)" by (simp add: dir i)
  have tok: "tables_ok kd m'"
    using run(2) i t(1,2) tk tt unfolding tables_ok_def by (auto simp: dir)
  have st: "m' x = ram s x" if "in_storage (frame_bitmap p) x" for x
    using that t(4) ok ok_table_apart [OF ok _ ok_dir01(2) [OF ok]]
    by (intro ne(5)) (auto simp: bitmap_apart_def vmm_ok_def is_table_def)
  show new: "is_table kd m' u \<Longrightarrow> is_table kd (ram s) u \<or> u = t" for u
    using t(1) by (auto simp: is_table_def dir split: if_splits)
  show "frame_used p f m' = frame_used p f (ram s)" for f by (rule frame_used_cong [OF pok st])
  show "vmm_ok p kd (s\<lparr>ram := m'\<rparr>)"
    using new t(4,5) by (intro vmm_okI [OF ok ne(1) tok st]) auto
  show "walk kd m' va = (if in_window va then None else walk kd (ram s) va)"
  proof -
    have one: "k = 1" if "k < 1024" "pg_present (entry (ram s) kd k)" "table (ram s) kd k = table (ram s) kd 1" for k
      using that run(2) ok_dir01 [OF ok] unfolding tables_ok_def by auto
    consider "dir_index va = i" | "dir_index va \<noteq> i" "\<not> pg_present (entry (ram s) kd (dir_index va))"
      | "dir_index va \<noteq> i" "pg_present (entry (ram s) kd (dir_index va))" by blast
    then show ?thesis
    proof cases
      case 1
      then show ?thesis using i t ne(4) by (simp add: walk_seen dir in_window_def seen_def)
    next
      case 2
      then show ?thesis using ok_dir01 [OF ok] by (auto simp: walk_seen dir in_window_def)
    next
      case 3
      have "table (ram s) kd (dir_index va) \<noteq> kd" "table (ram s) kd (dir_index va) \<noteq> t"
        using run(2) 3 tt [OF dir_index_bound 3(2)] unfolding tables_ok_def by auto
      with 3 one [OF dir_index_bound 3(2)] show ?thesis
        by (auto simp: walk_seen dir tab in_window_def seen_def)
    qed
  qed
qed

section \<open>Choosing an address\<close>

lemma find_page_run:
  assumes "running kd s" "page_aligned t" "low_addr t" "\<forall>j \<in> set js. j < 1024"
  shows "find_page t js s = Inr (find (\<lambda>j. \<not> pg_present (entry (ram s) t j)) js)"
  using assms(4) by (induction js) (auto simp: get_entry_low [OF assms(1-3)])

lemma slot_bits:
  assumes "pd < 1024" "pt < 1024"
  shows "dir_index (push_bit 22 (U32 pd) OR push_bit 12 (U32 pt)) = pd"
    "page_index (push_bit 22 (U32 pd) OR push_bit 12 (U32 pt)) = pt"
    "page_aligned (push_bit 22 (U32 pd) OR push_bit 12 (U32 pt))"
proof -
  let ?v = "push_bit 22 (U32 pd) OR push_bit 12 (U32 pt) :: u32"
  have small: "k < 10" if "n < 1024" "bit n k" for n k :: nat
  proof -
    have "take_bit 10 n = n" using that by (simp add: take_bit_nat_eq_self)
    then show ?thesis using that(2) by (metis bit_take_bit_iff)
  qed
  have "drop_bit 22 ?v = U32 pd"
    by (intro bit_word_eqI) (auto simp: bit_simps dest: small [OF assms(1)] small [OF assms(2)])
  then show "dir_index ?v = pd" using assms(1) by (simp add: dir_index_def unat_of_nat_u32)
  have m: "(0x3FF :: u32) = mask 10" by (simp add: mask_eq_exp_minus_1)
  have "drop_bit 12 ?v AND 0x3FF = U32 pt"
    unfolding m
    by (intro bit_word_eqI) (auto simp: bit_simps dest: small [OF assms(1)] small [OF assms(2)])
  then show "page_index ?v = pt" using assms(2) by (simp add: page_index_def unat_of_nat_u32)
  have "take_bit 12 ?v = 0" by (rule bit_word_eqI) (auto simp: bit_simps)
  then show "page_aligned ?v" by (simp add: page_aligned_word take_bit_eq_mod)
qed

lemma slot_bits0:
  "pd < 1024 \<Longrightarrow> dir_index (push_bit 22 (U32 pd)) = pd \<and> page_aligned (push_bit 22 (U32 pd))"
  using slot_bits [of pd 0] by simp

definition free_slot :: "u32 \<Rightarrow> mem \<Rightarrow> u32 \<Rightarrow> bool" where
  "free_slot kd m va \<longleftrightarrow> page_aligned va \<and> 2 \<le> dir_index va \<and> dir_index va \<notin> {768, 769} \<and> walk kd m va = None"

lemma find_slot_run:
  assumes "vmm_ok p kd s" "\<forall>i \<in> set is. 2 \<le> i \<and> i < 1024"
  shows "\<exists>r. find_slot kd is s = Inr r \<and> (\<forall>va. r = Some va \<longrightarrow> free_slot kd (ram s) va) \<and>
    (r = None \<longrightarrow> (\<forall>va. dir_index va \<in> set is \<longrightarrow> \<not> free_slot kd (ram s) va))"
  using assms(2)
proof (induction "is")
  case (Cons i rest)
  have run: "running kd s" and tok: "tables_ok kd (ram s)" using assms(1) by (simp_all add: vmm_ok_def)
  note k = running_kd [OF run]
  have i: "2 \<le> i" "i < 1024" using Cons.prems by simp_all
  obtain r where r: "find_slot kd rest s = Inr r" "\<forall>va. r = Some va \<longrightarrow> free_slot kd (ram s) va"
      "r = None \<longrightarrow> (\<forall>va. dir_index va \<in> set rest \<longrightarrow> \<not> free_slot kd (ram s) va)"
    using Cons by auto
  note ge = get_entry_low [OF run k i(2)]
  consider "i = 768 \<or> i = 769" | "i \<notin> {768, 769}" "\<not> pg_present (entry (ram s) kd i)"
    | "i \<notin> {768, 769}" "pg_present (entry (ram s) kd i)" by blast
  then show ?case
  proof cases
    case 1
    then have "\<not> free_slot kd (ram s) va" if "dir_index va = i" for va using that by (auto simp: free_slot_def)
    with 1 r show ?thesis by auto
  next
    case 2
    then have "free_slot kd (ram s) (push_bit 22 (U32 i))"
      using slot_bits0 [OF i(2)] i by (simp add: free_slot_def walk_seen)
    with 2 ge show ?thesis by simp
  next
    case 3
    let ?t = "table (ram s) kd i"
    have "low_addr ?t" using tok i(2) 3 by (simp add: tables_ok_def)
    then have fp: "find_page ?t [0..<1024] s = Inr (find (\<lambda>j. \<not> pg_present (entry (ram s) ?t j)) [0..<1024])"
      by (intro find_page_run [OF run]) auto
    show ?thesis
    proof (cases "find (\<lambda>j. \<not> pg_present (entry (ram s) ?t j)) [0..<1024]")
      case None
      then have "\<forall>j < 1024. pg_present (entry (ram s) ?t j)" by (auto simp: find_None_iff)
      then have "\<not> free_slot kd (ram s) va" if "dir_index va = i" for va
        using that 3 by (auto simp: free_slot_def walk_seen seen_def)
      with 3 ge fp r None show ?thesis by auto
    next
      case (Some j)
      then have j: "j < 1024" "\<not> pg_present (entry (ram s) ?t j)" by (auto simp: find_Some_iff)
      then have "free_slot kd (ram s) (push_bit 22 (U32 i) OR push_bit 12 (U32 j))"
        using slot_bits [OF i(2) j(1)] i 3 by (simp add: free_slot_def walk_seen seen_def)
      with 3 ge fp Some show ?thesis by simp
    qed
  qed
qed simp

section \<open>Mapping a page\<close>

lemma grant_low:
  assumes "vmm_ok p kd s" "frame_exists p f" "\<not> frame_used p f (ram s)" "f < 0x7FF"
  obtains a m' where "pmm_allocate_frame p (ram s) = (a, m')" "a \<noteq> 0" "low_addr a"
proof -
  have pok: "pmm_ok p" "frame_used p 0 (ram s)" using assms(1) by (simp_all add: vmm_ok_def)
  from pok(1) show ?thesis
  proof (cases rule: pmm_allocate_cases [where m = "ram s"])
    case full
    with assms(2,3) show ?thesis by blast
  next
    case (grant h)
    then have h: "h \<le> f" using assms(3) by (meson not_le)
    have "h \<noteq> 0" using grant(2) pok(2) by blast
    then have "0 < unat h" "unat h < 0x7FF"
      using h assms(4) by (auto simp: word_le_nat_alt word_less_nat_alt unat_gt_0)
    moreover from this have "unat (h * 4096) = unat h * 4096" by (subst unat_mult_u32) simp_all
    ultimately have "low_addr (h * 4096)" by (simp add: low_addr_def)
    with grant \<open>h \<noteq> 0\<close> frame_address(3) [OF pok(1) grant(1)] that show ?thesis by blast
  qed
qed

lemma page_index_eq:
  assumes "page_aligned va"
  shows "dir_index x = dir_index va \<and> page_index x = page_index va \<longleftrightarrow> page_start x = va"
proof -
  have va: "page_start va = va" using assms by (simp add: page_start_def)
  show ?thesis
  proof
    assume "dir_index x = dir_index va \<and> page_index x = page_index va"
    then show "page_start x = va" using page_start_index [of x] page_start_index [of va] va by simp
  next
    assume "page_start x = va"
    then have "unat x div 4096 = unat va div 4096"
      using unat_page_start [of x] unat_page_start [of va] va by simp
    moreover have "unat y div 4194304 = unat y div 4096 div 1024" for y :: u32
      using div_mult2_eq [of "unat y" 4096 1024] by simp
    ultimately show "dir_index x = dir_index va \<and> page_index x = page_index va"
      by (simp add: dir_index_div page_index_div)
  qed
qed

text \<open>A frame of data: not a table, not part of the bitmap.  The operations keep the contents of the
  data frames that are in use.\<close>

definition data_frame :: "pmm \<Rightarrow> u32 \<Rightarrow> vm \<Rightarrow> u32 \<Rightarrow> bool" where
  "data_frame p kd s t \<longleftrightarrow> page_aligned t \<and> \<not> is_table kd (ram s) t \<and> bitmap_apart p t"

definition keeps_data :: "pmm \<Rightarrow> u32 \<Rightarrow> vm \<Rightarrow> vm \<Rightarrow> bool" where
  "keeps_data p kd s s' \<longleftrightarrow> (\<forall>u. data_frame p kd s u \<longrightarrow> frame_used p (u div 4096) (ram s) \<longrightarrow>
     data_frame p kd s' u \<and> (\<forall>x. x \<in> bytes u 4096 \<longrightarrow> ram s' x = ram s x))"

lemma keeps_data_refl [simp]: "keeps_data p kd s s"
  by (simp add: keeps_data_def)

lemma keeps_data_invalidate [simp]: "keeps_data p kd s (invalidate va s') = keeps_data p kd s s'"
  by (simp add: keeps_data_def data_frame_def)

lemma keeps_data_trans:
  assumes "keeps_data p kd s s1" "keeps_data p kd s1 s'" "\<And>f. frame_used p f (ram s) \<Longrightarrow> frame_used p f (ram s1)"
  shows "keeps_data p kd s s'"
  using assms unfolding keeps_data_def by metis

lemma data_not_in_table:
  assumes "vmm_ok p kd s" "data_frame p kd s u" "is_table kd (ram s) t" "x \<in> bytes u 4096"
  shows "x \<notin> bytes t 4096"
proof -
  have "page_aligned t" using assms(1,3) by (auto simp: is_table_def vmm_ok_def)
  moreover have "u \<noteq> t" using assms(2,3) by (auto simp: data_frame_def)
  ultimately show ?thesis using assms(2,4) by (intro pages_disjoint [of u t]) (auto simp: data_frame_def)
qed

lemma keeps_data_grant:
  assumes "vmm_ok p kd s" "pmm_allocate_frame p (ram s) = (a, m')" "a \<noteq> 0"
  shows "keeps_data p kd s (s\<lparr>ram := m'\<rparr>)"
proof -
  note g = ok_grant [OF assms]
  have "entry m' kd i = entry (ram s) kd i" if "i < 1024" for i using that by (intro g(7)) simp_all
  then have "is_table kd m' = is_table kd (ram s)" by (rule same_dir(2))
  then show ?thesis
    using g(8) unfolding keeps_data_def data_frame_def bitmap_apart_def by simp
qed

text \<open>A page is newly mapped: a frame that was free, below the window, backs it, at most one more frame
  (for a table) was taken, and no other translation changes.\<close>

definition maps_page :: "pmm \<Rightarrow> u32 \<Rightarrow> bool \<Rightarrow> bool \<Rightarrow> u32 \<Rightarrow> vm \<Rightarrow> vm \<Rightarrow> bool" where
  "maps_page p kd w us va s s' \<longleftrightarrow> vmm_ok p kd s' \<and> va \<in> set (invalidated (regs s')) \<and>
     (\<forall>f. frame_used p f (ram s) \<longrightarrow> frame_used p f (ram s')) \<and> keeps_data p kd s s' \<and>
     (\<forall>i < 2. entry (ram s') kd i = entry (ram s) kd i) \<and>
     (\<exists>e h. pg_rw e = w \<and> pg_user e = us \<and> bitmap_apart p (page_base e) \<and> low_addr (page_base e) \<and>
        (\<forall>f. frame_used p f (ram s') \<longrightarrow> f = page_base e div 4096 \<or> f = h \<or> frame_used p f (ram s)) \<and>
        \<not> is_table kd (ram s') (page_base e) \<and>
        \<not> frame_used p (page_base e div 4096) (ram s) \<and> frame_used p (page_base e div 4096) (ram s') \<and>
        (\<forall>x. walk kd (ram s') x =
           (if in_window x then None else if page_start x = va then Some e else walk kd (ram s) x)))"

lemma fill_maps:
  assumes ok: "vmm_ok p kd s" and va: "page_aligned va" "2 \<le> dir_index va"
    and pr: "pg_present (entry (ram s) kd (dir_index va))"
    and a: "page_aligned a" "bitmap_apart p a" "\<not> is_table kd (ram s) a" "frame_used p (a div 4096) (ram s)"
      "\<not> frame_used p (a div 4096) (ram org)" "low_addr a"
    and old: "\<And>f. frame_used p f (ram org) \<Longrightarrow> frame_used p f (ram s)"
      "\<And>x. walk kd (ram s) x = walk kd (ram org) x \<or> in_window x" "keeps_data p kd org s"
      "\<And>i. i < 2 \<Longrightarrow> entry (ram s) kd i = entry (ram org) kd i"
      "\<And>f. frame_used p f (ram s) \<Longrightarrow> f = a div 4096 \<or> f = h \<or> frame_used p f (ram org)"
  shows "\<exists>s'. vmm_fill_page kd kd va a w us s = Inr (va, s') \<and> maps_page p kd w us va org s'"
proof -
  let ?t = "table (ram s) kd (dir_index va)"
  let ?e = "page_word w us a (entry (ram s) ?t (page_index va))"
  have run: "running kd s" using ok by (simp add: vmm_ok_def)
  note o = ok_other [OF ok va(2) dir_index_bound pr]
  note f = ok_fill [OF ok va(2) dir_index_bound pr page_index_bound [of va], where g = "page_word w us a"]
  have walk: "walk kd (through_window kd ?t (modify_entry ?t (page_index va) (page_word w us a)) (ram s)) x =
      (if in_window x then None else if page_start x = va then Some ?e else walk kd (ram org) x)" for x
    using f(2) [of x] page_index_eq [OF va(1), of x] old(2) [of x] by (auto simp: seen_def)
  have tabs: "is_table kd (ram s) ?t" "is_table kd (ram s) (table (ram s) kd 1)" using pr ok_dir01 [OF ok] by simp_all
  have "keeps_data p kd s (s\<lparr>ram := through_window kd ?t (modify_entry ?t (page_index va) (page_word w us a)) (ram s)\<rparr>)"
    using data_not_in_table [OF ok _ tabs(1)] data_not_in_table [OF ok _ tabs(2)] f(4)
    unfolding keeps_data_def by (simp add: data_frame_def through_modify_frame)
  then have keeps: "keeps_data p kd org (s\<lparr>ram := through_window kd ?t (modify_entry ?t (page_index va) (page_word w us a)) (ram s)\<rparr>)"
    by (rule keeps_data_trans [OF old(3) _ old(1)])
  have "maps_page p kd w us va org (invalidate va (invalidate 0x7FF000 (invalidate 0x7FF000 (s\<lparr>ram :=
      through_window kd ?t (modify_entry ?t (page_index va) (page_word w us a)) (ram s)\<rparr>))))"
    unfolding maps_page_def using f a old(1,4,5) walk keeps
    by (intro conjI exI [of _ ?e] exI [of _ h]) simp_all
  with fill_page_run [OF run o refl] show ?thesis by simp
qed

lemma new_table_keeps:
  fixes w us :: bool
  assumes ok: "vmm_ok p kd s" and i: "2 \<le> i" "i < 1024" "\<not> pg_present (entry (ram s) kd i)"
    and t: "page_aligned t" "low_addr t" "\<not> is_table kd (ram s) t" "bitmap_apart p t" "frame_used p (t div 4096) (ram s)"
  defines "m' \<equiv> through_window kd t (\<lambda>m. snd (kmemset t 0 4096 m)) (modify_entry kd i (page_word w us t) (ram s))"
  assumes u: "data_frame p kd s u" "u \<noteq> t"
  shows "data_frame p kd (s\<lparr>ram := m'\<rparr>) u" "x \<in> bytes u 4096 \<Longrightarrow> m' x = ram s x"
proof -
  have run: "running kd s" using ok by (simp add: vmm_ok_def)
  have o: "other_frame kd (ram s) t" using t(1,3) ok_dir01 [OF ok] unfolding other_frame_def is_table_def by simp
  show "data_frame p kd (s\<lparr>ram := m'\<rparr>) u"
    using ok_new_table(5) [OF ok i t, of w us u] u unfolding m'_def by (auto simp: data_frame_def)
  assume x: "x \<in> bytes u 4096"
  have "x \<notin> bytes t 4096" using pages_disjoint [of u t x] u t(1) x by (simp add: data_frame_def)
  moreover have "x \<notin> bytes kd 4096" "x \<notin> bytes (table (ram s) kd 1) 4096"
    using data_not_in_table [OF ok u(1) _ x] ok_dir01 [OF ok] by simp_all
  ultimately show "m' x = ram s x" unfolding m'_def by (rule new_table_effect(5) [OF run i(1,2) o])
qed

text \<open>Taking a frame for a page table that is missing, and linking it.\<close>

lemma new_table_step:
  assumes ok: "vmm_ok p kd s" and i: "2 \<le> i" "i < 1024" "\<not> pg_present (entry (ram s) kd i)"
    and h: "frame_exists p h" "\<not> frame_used p h (ram s)" "h < 0x7FF"
  obtains t m2 s3 where "pmm_allocate_frame p (ram s) = (t, m2)" "t \<noteq> 0"
    "vmm_new_table kd kd i w us t (s\<lparr>ram := m2\<rparr>) = Inr s3" "vmm_ok p kd s3" "pg_present (entry (ram s3) kd i)"
    "\<not> frame_used p (t div 4096) (ram s)" "\<forall>f. frame_used p f (ram s3) \<longleftrightarrow> f = t div 4096 \<or> frame_used p f (ram s)"
    "\<forall>u. is_table kd (ram s3) u \<longrightarrow> is_table kd (ram s) u \<or> u = t" "\<forall>x. walk kd (ram s3) x = walk kd (ram s) x \<or> in_window x"
    "keeps_data p kd s s3" "\<forall>k < 2. entry (ram s3) kd k = entry (ram s) kd k"
proof -
  obtain t m2 where al: "pmm_allocate_frame p (ram s) = (t, m2)" "t \<noteq> 0" and lt: "low_addr t" by (rule grant_low [OF ok h])
  note g = ok_grant [OF ok al] and w2 = grant_walk [OF ok al]
  let ?s2 = "s\<lparr>ram := m2\<rparr>" and ?m3 = "through_window kd t (\<lambda>m. snd (kmemset t 0 4096 m)) (modify_entry kd i (page_word w us t) m2)"
  have run: "running kd ?s2" using g(1) by (simp add: vmm_ok_def)
  have e: "entry m2 kd k = entry (ram s) kd k" if "k < 1024" for k using that g(7) [of kd k] by simp
  have tab: "is_table kd m2 = is_table kd (ram s)" by (rule same_dir(2) [OF e])
  have np: "\<not> pg_present (entry (ram ?s2) kd i)" and nt: "\<not> is_table kd (ram ?s2) t" and ut: "frame_used p (t div 4096) (ram ?s2)"
    using i(2,3) g(3,6) tab by (simp_all add: e)
  have o: "other_frame kd (ram ?s2) t" using nt g(2) ok_dir01 [OF g(1)] unfolding other_frame_def is_table_def by simp
  note n = ok_new_table [OF g(1) i(1,2) np g(2) lt nt g(4) ut, where w = w and us = us, simplified]
  note kp = new_table_keeps [OF g(1) i(1,2) np g(2) lt nt g(4) ut, where w = w and us = us, simplified]
  let ?s3 = "invalidate 0x7FF000 (invalidate 0x7FF000 (s\<lparr>ram := ?m3\<rparr>))"
  show ?thesis
  proof (rule that [of t m2 ?s3])
    show "vmm_new_table kd kd i w us t ?s2 = Inr ?s3" using new_table_run [OF run i(1,2) o, of w us] by simp
    show "\<forall>k < 2. entry (ram ?s3) kd k = entry (ram s) kd k"
      using new_table_effect(2) [OF run i(1,2) o, of _ w us] i(1) e by simp
    show "keeps_data p kd s ?s3"
    proof (unfold keeps_data_def, intro allI impI)
      fix u assume u: "data_frame p kd s u" "frame_used p (u div 4096) (ram s)"
      then have "data_frame p kd ?s2 u" "\<forall>x. x \<in> bytes u 4096 \<longrightarrow> m2 x = ram s x" "u \<noteq> t"
        using keeps_data_grant [OF ok al] g(5) by (auto simp: keeps_data_def)
      then show "data_frame p kd ?s3 u \<and> (\<forall>x. x \<in> bytes u 4096 \<longrightarrow> ram ?s3 x = ram s x)"
        using kp(1) [of u] kp(2) [of u] by (simp add: data_frame_def)
    qed
  qed (use al g(5,6) n tab w2 in auto)
qed

lemma get_page_at_maps:
  assumes ok: "vmm_ok p kd s" and va: "page_aligned va" "2 \<le> dir_index va"
    and free: "f \<noteq> g" "frame_exists p f" "frame_exists p g" "\<not> frame_used p f (ram s)" "\<not> frame_used p g (ram s)"
      "f < 0x7FF" "g < 0x7FF"
  shows "\<exists>s'. vmm_get_page_at p kd kd w us va s = Inr (va, s') \<and> maps_page p kd w us va s s'"
proof -
  obtain a m1 where al: "pmm_allocate_frame p (ram s) = (a, m1)" "a \<noteq> 0" and la: "low_addr a"
    using grant_low [OF ok free(2,4,6)] by metis
  note g1 = ok_grant [OF ok al] and w1 = grant_walk [OF ok al]
  let ?s1 = "s\<lparr>ram := m1\<rparr>"
  have run1: "running kd ?s1" using g1(1) by (simp add: vmm_ok_def)
  have e1: "entry m1 kd i = entry (ram s) kd i" if "i < 1024" for i using that by (intro g1(7)) simp_all
  have tab1: "is_table kd m1 = is_table kd (ram s)" by (rule same_dir(2) [OF e1])
  have ge: "get_entry kd (dir_index va) ?s1 = Inr (entry m1 kd (dir_index va))"
    using get_entry_low [OF run1 running_kd [OF run1] dir_index_bound] by simp
  show ?thesis
  proof (cases "pg_present (entry m1 kd (dir_index va))")
    case True
    with fill_maps [OF g1(1) va _ g1(2,4), where org = s and w = w and us = us and h = "a div 4096"]
      g1 w1 tab1 al la e1 ge keeps_data_grant [OF ok al]
    show ?thesis by (simp add: vmm_get_page_at_def index_and vpmm_allocate_frame_def Let_def)
  next
    case False
    obtain h where h: "frame_exists p h" "\<not> frame_used p h (ram ?s1)" "h < 0x7FF"
      using that [of f] that [of g] free g1(6) by (cases "f = a div 4096") auto
    have np: "\<not> pg_present (entry (ram ?s1) kd (dir_index va))" using False by simp
    obtain t m2 s3 where al2: "pmm_allocate_frame p (ram ?s1) = (t, m2)" "t \<noteq> 0"
      and n: "vmm_new_table kd kd (dir_index va) w us t (?s1\<lparr>ram := m2\<rparr>) = Inr s3" "vmm_ok p kd s3" "pg_present (entry (ram s3) kd (dir_index va))"
      "\<not> frame_used p (t div 4096) (ram ?s1)" "\<forall>f. frame_used p f (ram s3) \<longleftrightarrow> f = t div 4096 \<or> frame_used p f (ram ?s1)"
      "\<forall>u. is_table kd (ram s3) u \<longrightarrow> is_table kd (ram ?s1) u \<or> u = t" "\<forall>x. walk kd (ram s3) x = walk kd (ram ?s1) x \<or> in_window x"
      "keeps_data p kd ?s1 s3" "\<forall>k < 2. entry (ram s3) kd k = entry (ram ?s1) kd k"
      by (rule new_table_step [OF g1(1) va(2) dir_index_bound np h, where w = w and us = us])
    have "\<exists>s'. vmm_fill_page kd kd va a w us s3 = Inr (va, s') \<and> maps_page p kd w us va s s'"
    proof (rule fill_maps [OF n(2) va n(3), where h = "t div 4096"])
      show "\<not> is_table kd (ram s3) a" using n(4,6) tab1 g1(3,6) by auto
      show "keeps_data p kd s s3" using keeps_data_trans [OF keeps_data_grant [OF ok al] n(8)] g1(6) by simp
      show "walk kd (ram s3) x = walk kd (ram s) x \<or> in_window x" for x using spec [OF n(7), of x] w1 [of x] by simp
      show "entry (ram s3) kd i = entry (ram s) kd i" if "i < 2" for i using n(9) e1 [of i] that by simp
    qed (use g1 n(5) la in auto)
    with False al al2 ge n(1) show ?thesis
      by (simp add: vmm_get_page_at_def index_and vpmm_allocate_frame_def Let_def)
  qed
qed

section \<open>Looking up and unmapping a page\<close>

definition ro_entry :: "u32 \<Rightarrow> u32 \<Rightarrow> u32" where
  "ro_entry t e = set_frame_addr (drop_bit 12 t) (set_rw False (set_present True e))"

lemma get_physical_run:
  assumes ok: "vmm_ok p kd s" and i: "2 \<le> dir_index va" "pg_present (entry (ram s) kd (dir_index va))"
  shows "vmm_get_physical_address kd kd va s =
    Inr (page_base (entry (ram s) (table (ram s) kd (dir_index va)) (page_index va)),
      invalidate 0x7FF000 (invalidate 0x7FF000 (s\<lparr>ram := modify_entry (table (ram s) kd 1) 1023
        (\<lambda>e. set_present False (ro_entry (table (ram s) kd (dir_index va)) e)) (ram s)\<rparr>)))"
proof -
  let ?t = "table (ram s) kd (dir_index va)"
  have run: "running kd s" using ok by (simp add: vmm_ok_def)
  have o: "other_frame kd (ram s) ?t" by (rule ok_other [OF ok i(1) dir_index_bound i(2)])
  let ?s2 = "invalidate 0x7FF000 (s\<lparr>ram := modify_entry (table (ram s) kd 1) 1023 (ro_entry ?t) (ram s)\<rparr>)"
  have sh: "shows_frame kd ?t ?s2"
    using o by (intro shows_window [OF run]) (simp_all add: other_frame_def ro_entry_def)
  have e2: "entry (ram ?s2) ?t (page_index va) = entry (ram s) ?t (page_index va)"
    using o by (auto simp: other_frame_def entry_modify)
  have kd: "page_aligned kd" "low_addr kd" using run by simp_all
  have last: "set_entry (table (ram s) kd 1) 1023 (set_present False) ?s2 = Inr (invalidate 0x7FF000 (s\<lparr>ram :=
      modify_entry (table (ram s) kd 1) 1023 (\<lambda>e. set_present False (ro_entry ?t e)) (ram s)\<rparr>))"
    using set_window [OF shows_running [OF sh], of "set_present False"] table1_window [OF run, of 1]
    by (simp add: modify_twice)
  show ?thesis
    using i(2) get_entry_shown [OF sh page_index_bound [of va]] e2 last
    by (simp add: vmm_get_physical_address_def index_and get_entry_low [OF run kd] set_window [OF run]
        window_steps [OF run] ro_entry_def [abs_def] Let_def flip: page_index_def)
qed

lemma free_page_run:
  assumes ok: "vmm_ok p kd s" and i: "2 \<le> dir_index va" "pg_present (entry (ram s) kd (dir_index va))"
  shows "vmm_free_page kd va s = Inr (invalidate va (s\<lparr>ram :=
    modify_entry (table (ram s) kd (dir_index va)) (page_index va) (\<lambda>e. set_frame_addr 0 (set_present False e)) (ram s)\<rparr>))"
proof -
  let ?t = "table (ram s) kd (dir_index va)"
  have run: "running kd s" and low: "low_addr ?t"
    using ok i(2) by (simp_all add: vmm_ok_def tables_ok_def)
  have "vmm_ok p kd (s\<lparr>ram := modify_entry ?t (page_index va) (set_present False) (ram s)\<rparr>)"
    using ok_modify(1) [OF ok dir_index_bound i(2) page_index_bound disjI1 [OF i(1)]] .
  then have run2: "running kd (s\<lparr>ram := modify_entry ?t (page_index va) (set_present False) (ram s)\<rparr>)"
    by (simp add: vmm_ok_def)
  show ?thesis
    using i(2) low
    by (simp add: vmm_free_page_def index_and get_entry_low [OF run] running_kd [OF run] set_entry_low [OF run]
        set_entry_low [OF run2] modify_twice Let_def flip: page_index_def)
qed

section \<open>The kernel's address space after initialisation\<close>

lemma ident_from_walk:
  assumes "page_aligned kd" "low_addr kd" "table m kd 0 \<noteq> kd" "table m kd 1 \<noteq> kd"
    "table m kd 0 \<noteq> table m kd 1" "pg_present (entry m kd 1)" "low_addr (table m kd 1)"
    and "\<And>va. 0x1000 \<le> va \<Longrightarrow> va < 0x800000 \<Longrightarrow> translate kd m va = Some va"
  shows "ident kd m"
  using assms by (auto simp: ident_def low_addr_def word_le_nat_alt word_less_nat_alt)

lemma three_frames_used:
  assumes "pmm_ok p" "three_frames p m a b c m'"
  shows "frame_used p f m' \<longleftrightarrow> f \<in> {a div 4096, b div 4096, c div 4096} \<or> frame_used p f m"
proof -
  obtain m1 m2 where al: "pmm_allocate_frame p m = (a, m1)" "pmm_allocate_frame p m1 = (b, m2)"
      "pmm_allocate_frame p m2 = (c, m')" and nz: "a \<noteq> 0" "b \<noteq> 0" "c \<noteq> 0"
    using assms(2) by (auto simp: three_frames_def)
  then show ?thesis
    using pm.alloc_grants [OF assms(1) al(1) nz(1)] pm.alloc_grants [OF assms(1) al(2) nz(2)]
      pm.alloc_grants [OF assms(1) al(3) nz(3)] by auto
qed

lemma paging_init_frame:
  assumes "pmm_ok p" "three_frames p m kd pt pt2 m3" "paging_init sec tables h p u m = (d, u', m')"
    and "x \<notin> bytes kd 4096" "x \<notin> bytes pt 4096" "x \<notin> bytes pt2 4096"
    and "fits (cpu_exception_handlers tables + 56) 4" "x \<notin> bytes (cpu_exception_handlers tables + 56) 4"
  shows "m' x = m3 x"
proof -
  have "register_cpu_handler tables 14 h n x = n x" for n
    using assms(7,8) by (simp add: register_cpu_handler_def set_handler_def bytes_def store32_frame)
  then show ?thesis
    using paging_init_run [OF assms(2), of sec tables h u] three_frames_fresh [OF assms(1,2)] assms(3-6)
    by (auto simp: modify_entry_frame fold_modify_frame kmemset_page)
qed

lemma paging_init_vmm_ok:
  assumes pok: "pmm_ok p" and f3: "three_frames p m kd pt pt2 m3"
    and sl: "slot_outside tables kd" "slot_outside tables pt" "slot_outside tables pt2"
    and run: "paging_init sec tables h p u m = (d, u', m')"
    and low: "low_addr kd" "low_addr pt" "low_addr pt2"
    and res: "bitmap_reserved p m" "frame_used p 0 m"
    and slot: "\<And>x. in_storage (frame_bitmap p) x \<Longrightarrow> x \<notin> bytes (cpu_exception_handlers tables + 56) 4"
  shows "vmm_ok p kd \<lparr>ram = m', regs = u'\<rparr>"
proof -
  note fr = three_frames_fresh [OF pok f3] and e = paging_init_entries [OF pok f3 sl run]
    and us = three_frames_used [OF pok f3]
  have nu: "\<not> frame_used p (t div 4096) m" if "t \<in> {kd, pt, pt2}" for t
  proof -
    obtain m1 m2 where al: "pmm_allocate_frame p m = (kd, m1)" "pmm_allocate_frame p m1 = (pt, m2)"
        "pmm_allocate_frame p m2 = (pt2, m3)" and nz: "kd \<noteq> 0" "pt \<noteq> 0" "pt2 \<noteq> 0"
      using f3 by (auto simp: three_frames_def)
    then show ?thesis
      using pm.alloc_grants [OF pok al(1) nz(1)] pm.alloc_grants [OF pok al(2) nz(2)]
        pm.alloc_grants [OF pok al(3) nz(3)] that by auto
  qed
  have ap: "bitmap_apart p t" if "t \<in> {kd, pt, pt2}" for t
    using that nu [OF that] fr res(1) page_div [of t] unfolding bitmap_apart_def bitmap_reserved_def by auto
  have st: "m' x = m3 x" if x: "in_storage (frame_bitmap p) x" for x
    using ap x slot [OF x] sl(1) by (intro paging_init_frame [OF pok f3 run]) (auto simp: bitmap_apart_def slot_outside_def)
  have used: "frame_used p f m' = frame_used p f m3" for f by (rule frame_used_cong [OF pok st])
  have t01: "table m' kd 0 = pt" "table m' kd 1 = pt2" "pg_present (entry m' kd 1)"
    using fr by (simp_all add: e)
  have "translate kd m' va = Some va" if "0x1000 \<le> va" "va < 0x800000" for va
    using that by (simp add: paging_init_translate [OF pok f3 sl run])
  then have id: "ident kd m'" using fr low by (intro ident_from_walk) (simp_all add: t01)
  have tok: "tables_ok kd m'" using fr low unfolding tables_ok_def by (auto simp: e)
  have tabs: "is_table kd m' t \<Longrightarrow> t \<in> {kd, pt, pt2}" for t
    using fr by (auto simp: is_table_def e split: if_splits)
  show ?thesis
    unfolding vmm_ok_def running_def bitmap_reserved_def
    using id tok pok res tabs ap e(2) [of 0] us used by (auto simp: bitmap_reserved_def)
qed

definition demo_tables :: isr_tables where
  "demo_tables = \<lparr>cpu_exception_handlers = 0x107000, irq_handlers = 0x107080, syscall_handlers = 0x1070C0\<rparr>"

definition demo_sections :: sections where
  "demo_sections = \<lparr>text_start = 0x100000, rodata_start = 0x105000, data_start = 0x106000\<rparr>"

text \<open>A machine whose bitmap ends at \<open>0x401000\<close>: the first frames granted are the next three.\<close>

lemma demo_boot:
  assumes lay: "pmm_layout nbytes start" and start: "0x400000 \<le> unat start"
    and fin: "unat start + 4 * ((unat nbytes div 4096 + 31) div 32) = 0x401000" and big: "0x404 \<le> unat nbytes div 4096"
  obtains p m' u' where "vmm_ok p 0x401000 \<lparr>ram = m', regs = u'\<rparr>"
    "\<forall>f. frame_exists p f \<longleftrightarrow> unat f < unat nbytes div 4096" "\<forall>f. frame_used p f m' \<longleftrightarrow> unat f < 0x404"
    "\<forall>i < 1024. 2 \<le> i \<longrightarrow> entry m' 0x401000 i = 0" "walk 0x401000 m' 0 = None"
proof -
  obtain nxt p m where init: "pmm_init nbytes start (\<lambda>_. 0) = (nxt, p, m)" by (metis prod_cases3)
  note parts = pmm_init_parts [OF lay init]
  have nxt: "nxt = 0x401000"
    using parts(1,3) fin by (simp add: word_unat_eq_iff bitmap_words_def unat_div)
  obtain m3 where f: "three_frames p m 0x401000 0x402000 0x403000 m3"
    using pmm_init_three_frames [OF lay init] big unfolding nxt by (auto simp: unat_div)
  have sl: "slot_outside demo_tables 0x401000" "slot_outside demo_tables 0x402000" "slot_outside demo_tables 0x403000"
    by (auto simp: slot_outside_def demo_tables_def fits_def bytes_def in_range_def)
  obtain kd u' m' where r: "paging_init demo_sections demo_tables 0x100040 p \<lparr>cr0 = 0x11, cr3 = 0, invalidated = []\<rparr> m =
      (kd, u', m')" by (metis prod_cases3)
  have stor: "0x400000 \<le> unat x \<and> unat x < 0x401000" if "in_storage (frame_bitmap p) x" for x
    using that parts(1,3) nxt start unfolding in_storage_def in_range_def by simp
  have used: "frame_used p g m \<longleftrightarrow> unat g < 0x401" for g
    using big by (auto simp: pmm_init_used [OF lay init] nxt word_less_nat_alt unat_div)
  have res: "bitmap_reserved p m"
    unfolding bitmap_reserved_def used using stor by (fastforce simp: unat_div)
  have slot: "x \<notin> bytes (cpu_exception_handlers demo_tables + 56) 4" if "in_storage (frame_bitmap p) x" for x
    using stor [OF that] by (auto simp: demo_tables_def bytes_def in_range_def)
  have low: "low_addr 0x401000" "low_addr 0x402000" "low_addr 0x403000" by (simp_all add: low_addr_def)
  have ok: "vmm_ok p 0x401000 \<lparr>ram = m', regs = u'\<rparr>"
    using paging_init_vmm_ok [OF parts(4) f sl r low res _ slot] used by simp
  have ex: "\<forall>g. frame_exists p g \<longleftrightarrow> unat g < unat nbytes div 4096"
    by (simp add: frame_exists_def parts(1) word_less_nat_alt unat_div)
  have "m' x = m3 x" if "in_storage (frame_bitmap p) x" for x
    using stor [OF that] slot [OF that] sl(1) by (intro paging_init_frame [OF parts(4) f r])
      (auto simp: bytes_def in_range_def slot_outside_def)
  then have "frame_used p g m' = frame_used p g m3" for g by (rule frame_used_cong [OF parts(4)])
  then have "frame_used p g m' \<longleftrightarrow> unat g \<in> {0x401, 0x402, 0x403} \<or> unat g < 0x401" for g
    using three_frames_used [OF parts(4) f, of g] used [of g] by (simp add: word_unat_eq_iff)
  moreover have "n \<in> {0x401, 0x402, 0x403} \<or> n < 0x401 \<longleftrightarrow> n < 0x404" for n :: nat by auto
  ultimately have us: "\<forall>g. frame_used p g m' \<longleftrightarrow> unat g < 0x404" by simp
  have "\<forall>i < 1024. 2 \<le> i \<longrightarrow> entry m' 0x401000 i = 0"
    using paging_init_entries(4) [OF parts(4) f sl r] by auto
  moreover have "translate 0x401000 m' 0 = None" using paging_init_translate [OF parts(4) f sl r, of 0] by simp
  then have "walk 0x401000 m' 0 = None" by (simp add: translate_def)
  ultimately show ?thesis using that ok ex us by blast
qed

lemma demo_vmm:
  assumes lay: "pmm_layout nbytes start" and start: "0x400000 \<le> unat start"
    and fin: "unat start + 4 * ((unat nbytes div 4096 + 31) div 32) = 0x401000" and big: "0x404 \<le> unat nbytes div 4096"
  obtains p m' u' where "vmm_ok p 0x401000 \<lparr>ram = m', regs = u'\<rparr>"
    "\<forall>f. frame_exists p f \<longleftrightarrow> unat f < unat nbytes div 4096" "\<forall>f. frame_used p f m' \<longleftrightarrow> unat f < 0x404"
    "\<forall>i < 1024. 2 \<le> i \<longrightarrow> entry m' 0x401000 i = 0"
  by (rule demo_boot [OF assms]) (rule that)

lemma demo_128: 
  obtains p m' u' where "vmm_ok p 0x401000 \<lparr>ram = m', regs = u'\<rparr>"
    "frame_exists p 0x404" "frame_exists p 0x405" "\<not> frame_used p 0x404 m'" "\<not> frame_used p 0x405 m'"
    "\<forall>i < 1024. 2 \<le> i \<longrightarrow> entry m' 0x401000 i = 0"
proof -
  have lay: "pmm_layout 0x8000000 0x400000" by (simp add: pmm_layout_def aligned4_def)
  show ?thesis by (rule demo_vmm [OF lay]) (auto intro: that)
qed

text \<open>Taking more frames leaves the address space alone.\<close>

lemma fill_frames:
  assumes "vmm_ok p kd s" "0 < n" "n + k \<le> N" "\<forall>f. frame_exists p f \<longleftrightarrow> unat f < N"
    "\<forall>f. frame_used p f (ram s) \<longleftrightarrow> unat f < n"
  shows "\<exists>m'. vmm_ok p kd (s\<lparr>ram := m'\<rparr>) \<and> (\<forall>f. frame_used p f m' \<longleftrightarrow> unat f < n + k) \<and>
    (\<forall>i < 1024. entry m' kd i = entry (ram s) kd i) \<and> (\<forall>x. walk kd m' x = walk kd (ram s) x)"
  using assms(3)
proof (induction k)
  case 0
  have "s\<lparr>ram := ram s\<rparr> = s" by simp
  with assms(1,5) show ?case by (intro exI [of _ "ram s"]) simp
next
  case (Suc k)
  then obtain m where m: "vmm_ok p kd (s\<lparr>ram := m\<rparr>)" "\<forall>f. frame_used p f m \<longleftrightarrow> unat f < n + k"
      "\<forall>i < 1024. entry m kd i = entry (ram s) kd i" "\<forall>x. walk kd m x = walk kd (ram s) x" by auto
  have pok: "pmm_ok p" using assms(1) by (simp add: vmm_ok_def)
  from pok obtain f where f: "frame_exists p f" "\<not> frame_used p f m" "\<forall>h<f. frame_used p h m"
      "pmm_allocate_frame p m = (f * 4096, bitmap_set (frame_bitmap p) f m)"
  proof (cases rule: pmm_allocate_cases [where m = m])
    case full
    have "unat (U32 (n + k)) = n + k"
    proof (rule unat_of_nat_u32)
      have "\<not> 4294967296 \<le> n + k"
      proof
        assume "4294967296 \<le> n + k"
        then have "frame_exists p 0x100000" using assms(4) Suc.prems by simp
        then show False using pok by (auto simp: pmm_ok_def frame_exists_def word_less_nat_alt)
      qed
      then show "n + k < 4294967296" by simp
    qed
    then have "frame_exists p (U32 (n + k))" "\<not> frame_used p (U32 (n + k)) m"
      using assms(4) m(2) Suc.prems by simp_all
    with full show ?thesis by blast
  next
    case (grant f)
    then show ?thesis using that by blast
  qed
  have fn: "unat f = n + k"
  proof -
    have "n + k \<le> unat f" using f(2) m(2) by simp
    moreover have "\<not> n + k < unat f"
    proof
      assume "n + k < unat f"
      then have u: "unat (U32 (n + k)) = n + k" using unat_u32_bound [of f] by (intro unat_of_nat_u32) simp
      have "U32 (n + k) < f" unfolding word_less_nat_alt u by fact
      with f(3) m(2) have "unat (U32 (n + k)) < n + k" by blast
      then show False unfolding u by simp
    qed
    ultimately show ?thesis by simp
  qed
  have nz: "f * 4096 \<noteq> 0" using frame_address(3) [OF pok f(1)] fn assms(2) by (auto simp: word_unat_eq_iff)
  note g = ok_grant [OF m(1) _ nz, simplified, OF f(4)]
  have "frame_used p h (bitmap_set (frame_bitmap p) f m) \<longleftrightarrow> unat h < n + Suc k" for h
    using m(2) fn by (auto simp: frame_used_set [OF pok f(1)] word_unat_eq_iff)
  moreover have "entry (bitmap_set (frame_bitmap p) f m) kd i = entry (ram s) kd i" if "i < 1024" for i
    using g(7) [of kd i] m(3) that by simp
  moreover have "walk kd (bitmap_set (frame_bitmap p) f m) x = walk kd (ram s) x" for x
    using grant_walk [OF m(1) _ nz, simplified, OF f(4)] m(4) by simp
  ultimately show ?case using g(1) by blast
qed

text \<open>The first slot of an address space without tables past the identity mapping.\<close>

lemma first_slot:
  assumes "running kd s" "\<not> pg_present (entry (ram s) kd 2)"
  shows "vmm_get_new_page p kd kd w us 0 s = vmm_get_page_at p kd kd w us 0x800000 s"
proof -
  have "get_entry kd 2 s = Inr (entry (ram s) kd 2)"
    using get_entry_low [OF assms(1) running_kd [OF assms(1)], of 2] by simp
  with assms(2) have "find_slot kd [2..<1024] s = Inr (Some 0x800000)"
    by (subst upt_conv_Cons, simp) (simp add: push_bit_eq_mult)
  then show ?thesis by (simp add: vmm_get_new_page_def)
qed

lemma slot2: "page_aligned 0x800000" "dir_index 0x800000 = 2" "page_index 0x800000 = 0"
  by (simp_all add: page_aligned_def dir_index_div page_index_div)

section \<open>Properties\<close>

lemma get_new_page_run:
  assumes "vmm_ok p kd s" "f \<noteq> g" "frame_exists p f" "frame_exists p g"
    "\<not> frame_used p f (ram s)" "\<not> frame_used p g (ram s)" "f < 0x7FF" "g < 0x7FF"
  shows "\<exists>va s'. vmm_get_new_page p kd kd w us 0 s = Inr (va, s') \<and>
    (va = 0 \<and> s' = s \<and> (\<forall>x. \<not> free_slot kd (ram s) x) \<or> free_slot kd (ram s) va \<and> maps_page p kd w us va s s')"
proof -
  obtain r where r: "find_slot kd [2..<1024] s = Inr r" "\<forall>va. r = Some va \<longrightarrow> free_slot kd (ram s) va"
      "r = None \<longrightarrow> (\<forall>va. dir_index va \<in> {2..<1024} \<longrightarrow> \<not> free_slot kd (ram s) va)"
    using find_slot_run [OF assms(1), of "[2..<1024]"] by auto
  show ?thesis
  proof (cases r)
    case None
    then have "\<not> free_slot kd (ram s) va" for va using r(3) by (auto simp: free_slot_def)
    with None r(1) show ?thesis by (simp add: vmm_get_new_page_def)
  next
    case (Some va)
    then have v: "free_slot kd (ram s) va" using r by blast
    then have "page_aligned va" "2 \<le> dir_index va" by (simp_all add: free_slot_def)
    from get_page_at_maps [OF assms(1) this assms(2-), of w us] obtain s' where
      "vmm_get_page_at p kd kd w us va s = Inr (va, s')" "maps_page p kd w us va s s'" by blast
    with r Some v show ?thesis by (auto simp: vmm_get_new_page_def)
  qed
qed

text \<open>C9: a new kernel page.  While two frames below the window are free, asking for a page at any
  address neither faults nor breaks the address space.  It returns either NULL, and then
  changes nothing and no page of the searched area is free, or the aligned address of a page that was
  not mapped, outside the first 8 MB and the process area; the page is then backed by a frame that was
  free, with the access rights asked for, the address was invalidated, and no other translation
  changed except those of the temporary window's page \<open>0x7FF000\<close>, which is left unmapped even when it was
  mapped before.\<close>

theorem vmm_get_new_page_maps:
  assumes "vmm_ok p kd s" "f \<noteq> g" "frame_exists p f" "frame_exists p g"
    "\<not> frame_used p f (ram s)" "\<not> frame_used p g (ram s)" "f < 0x7FF" "g < 0x7FF"
  shows "\<exists>va s'. vmm_get_new_page p kd kd w us 0 s = Inr (va, s') \<and>
    (va = 0 \<and> s' = s \<and>
     (\<forall>x. page_aligned x \<longrightarrow> 2 \<le> dir_index x \<longrightarrow> dir_index x \<notin> {768, 769} \<longrightarrow> walk kd (ram s) x \<noteq> None) \<or>
     page_aligned va \<and> 2 \<le> dir_index va \<and> dir_index va \<notin> {768, 769} \<and> walk kd (ram s) va = None \<and>
     maps_page p kd w us va s s')"
proof -
  obtain va s' where r: "vmm_get_new_page p kd kd w us 0 s = Inr (va, s')"
    "va = 0 \<and> s' = s \<and> (\<forall>x. \<not> free_slot kd (ram s) x) \<or> free_slot kd (ram s) va \<and> maps_page p kd w us va s s'"
    using get_new_page_run [OF assms, of w us] by metis
  show ?thesis
  proof (intro exI conjI)
    show "va = 0 \<and> s' = s \<and>
     (\<forall>x. page_aligned x \<longrightarrow> 2 \<le> dir_index x \<longrightarrow> dir_index x \<notin> {768, 769} \<longrightarrow> walk kd (ram s) x \<noteq> None) \<or>
     page_aligned va \<and> 2 \<le> dir_index va \<and> dir_index va \<notin> {768, 769} \<and> walk kd (ram s) va = None \<and>
     maps_page p kd w us va s s'"
      using r(2) by (auto simp: free_slot_def)
  qed (rule r(1))
qed

theorem vmm_get_new_page_maps_witness:
  "\<exists>p s. vmm_ok p 0x401000 s \<and> (\<exists>va s'. vmm_get_new_page p 0x401000 0x401000 True False 0 s = Inr (va, s') \<and>
     va \<noteq> 0 \<and> maps_page p 0x401000 True False va s s')"
proof -
  obtain p m' u' where d: "vmm_ok p 0x401000 \<lparr>ram = m', regs = u'\<rparr>"
    "frame_exists p 0x404" "frame_exists p 0x405" "\<not> frame_used p 0x404 m'" "\<not> frame_used p 0x405 m'"
    "\<forall>i < 1024. 2 \<le> i \<longrightarrow> entry m' 0x401000 i = 0" by (rule demo_128)
  let ?s = "\<lparr>ram = m', regs = u'\<rparr>"
  have run: "running 0x401000 ?s" using d(1) by (simp add: vmm_ok_def)
  have n: "vmm_get_new_page p 0x401000 0x401000 True False 0 ?s =
      vmm_get_page_at p 0x401000 0x401000 True False 0x800000 ?s"
    using d(6) by (intro first_slot [OF run]) simp
  from get_page_at_maps [OF d(1) slot2(1), of "0x404" "0x405"] d(2-5) n obtain s' where
    "vmm_get_new_page p 0x401000 0x401000 True False 0 ?s = Inr (0x800000, s')" by (auto simp: slot2)
  with vmm_get_new_page_maps [OF d(1), of "0x404" "0x405" True False] d(1-5) show ?thesis
    by (intro exI [of _ p] exI [of _ ?s]) auto
qed

text \<open>C10: round trip.  For a kernel page just obtained, the physical address looked up for it is
  the frame that backs it, and freeing it restores every translation the address space had
  before outside the temporary window's page \<open>0x7FF000\<close>; that page is left unmapped even when it was mapped before,
  and the frame itself stays taken.\<close>

theorem vmm_page_roundtrip:
  assumes "vmm_ok p kd s" "page_aligned va" "2 \<le> dir_index va" "walk kd (ram s) va = None"
    and "maps_page p kd w us va s s'"
  shows "\<exists>a t r. vmm_get_physical_address kd kd va s' = Inr (a, t) \<and>
    translate kd (ram s') va = Some a \<and> \<not> frame_used p (a div 4096) (ram s) \<and>
    vmm_free_page kd va t = Inr r \<and> vmm_ok p kd r \<and> frame_used p (a div 4096) (ram r) \<and>
    (\<forall>x. walk kd (ram r) x = (if in_window x then None else walk kd (ram s) x))"
proof -
  obtain e where ok: "vmm_ok p kd s'" and e: "\<not> frame_used p (page_base e div 4096) (ram s)"
      "frame_used p (page_base e div 4096) (ram s')"
      and w: "\<And>x. walk kd (ram s') x = (if in_window x then None else if page_start x = va then Some e else walk kd (ram s) x)"
    using assms(5) unfolding maps_page_def by blast
  have va: "page_start va = va" "\<not> in_window va" "va AND 0xFFF = 0"
    using assms(2,3) page_start_split [of va] by (simp_all add: page_start_def in_window_def)
  then have we: "walk kd (ram s') va = Some e" using w by simp
  then have pr: "pg_present (entry (ram s') kd (dir_index va))"
      and et: "entry (ram s') (table (ram s') kd (dir_index va)) (page_index va) = e"
    by (auto simp: walk_seen seen_def split: if_splits)
  let ?t = "table (ram s') kd (dir_index va)" and ?p1 = "table (ram s') kd 1"
  let ?g = "\<lambda>e. set_present False (ro_entry ?t e)"
  let ?m2 = "modify_entry ?p1 1023 ?g (ram s')"
  let ?s2 = "invalidate 0x7FF000 (invalidate 0x7FF000 (s'\<lparr>ram := ?m2\<rparr>))"
  note c = ok_modify [OF ok _ ok_dir01(2) [OF ok], where j = 1023 and g = ?g]
  have ok2: "vmm_ok p kd ?s2" using c(1) by simp
  have d2: "entry ?m2 kd (dir_index va) = entry (ram s') kd (dir_index va)" using c(5) by simp
  then have pr2: "pg_present (entry (ram ?s2) kd (dir_index va))" using pr by simp
  note fr = free_page_run [OF ok2 assms(3) pr2]
    and f = ok_modify [OF ok2 dir_index_bound pr2 page_index_bound [of va] disjI1 [OF assms(3)],
      where g = "\<lambda>e. set_frame_addr 0 (set_present False e)"]
  let ?s3 = "invalidate va (?s2\<lparr>ram := modify_entry ?t (page_index va) (\<lambda>e. set_frame_addr 0 (set_present False e)) ?m2\<rparr>)"
  have f2: "walk kd (ram ?s3) x = (if page_start x = va then None else walk kd ?m2 x)" for x
    using f(2) [of x] d2 page_index_eq [OF assms(2), of x] by (simp add: seen_def)
  have c2: "walk kd ?m2 x = (if in_window x then None else walk kd (ram s') x)" for x
    using c(2) [of x] by (simp add: in_window_def seen_def)
  have old: "walk kd (ram s) x = None" if "page_start x = va" for x
    using that assms(4) page_index_eq [OF assms(2), of x] by (simp add: walk_seen split: if_splits)
  have walk3: "walk kd (ram ?s3) x = (if in_window x then None else walk kd (ram s) x)" for x
    using f2 [of x] c2 [of x] w [of x] old [of x] by auto
  have "vmm_free_page kd va ?s2 = Inr ?s3" using fr d2 by simp
  moreover have "vmm_ok p kd ?s3" using f(1) d2 by simp
  moreover have "frame_used p (page_base e div 4096) (ram ?s3)" using f(3) c(3) e(2) d2 by simp
  moreover have "translate kd (ram s') va = Some (page_base e)" using we va(3) by (simp add: translate_def)
  ultimately show ?thesis
    using get_physical_run [OF ok assms(3) pr] e(1) walk3 unfolding et by blast
qed

theorem vmm_page_roundtrip_witness:
  "\<exists>p s s' a t. vmm_ok p 0x401000 s \<and> vmm_get_new_page p 0x401000 0x401000 True False 0 s = Inr (0x800000, s') \<and>
     vmm_get_physical_address 0x401000 0x401000 0x800000 s' = Inr (a, t) \<and> \<not> frame_used p (a div 4096) (ram s)"
proof -
  obtain p m' u' where d: "vmm_ok p 0x401000 \<lparr>ram = m', regs = u'\<rparr>"
    "frame_exists p 0x404" "frame_exists p 0x405" "\<not> frame_used p 0x404 m'" "\<not> frame_used p 0x405 m'"
    "\<forall>i < 1024. 2 \<le> i \<longrightarrow> entry m' 0x401000 i = 0" by (rule demo_128)
  let ?s = "\<lparr>ram = m', regs = u'\<rparr>"
  have run: "running 0x401000 ?s" using d(1) by (simp add: vmm_ok_def)
  have n: "vmm_get_new_page p 0x401000 0x401000 True False 0 ?s =
      vmm_get_page_at p 0x401000 0x401000 True False 0x800000 ?s"
    using d(6) by (intro first_slot [OF run]) simp
  from get_page_at_maps [OF d(1) slot2(1), of "0x404" "0x405"] d(2-5) n obtain s' where
    s': "vmm_get_new_page p 0x401000 0x401000 True False 0 ?s = Inr (0x800000, s')"
      "maps_page p 0x401000 True False 0x800000 ?s s'" by (auto simp: slot2)
  have "walk 0x401000 (ram ?s) 0x800000 = None" using d(6) by (simp add: walk_seen slot2)
  from vmm_page_roundtrip [OF d(1) slot2(1) _ this s'(2)] d(1) s'(1) show ?thesis
    by (intro exI [of _ p] exI [of _ ?s] exI [of _ s']) (auto simp: slot2)
qed

text \<open>C20: a frame is lost when the page table cannot be allocated.  When exactly one frame is left and the
  chosen slot needs a new table, the call returns NULL and maps nothing, but the frame it took
  for the page stays marked as used.\<close>

theorem vmm_get_new_page_leaks:
  assumes "vmm_ok p kd s" "\<not> pg_present (entry (ram s) kd 2)"
    and "frame_exists p f" "\<not> frame_used p f (ram s)" "\<forall>g. frame_exists p g \<and> g \<noteq> f \<longrightarrow> frame_used p g (ram s)"
  shows "\<exists>s'. vmm_get_new_page p kd kd w us 0 s = Inr (0, s') \<and> frame_used p f (ram s') \<and>
    (\<forall>x. walk kd (ram s') x = walk kd (ram s) x)"
proof -
  have run: "running kd s" and pok: "pmm_ok p" and u0: "frame_used p 0 (ram s)" using assms(1) by (simp_all add: vmm_ok_def)
  have lt: "frame_used p g (ram s)" if "g < f" for g
  proof -
    have "frame_exists p g" using that assms(3) by (auto simp: frame_exists_def)
    with assms(5) that show ?thesis by auto
  qed
  let ?m = "bitmap_set (frame_bitmap p) f (ram s)"
  have al: "pmm_allocate_frame p (ram s) = (f * 4096, ?m)"
    using lt by (intro pmm_allocate_first assms(3,4)) blast
  have nz: "f * 4096 \<noteq> 0" using assms(3,4) u0 frame_address(3) [OF pok] by blast
  note g = ok_grant [OF assms(1) al nz] and w = grant_walk [OF assms(1) al nz]
  have "frame_used p h ?m" if "frame_exists p h" for h
    using that assms(5) by (cases "h = f") (auto simp: frame_used_set [OF pok assms(3)])
  then have full: "pmm_allocate_frame p ?m = (0, ?m)" by (rule pmm_allocate_full)
  have run1: "running kd (s\<lparr>ram := ?m\<rparr>)" using g(1) by (simp add: vmm_ok_def)
  have "entry ?m kd 2 = entry (ram s) kd 2" using g(7) [of kd 2] by simp
  then have ge: "get_entry kd 2 (s\<lparr>ram := ?m\<rparr>) = Inr (entry (ram s) kd 2)"
    using get_entry_low [OF run1 running_kd [OF run1], of 2] by simp
  have "vmm_get_new_page p kd kd w us 0 s = Inr (0, s\<lparr>ram := ?m\<rparr>)"
    unfolding first_slot [OF run assms(2)] vmm_get_page_at_def index_and slot2(2)
    using al full ge nz assms(2) by (simp add: vpmm_allocate_frame_def Let_def)
  then show ?thesis using w by (simp add: frame_used_set [OF pok assms(3)])
qed

theorem vmm_get_new_page_leaks_witness:
  "\<exists>p s s'. vmm_ok p 0x401000 s \<and> \<not> frame_used p 0x404 (ram s) \<and>
     vmm_get_new_page p 0x401000 0x401000 True False 0 s = Inr (0, s') \<and> frame_used p 0x404 (ram s')"
proof -
  have lay: "pmm_layout 0x405000 0x400F7C" by (simp add: pmm_layout_def aligned4_def)
  obtain p m' u' where d: "vmm_ok p 0x401000 \<lparr>ram = m', regs = u'\<rparr>"
    "\<forall>f. frame_exists p f \<longleftrightarrow> unat f < unat (0x405000 :: u32) div 4096" "\<forall>f. frame_used p f m' \<longleftrightarrow> unat f < 0x404"
    "\<forall>i < 1024. 2 \<le> i \<longrightarrow> entry m' 0x401000 i = 0"
    by (rule demo_vmm [OF lay]) simp_all
  have "\<forall>g. frame_exists p g \<and> g \<noteq> 0x404 \<longrightarrow> frame_used p g m'"
    using d(2,3) by (auto simp: word_unat_eq_iff)
  with vmm_get_new_page_leaks [OF d(1), of "0x404" True False] d obtain s' where
    "vmm_get_new_page p 0x401000 0x401000 True False 0 \<lparr>ram = m', regs = u'\<rparr> = Inr (0, s')"
    "frame_used p 0x404 (ram s')" "\<not> frame_used p 0x404 (ram \<lparr>ram = m', regs = u'\<rparr>)" by auto
  with d(1) show ?thesis by blast
qed

lemma fill_effect:
  fixes g :: "u32 \<Rightarrow> u32"
  assumes run: "running kd s" and o: "other_frame kd (ram s) t" and j: "j < 1024"
  defines "m' \<equiv> through_window kd t (modify_entry t j g) (ram s)"
  shows "ident kd m'" "\<And>k. k < 1024 \<Longrightarrow> entry m' kd k = entry (ram s) kd k"
    "\<And>k. k < 1024 \<Longrightarrow> entry m' t k = (if k = j then g (entry (ram s) t k) else entry (ram s) t k)"
proof -
  let ?m = "ram s"
  have e: "entry m' u k = (if u = table ?m kd 1 \<and> k = 1023 then set_present False (window_entry t (entry ?m u k))
      else if u = t \<and> k = j then g (entry ?m u k) else entry ?m u k)" if "page_aligned u" "k < 1024" for u k
    unfolding m'_def using o that j by (subst entry_through_modify) (simp_all add: other_frame_def)
  note p1 = pt1_low [OF run]
  show d: "entry m' kd k = entry ?m kd k" if "k < 1024" for k
    using e [of kd k] that run o p1(3) by (auto simp: other_frame_def)
  show "entry m' t k = (if k = j then g (entry ?m t k) else entry ?m t k)" if "k < 1024" for k
    using e [of t k] that o by (auto simp: other_frame_def)
  have id: "ident kd ?m" using run by (simp add: running_def)
  show "ident kd m'"
  proof (rule ident_eqI [OF id])
    show "entry m' (table ?m kd 0) j = entry ?m (table ?m kd 0) j" if "j < 1024" for j
      using that o p1 by (simp add: e other_frame_def) auto
    show "entry m' (table ?m kd 1) j = entry ?m (table ?m kd 1) j" if "j < 1023" for j
      using that o by (simp add: e other_frame_def) auto
  qed (simp_all add: d)
qed

lemma page_with_new_table:
  assumes ok: "vmm_ok p kd s" and np: "\<not> pg_present (entry (ram s) kd 2)"
    and al: "pmm_allocate_frame p (ram s) = (a, m)" "a \<noteq> 0" "pmm_allocate_frame p m = (t, n)" "t \<noteq> 0"
  obtains s' where "vmm_get_new_page p kd kd w us 0 s = Inr (0x800000, s')" "running kd s'" "page_aligned t"
    "\<And>k. k < 1024 \<Longrightarrow> entry (ram s') kd k = (if k = 2 then page_word w us t (entry (ram s) kd 2) else entry (ram s) kd k)"
    "\<And>k. k < 1024 \<Longrightarrow> entry (ram s') t k = (if k = 0 then page_word w us a 0 else 0)"
proof -
  have run: "running kd s" using ok by (simp add: vmm_ok_def)
  note g1 = ok_grant [OF ok al(1,2)]
  have al2: "pmm_allocate_frame p (ram (s\<lparr>ram := m\<rparr>)) = (t, n)" using al(3) by simp
  note g2 = ok_grant [OF g1(1) al2 al(4)]
  let ?s2 = "s\<lparr>ram := n\<rparr>"
  have ok2: "vmm_ok p kd ?s2" using g2(1) by simp
  have run1: "running kd (s\<lparr>ram := m\<rparr>)" and run2: "running kd ?s2" using g1(1) ok2 by (simp_all add: vmm_ok_def)
  have em: "entry m kd k = entry (ram s) kd k" if "k < 1024" for k using g1(7) [of kd k] that by simp
  have en: "entry n kd k = entry (ram s) kd k" if "k < 1024" for k using g2(7) [of kd k] that em by simp
  have "is_table kd n = is_table kd m" by (rule same_dir(2)) (simp add: em en)
  then have o: "other_frame kd (ram ?s2) t"
    using g2(2,3) ok_dir01 [OF ok2] is_tableI(2) [of 0 n kd] is_tableI(2) [of 1 n kd] by (auto simp: other_frame_def)
  define m3 where "m3 = through_window kd t (\<lambda>m. snd (kmemset t 0 4096 m)) (modify_entry kd 2 (page_word w us t) n)"
  have l: "2 \<le> (2 :: nat)" "2 < (1024 :: nat)" by simp_all
  note ne = new_table_effect [OF run2 l o, where w = w and us = us, simplified, folded m3_def]
  let ?s3 = "invalidate 0x7FF000 (invalidate 0x7FF000 (s\<lparr>ram := m3\<rparr>))"
  have run3: "running kd ?s3" using run ne(1) by (simp add: running_def)
  have new: "vmm_new_table kd kd 2 w us t ?s2 = Inr ?s3"
    using new_table_run [OF run2 l o, of w us] by (simp add: m3_def)
  have t3: "table m3 kd 2 = t" "table m3 kd 0 = table n kd 0" "table m3 kd 1 = table n kd 1"
    using ne(2) g2(2) by simp_all
  then have o3: "other_frame kd (ram ?s3) t" using o by (simp add: other_frame_def)
  have t3': "t = table (ram ?s3) kd (dir_index 0x800000)" using t3 by (simp add: slot2)
  define m4 where "m4 = through_window kd t (modify_entry t 0 (page_word w us a)) m3"
  let ?s4 = "invalidate 0x800000 (invalidate 0x7FF000 (invalidate 0x7FF000 (?s3\<lparr>ram := m4\<rparr>)))"
  have fill: "vmm_fill_page kd kd 0x800000 a w us ?s3 = Inr (0x800000, ?s4)"
    using fill_page_run [OF run3 o3 t3', of a w us] by (simp add: slot2 m4_def)
  have ge: "get_entry kd 2 (s\<lparr>ram := m\<rparr>) = Inr (entry (ram s) kd 2)"
    using get_entry_low [OF run1 running_kd [OF run1], of 2] em by simp
  have first: "vmm_get_new_page p kd kd w us 0 s = Inr (0x800000, ?s4)"
    unfolding first_slot [OF run np] vmm_get_page_at_def index_and slot2(2)
    using al al2 ge new fill np by (simp add: vpmm_allocate_frame_def Let_def)
  note fe = fill_effect [OF run3 o3, where j = 0 and g = "page_word w us a", simplified, folded m4_def]
  show ?thesis
  proof (rule that [OF first])
    show "running kd ?s4" using run fe(1) by (simp add: running_def)
    show "page_aligned t" using o by (simp add: other_frame_def)
    show "entry (ram ?s4) kd k = (if k = 2 then page_word w us t (entry (ram s) kd 2) else entry (ram s) kd k)" if "k < 1024" for k
      using fe(2) ne(2) en that by simp
    show "entry (ram ?s4) t k = (if k = 0 then page_word w us a 0 else 0)" if "k < 1024" for k
      using that fe(3) ne(4) by simp
  qed
qed

lemma search_faults:
  assumes "running kd s" "pg_present (entry (ram s) kd 2)" "table (ram s) kd 2 = t" "translate kd (ram s) t = None"
  shows "vmm_get_new_page p kd kd w us 0 s = Inl (PageFault t)"
proof -
  have fault: "get_entry t 0 s = Inl (PageFault t)"
    using assms(1,4) by (simp add: get_entry_def resolve_def running_def)
  have g: "get_entry kd 2 s = Inr (entry (ram s) kd 2)"
    using get_entry_low [OF assms(1) running_kd [OF assms(1)], of 2] by simp
  have "find_page t [0..<1024] s = Inl (PageFault t)"
    by (subst upt_conv_Cons, simp) (use fault in simp)
  then have "find_slot kd [2..<1024] s = Inl (PageFault t)"
    using g assms(2,3) by (subst upt_conv_Cons) simp_all
  then show ?thesis by (simp add: vmm_get_new_page_def)
qed

lemma high_frame_index:
  assumes "pmm_ok p" "frame_exists p g" "0x801 \<le> unat g"
  shows "2 \<le> dir_index (g * 4096)" "dir_index (g * 4096) = 2 \<Longrightarrow> page_index (g * 4096) \<noteq> 0"
proof -
  have u: "unat g < 1048576" using assms(1,2) by (auto simp: pmm_ok_def frame_exists_def word_less_nat_alt)
  then have "unat (g * 4096) = unat g * 4096" by (subst unat_mult_u32) simp_all
  then have ix: "dir_index (g * 4096) * 1024 + page_index (g * 4096) = unat g" using index_eq [of "g * 4096"] by simp
  show "2 \<le> dir_index (g * 4096)"
    using ix assms(3) page_index_bound [of "g * 4096"] by (intro leI notI) linarith
  show "page_index (g * 4096) \<noteq> 0" if "dir_index (g * 4096) = 2" using that ix assms(3) by simp
qed

text \<open>C22: page tables above 8 MB.  When the two lowest free frames lie above the identity mapping,
  the first page is mapped with its table in such a frame, and the next request for a page
  takes a page fault in the kernel: the search dereferences the physical address of that table.\<close>

theorem vmm_second_page_faults:
  assumes "vmm_ok p kd s" "\<forall>i < 1024. 2 \<le> i \<longrightarrow> \<not> pg_present (entry (ram s) kd i)"
    and "frame_exists p f" "frame_exists p g" "\<not> frame_used p f (ram s)" "\<not> frame_used p g (ram s)"
    and "0x800 \<le> f" "f < g" "\<forall>h. h < g \<and> h \<noteq> f \<longrightarrow> frame_used p h (ram s)"
  shows "\<exists>s'. vmm_get_new_page p kd kd w us 0 s = Inr (0x800000, s') \<and>
    vmm_get_new_page p kd kd w us 0 s' = Inl (PageFault (g * 4096))"
proof -
  let ?a = "f * 4096" and ?t = "g * 4096" and ?m = "bitmap_set (frame_bitmap p) f (ram s)"
  have pok: "pmm_ok p" using assms(1) by (simp add: vmm_ok_def)
  have "frame_used p h (ram s)" if "h < f" for h
    using that less_trans [OF that assms(8)] assms(9) by auto
  then have al: "pmm_allocate_frame p (ram s) = (?a, ?m)"
    by (intro pmm_allocate_first assms(3,5)) blast
  have al2: "pmm_allocate_frame p ?m = (?t, bitmap_set (frame_bitmap p) g ?m)"
    using assms(6,8,9) by (intro pmm_allocate_first assms(4)) (auto simp: frame_used_set [OF pok assms(3)])
  have "f \<noteq> 0" "g \<noteq> 0" and hi: "0x801 \<le> unat g" using assms(7,8) by (auto simp: word_le_nat_alt word_less_nat_alt)
  then have nz: "?a \<noteq> 0" "?t \<noteq> 0"
    using frame_address(3) [OF pok assms(3)] frame_address(3) [OF pok assms(4)] by auto
  have np: "\<not> pg_present (entry (ram s) kd 2)" using assms(2) by simp
  obtain s' where s': "vmm_get_new_page p kd kd w us 0 s = Inr (0x800000, s')" "running kd s'" "page_aligned ?t"
      "\<And>k. k < 1024 \<Longrightarrow> entry (ram s') kd k = (if k = 2 then page_word w us ?t (entry (ram s) kd 2) else entry (ram s) kd k)"
      "\<And>k. k < 1024 \<Longrightarrow> entry (ram s') ?t k = (if k = 0 then page_word w us ?a 0 else 0)"
    using page_with_new_table [OF assms(1) np al nz(1) al2 nz(2)] by metis
  have "translate kd (ram s') ?t = None"
    using high_frame_index [OF pok assms(4) hi] s'(3-5) assms(2)
    by (cases "dir_index ?t = 2") (simp_all add: translate_def walk_seen seen_def)
  then have "vmm_get_new_page p kd kd w us 0 s' = Inl (PageFault ?t)"
    using s'(2-4) by (intro search_faults) simp_all
  with s'(1) show ?thesis by blast
qed

theorem vmm_second_page_faults_witness:
  "\<exists>p s s'. vmm_ok p 0x401000 s \<and> vmm_get_new_page p 0x401000 0x401000 True False 0 s = Inr (0x800000, s') \<and>
     vmm_get_new_page p 0x401000 0x401000 True False 0 s' = Inl (PageFault 0x801000)"
proof -
  have lay: "pmm_layout 0x8000000 0x400000" by (simp add: pmm_layout_def aligned4_def)
  obtain p m' u' where d: "vmm_ok p 0x401000 \<lparr>ram = m', regs = u'\<rparr>"
    "\<forall>f. frame_exists p f \<longleftrightarrow> unat f < unat (0x8000000 :: u32) div 4096" "\<forall>f. frame_used p f m' \<longleftrightarrow> unat f < 0x404"
    "\<forall>i < 1024. 2 \<le> i \<longrightarrow> entry m' 0x401000 i = 0"
    by (rule demo_vmm [OF lay]) simp_all
  obtain n where n: "vmm_ok p 0x401000 \<lparr>ram = n, regs = u'\<rparr>" "\<forall>f. frame_used p f n \<longleftrightarrow> unat f < 0x800"
      "\<forall>i < 1024. entry n 0x401000 i = entry m' 0x401000 i"
    using fill_frames [OF d(1), where n = "0x404" and k = "0x3FC" and N = "0x8000"] d(2,3) by auto
  let ?s = "\<lparr>ram = n, regs = u'\<rparr>"
  have "\<forall>h. h < 0x801 \<and> h \<noteq> 0x800 \<longrightarrow> frame_used p h (ram ?s)"
    using n(2) by (auto simp: word_less_nat_alt word_unat_eq_iff)
  moreover have "frame_exists p 0x800" "frame_exists p 0x801" "\<not> frame_used p 0x800 (ram ?s)" "\<not> frame_used p 0x801 (ram ?s)"
    using d(2) n(2) by simp_all
  moreover have "\<forall>i < 1024. 2 \<le> i \<longrightarrow> \<not> pg_present (entry (ram ?s) 0x401000 i)" using d(4) n(3) by simp
  ultimately obtain s' where
    "vmm_get_new_page p 0x401000 0x401000 True False 0 ?s = Inr (0x800000, s')"
    "vmm_get_new_page p 0x401000 0x401000 True False 0 s' = Inl (PageFault 0x801000)"
    using vmm_second_page_faults [OF n(1), of "0x800" "0x801" True False] by auto
  with n(1) show ?thesis by blast
qed

end
