(* ===== verification/Proc.thy ===== *)
theory Proc
  imports Vmm_Correct Sched
begin

text \<open>
  \<^verbatim>\<open>src/kernel/proc/proc.c\<close>, \<^verbatim>\<open>src/kernel/arch/i386/proc/proc.c\<close> and the start of
  \<^verbatim>\<open>src/kernel/proc/sched.c\<close>: a process is a control block from the kernel heap, an
  address space with its program and a stack page prepared for the context switch.  The stack
  page is filled through a page of the kernel's address space, so these accesses go through the
  page tables; heap and control blocks are below 8 MB and, like the bitmap, in physical
  memory.  A heap walk may not end and an access may fault, so the routines that do both return
  \<open>'a result option\<close>.
\<close>

section \<open>The context of a process that has not run yet\<close>

definition ctx_eflags :: nat where "ctx_eflags = 0"
definition ctx_edi :: nat where "ctx_edi = 1"
definition ctx_esi :: nat where "ctx_esi = 2"
definition ctx_ebp :: nat where "ctx_ebp = 3"
definition ctx_esp_dummy :: nat where "ctx_esp_dummy = 4"
definition ctx_ebx :: nat where "ctx_ebx = 5"
definition ctx_edx :: nat where "ctx_edx = 6"
definition ctx_ecx :: nat where "ctx_ecx = 7"
definition ctx_eax :: nat where "ctx_eax = 8"
definition ctx_eip :: nat where "ctx_eip = 9"

text \<open>The assignments to the fields, in the order of the code.\<close>

definition context_assignments :: "u32 \<Rightarrow> (nat \<times> u32) list" where
  "context_assignments entry_point =
     [(ctx_eflags, 0x0202), (ctx_eax, 0), (ctx_ecx, 0), (ctx_edx, 0), (ctx_ebx, 0), (ctx_esp_dummy, 0),
      (ctx_ebp, 0), (ctx_esi, 0), (ctx_edi, 0), (ctx_eip, entry_point)]"

text \<open>The result is the stack pointer of the process, what is stored through
  \<open>out_physical_frame\<close>, if anything, and the state; \<open>out\<close> is whether that pointer is not
  NULL.\<close>

definition create_process_stack :: "pmm \<Rightarrow> u32 \<Rightarrow> u32 \<Rightarrow> bool \<Rightarrow> vm \<Rightarrow> (u32 \<times> u32 option \<times> vm) result" where
  "create_process_stack p kd entry_point out s =
     bind_result (vmm_get_new_page p kd kd True False 0 s) (\<lambda>(local_stack_window, s).
     if local_stack_window = 0 then Inr (0, None, s)
     else
       bind_result (vkmemset local_stack_window 0 4096 s) (\<lambda>s.
       let context = local_stack_window + 4096 - 40 in
       bind_result (each (\<lambda>(field, v). set_entry context field (\<lambda>_. v)) (context_assignments entry_point) s) (\<lambda>s.
       let stack_pd_idx = unat (drop_bit 22 local_stack_window) in
       bind_result (get_entry kd stack_pd_idx s) (\<lambda>d.
       let stack_pt_virt = page_base d;
           stack_idx = unat (drop_bit 12 local_stack_window AND 0x3FF) in
       bind_result (get_entry stack_pt_virt stack_idx s) (\<lambda>e.
       let stack_phys_frame = page_base e;
           offset_within_page = context AND 0xFFF;
           target_process_esp = 0xC0001000 + offset_within_page in
       bind_result (vmm_free_page kd local_stack_window s) (\<lambda>s.
       Inr (target_process_esp, if out then Some stack_phys_frame else None, s)))))))"

definition read_cr3 :: "mmu \<Rightarrow> u32" where
  "read_cr3 u = cr3 u"

definition write_cr3 :: "u32 \<Rightarrow> mmu \<Rightarrow> mmu" where
  "write_cr3 val u = u\<lparr>cr3 := val\<rparr>"

section \<open>Process control blocks\<close>

definition seq :: "'a result option \<Rightarrow> ('a \<Rightarrow> 'b result option) \<Rightarrow> 'b result option" where
  "seq r f = (case r of None \<Rightarrow> None | Some (Inl e) \<Rightarrow> Some (Inl e) | Some (Inr a) \<Rightarrow> f a)"

lemma seq_simps [simp]: "seq None f = None" "seq (Some (Inl e)) f = Some (Inl e)" "seq (Some (Inr a)) f = f a"
  by (simp_all add: seq_def)

definition set_pcb_pid :: "u32 \<Rightarrow> u32 \<Rightarrow> mem \<Rightarrow> mem" where
  "set_pcb_pid pcb v m = store32 pcb v m"

definition set_pcb_address_space :: "u32 \<Rightarrow> u32 \<Rightarrow> mem \<Rightarrow> mem" where
  "set_pcb_address_space pcb v m = store32 (pcb + 28) v m"

definition set_pcb_space_phys :: "u32 \<Rightarrow> u32 \<Rightarrow> mem \<Rightarrow> mem" where
  "set_pcb_space_phys pcb v m = store32 (pcb + 32) v m"

definition set_pcb_stack :: "u32 \<Rightarrow> u32 \<Rightarrow> mem \<Rightarrow> mem" where
  "set_pcb_stack pcb v m = store32 (pcb + 36) v m"

abbreviation on_ram :: "(mem \<Rightarrow> mem) \<Rightarrow> vm \<Rightarrow> vm" where
  "on_ram f s \<equiv> s\<lparr>ram := f (ram s)\<rparr>"

definition new_pcb :: "u32 \<Rightarrow> u32 \<Rightarrow> mem \<Rightarrow> mem" where
  "new_pcb pcb next_pid m =
     (let m = set_pcb_pid pcb next_pid m;
          m = set_node_next (sched_node pcb) 0 m;
          m = set_node_prev (sched_node pcb) 0 m;
          m = set_pcb_state pcb STATE_NEW m;
          m = set_pcb_priority pcb 0 m;
          m = set_pcb_quantum pcb 40 m
      in set_pcb_age pcb 0 m)"

text \<open>The result is the control block, 0 for NULL, the static \<open>next_pid\<close> and the state.\<close>

definition create_pcb ::
    "pmm \<Rightarrow> u32 \<Rightarrow> u32 \<Rightarrow> u32 \<Rightarrow> u32 \<Rightarrow> bool \<Rightarrow> u32 \<times> vm \<Rightarrow> (u32 \<times> u32 \<times> vm) result option" where
  "create_pcb p kd heap_start entry_point prog_size is_user_process = (\<lambda>(next_pid, s).
     case kmalloc heap_start 40 (ram s) of None \<Rightarrow> None
     | Some (pcb, m) \<Rightarrow>
         let s = s\<lparr>ram := m\<rparr> in
         if pcb = 0 then Some (Inr (0, next_pid, s))
         else
           let s = on_ram (new_pcb pcb next_pid) s;
               next_pid = next_pid + 1 in
           seq (Some (vmm_create_virtual_address_space p kd entry_point prog_size is_user_process s))
             (\<lambda>(process_address_space, s).
           let s = on_ram (set_pcb_address_space pcb process_address_space) s in
           seq (Some (vmm_get_physical_address kd kd process_address_space s)) (\<lambda>(address_space_physical, s).
           let s = on_ram (set_pcb_space_phys pcb address_space_physical) s in
           seq (Some (create_process_stack p kd 0xC0000000 True s)) (\<lambda>(process_esp, frame, s).
           let stack_frame_physical = (case frame of None \<Rightarrow> 0 | Some f \<Rightarrow> f) in
           seq (Some (vmm_map_frame p kd (pcb_address_space (ram s) pcb) 0xC0001000 stack_frame_physical True
               is_user_process s)) (\<lambda>(_, s).
           let s = on_ram (set_pcb_stack pcb process_esp) s in
           if pcb_stack (ram s) pcb = 0 then
             (case kfree heap_start pcb (ram s) of None \<Rightarrow> None
              | Some m \<Rightarrow> Some (Inr (0, next_pid, s\<lparr>ram := m\<rparr>)))
           else Some (Inr (pcb, next_pid, on_ram (set_pcb_state pcb STATE_READY) s)))))))"

section \<open>Starting the scheduler\<close>

text \<open>The queues; \<open>err\<close> is the local variable the list routine reports to.\<close>

fun init_queues :: "u32 \<Rightarrow> nat \<Rightarrow> u32 \<Rightarrow> mem \<Rightarrow> (u32 list \<times> u32 \<times> mem) option" where
  "init_queues heap_start 0 err m = Some ([], err, m)"
| "init_queues heap_start (Suc n) err m =
     (case list_init heap_start err m of None \<Rightarrow> None
      | Some (q, err, m) \<Rightarrow>
          (case init_queues heap_start n err m of None \<Rightarrow> None
           | Some (qs, err, m) \<Rightarrow> Some (q # qs, err, m)))"

definition sched_init ::
    "pmm \<Rightarrow> u32 \<Rightarrow> u32 \<Rightarrow> u32 \<Rightarrow> u32 \<Rightarrow> bool \<Rightarrow> u32 \<Rightarrow> u32 \<times> vm \<Rightarrow> (Scheduler \<times> u32 \<times> vm) result option" where
  "sched_init p kd heap_start entry_point prog_size is_user_process err = (\<lambda>(next_pid, s).
     case init_queues heap_start MLFQ_LEVELS err (ram s) of None \<Rightarrow> None
     | Some (qs, err, m) \<Rightarrow>
         (case list_init heap_start err m of None \<Rightarrow> None
          | Some (wq, err, m) \<Rightarrow>
              seq (create_pcb p kd heap_start entry_point prog_size is_user_process (next_pid, s\<lparr>ram := m\<rparr>))
                (\<lambda>(idle_process, next_pid, s).
              Some (Inr (\<lparr>priority_queues = qs, waiting_queue = wq, current_pcb = 0, idle_pcb = idle_process\<rparr>,
                next_pid, s)))))"

definition isr_register_sched_timer :: "isr_tables \<Rightarrow> u32 \<Rightarrow> mem \<Rightarrow> mem" where
  "isr_register_sched_timer t timer_handler m = register_irq_handler t 32 timer_handler m"

end
