(* ===== verification/Kpage.thy ===== *)
theory Kpage
  imports Vmm_Correct
begin

text \<open>
  Pages of the kernel's address space as its clients see them: accesses through a mapped page, and a
  framing discipline for the operations of the virtual memory manager.
\<close>

declare One_nat_def [simp del] upt_rec_numeral [simp del]

section \<open>Accesses through a mapped page\<close>

lemma page_offset:
  assumes "page_aligned va" "i < 4096"
  shows "dir_index (va + U32 i) = dir_index va" "page_index (va + U32 i) = page_index va"
    "(va + U32 i) AND 0xFFF = U32 i"
proof -
  obtain k where k: "unat va = 4096 * k" by (rule page_number [OF assms(1)])
  have u: "unat (va + U32 i) = 4096 * k + i" using assms k unat_offset [of va 4096 i] by simp
  then have d: "unat (va + U32 i) div 4096 = unat va div 4096" using k assms(2) by simp
  show "page_index (va + U32 i) = page_index va" by (simp add: page_index_div d)
  have "unat x div 4194304 = unat x div 4096 div 1024" for x :: u32 by (simp add: div_mult2_eq [symmetric])
  then show "dir_index (va + U32 i) = dir_index va" by (simp only: dir_index_div d)
  have "unat ((va + U32 i) AND 0xFFF) = i" using u assms(2) by (simp add: unat_offset12)
  then show "(va + U32 i) AND 0xFFF = U32 i" by (metis of_nat_unat_u32)
qed

lemma ok_tables_aligned: "vmm_ok p kd s \<Longrightarrow> is_table kd (ram s) u \<Longrightarrow> page_aligned u"
  by (auto simp: is_table_def vmm_ok_def)

lemma in_own_page: "x \<in> bytes (page_start x) 4096"
proof -
  have "unat x div 4096 * 4096 \<le> unat x \<and> unat x < unat x div 4096 * 4096 + 4096"
    using div_mult_mod_eq [of "unat x" 4096] mod_less_divisor [of 4096 "unat x"] by linarith
  then show ?thesis by (simp add: bytes_def in_range_def unat_page_start)
qed

lemma page_start_eq: "page_aligned t \<Longrightarrow> x \<in> bytes t 4096 \<Longrightarrow> page_start x = t"
  using pages_disjoint [OF page_start_aligned _ _ in_own_page, of t x] by blast

text \<open>Writes that only reach data frames leave the address space and the frame bitmap alone.\<close>

lemma data_write:
  assumes ok: "vmm_ok p kd s" and m': "\<forall>x. m' x \<noteq> ram s x \<longrightarrow> data_frame p kd s (page_start x)"
  shows "vmm_ok p kd (s\<lparr>ram := m'\<rparr>)" "walk kd m' x = walk kd (ram s) x"
    "frame_used p f m' = frame_used p f (ram s)" "data_frame p kd (s\<lparr>ram := m'\<rparr>) t'\<longleftrightarrow> data_frame p kd s t'"
    "\<And>u i. is_table kd (ram s) u \<Longrightarrow> i < 1024 \<Longrightarrow> entry m' u i = entry (ram s) u i"
proof -
  have same: "m' x = ram s x" if "is_table kd (ram s) u" "x \<in> bytes u 4096" for u x
    using that m' [rule_format, of x] page_start_eq [OF ok_tables_aligned [OF ok that(1)] that(2)] by (auto simp: data_frame_def)
  show e: "entry m' u i = entry (ram s) u i" if "is_table kd (ram s) u" "i < 1024" for u i
    using that same ok_tables_aligned [OF ok] by (intro entry_cong) auto
  then have dir: "entry m' kd i = entry (ram s) kd i" if "i < 1024" for i using that by simp
  show "walk kd m' x = walk kd (ram s) x" by (intro walk_eqI) (auto intro!: e)
  have st: "m' x = ram s x" if "in_storage (frame_bitmap p) x" for x
    using that m' [rule_format, of x] in_own_page [of x] by (auto simp: data_frame_def bitmap_apart_def)
  show "frame_used p f m' = frame_used p f (ram s)"
    using ok by (intro frame_used_cong st) (simp_all add: vmm_ok_def)
  have run: "running kd s" using ok by (simp add: vmm_ok_def)
  have tt: "is_table kd (ram s) kd" "is_table kd (ram s) (table (ram s) kd 0)" "is_table kd (ram s) (table (ram s) kd 1)"
    using ok_dir01 [OF ok] by simp_all
  have tabs: "m' x = ram s x" if "x \<in> bytes kd 4096 \<union> bytes (table (ram s) kd 0) 4096 \<union> bytes (table (ram s) kd 1) 4096" for x
    using that by (elim UnE) (erule same [OF tt(1)], erule same [OF tt(2)], erule same [OF tt(3)])
  have "ident kd (ram s)" using run by (simp add: running_def)
  then have "ident kd m'" by (rule ident_same) (rule tabs)
  then show "vmm_ok p kd (s\<lparr>ram := m'\<rparr>)"
    using same_dir [OF dir] ok by (intro vmm_okI [OF ok _ _ st]) (simp_all add: vmm_ok_def)
  show "data_frame p kd (s\<lparr>ram := m'\<rparr>) t' \<longleftrightarrow> data_frame p kd s t'"
    using same_dir(2) [OF dir] by (simp add: data_frame_def)
qed

lemma data_frame_write:
  assumes "data_frame p kd s t" "\<And>x. x \<notin> bytes t 4096 \<Longrightarrow> m' x = ram s x"
  shows "\<forall>x. m' x \<noteq> ram s x \<longrightarrow> data_frame p kd s (page_start x)"
proof (intro allI impI)
  fix x assume "m' x \<noteq> ram s x"
  then have "x \<in> bytes t 4096" using assms(2) by blast
  then have "page_start x = t" using assms(1) by (intro page_start_eq) (simp_all add: data_frame_def)
  with assms(1) show "data_frame p kd s (page_start x)" by simp
qed

definition mapped :: "pmm \<Rightarrow> u32 \<Rightarrow> u32 \<Rightarrow> u32 \<Rightarrow> vm \<Rightarrow> bool" where
  "mapped p kd va t s \<longleftrightarrow> vmm_ok p kd s \<and> page_aligned va \<and> data_frame p kd s t \<and>
     (\<exists>e. walk kd (ram s) va = Some e \<and> page_base e = t)"

lemma mapped_translate:
  assumes "mapped p kd va t s" "i < 4096"
  shows "translate kd (ram s) (va + U32 i) = Some (t + U32 i)"
proof -
  have va: "page_aligned va" using assms(1) by (simp add: mapped_def)
  have "walk kd (ram s) (va + U32 i) = walk kd (ram s) va"
    by (simp add: walk_def Let_def page_offset [OF va assms(2)])
  with assms page_offset(3) [OF va assms(2)] show ?thesis by (auto simp: translate_def mapped_def)
qed

lemma mapped_write:
  assumes "mapped p kd va t s" "\<And>x. x \<notin> bytes t 4096 \<Longrightarrow> m' x = ram s x"
  shows "mapped p kd va t (s\<lparr>ram := m'\<rparr>)"
proof -
  have "vmm_ok p kd s" "data_frame p kd s t" using assms(1) by (simp_all add: mapped_def)
  note ok = this
  have "\<forall>x. m' x \<noteq> ram s x \<longrightarrow> data_frame p kd s (page_start x)"
    using ok(2) assms(2) by (rule data_frame_write)
  note d = data_write [OF ok(1) this]
  show ?thesis using assms(1) d by (simp add: mapped_def)
qed

lemma mapped_cr3: "mapped p kd va t s \<Longrightarrow> cr3 (regs s) = kd"
  by (simp add: mapped_def vmm_ok_def running_def)

lemma set_entry_mapped:
  assumes "mapped p kd va t s" "j < 1024"
  shows "set_entry va j f s = Inr (s\<lparr>ram := modify_entry t j f (ram s)\<rparr>)"
  using mapped_translate [OF assms(1), of "4 * j"] assms(2) mapped_cr3 [OF assms(1)]
  by (simp add: set_entry_def resolve_def modify_entry_def entry_def)

lemma mapped_modify:
  assumes "mapped p kd va t s" "j < 1024"
  shows "mapped p kd va t (s\<lparr>ram := modify_entry t j f (ram s)\<rparr>)"
  using assms by (intro mapped_write) (auto simp: mapped_def data_frame_def intro!: modify_entry_frame)

lemma vkmemset_mapped:
  assumes "mapped p kd va t s"
  shows "vkmemset va v 4096 s = Inr (s\<lparr>ram := snd (kmemset t v 4096 (ram s))\<rparr>)"
    "mapped p kd va t (s\<lparr>ram := snd (kmemset t v 4096 (ram s))\<rparr>)"
proof -
  have t: "page_aligned t" using assms by (simp add: mapped_def data_frame_def)
  show "vkmemset va v 4096 s = Inr (s\<lparr>ram := snd (kmemset t v 4096 (ram s))\<rparr>)"
  proof (rule vkmemset_page [OF t])
    show "translate (cr3 (regs s)) m' (va + U32 i) = Some (t + U32 i)"
      if "\<And>x. x \<notin> bytes t 4096 \<Longrightarrow> m' x = ram s x" "i < 4096" for m' i
      using mapped_translate [OF mapped_write [OF assms that(1)] that(2)] by (simp add: mapped_cr3 [OF assms])
  qed
  show "mapped p kd va t (s\<lparr>ram := snd (kmemset t v 4096 (ram s))\<rparr>)"
    using assms by (rule mapped_write) (simp add: kmemset_page t)
qed

lemma outside_window: "page_aligned va \<Longrightarrow> 2 \<le> dir_index va \<Longrightarrow> page_start va = va \<and> \<not> in_window va"
  by (simp add: page_start_def in_window_def)

section \<open>What an operation leaves alone\<close>

definition low_free :: "pmm \<Rightarrow> mem \<Rightarrow> u32 set" where
  "low_free p m = {f. frame_exists p f \<and> \<not> frame_used p f m \<and> f < 0x7FF}"

definition free_slots :: "u32 \<Rightarrow> mem \<Rightarrow> u32 set" where
  "free_slots kd m = {va. free_slot kd m va}"

definition room :: "pmm \<Rightarrow> u32 \<Rightarrow> nat \<Rightarrow> nat \<Rightarrow> vm \<Rightarrow> bool" where
  "room p kd n k s \<longleftrightarrow> n \<le> card (low_free p (ram s)) \<and> k \<le> card (free_slots kd (ram s))"

definition extends :: "pmm \<Rightarrow> u32 \<Rightarrow> u32 set \<Rightarrow> vm \<Rightarrow> vm \<Rightarrow> bool" where
  "extends p kd W s s' \<longleftrightarrow> vmm_ok p kd s' \<and> (\<forall>f. frame_used p f (ram s) \<longrightarrow> frame_used p f (ram s')) \<and>
     (\<forall>i < 2. entry (ram s') kd i = entry (ram s) kd i) \<and>
     (\<forall>u. data_frame p kd s u \<longrightarrow> frame_used p (u div 4096) (ram s) \<longrightarrow>
        data_frame p kd s' u \<and> (u \<notin> W \<longrightarrow> (\<forall>x. x \<in> bytes u 4096 \<longrightarrow> ram s' x = ram s x))) \<and>
     (\<forall>x e. \<not> in_window x \<longrightarrow> walk kd (ram s) x = Some e \<longrightarrow> walk kd (ram s') x = Some e)"

definition page_of :: "pmm \<Rightarrow> u32 \<Rightarrow> u32 \<Rightarrow> u32 \<Rightarrow> vm \<Rightarrow> bool" where
  "page_of p kd va t s \<longleftrightarrow> mapped p kd va t s \<and> 2 \<le> dir_index va \<and> frame_used p (t div 4096) (ram s)"

lemma data_frame_invalidate [simp]: "data_frame p kd (invalidate va s) t = data_frame p kd s t"
  by (simp add: data_frame_def)

lemma extends_refl: "vmm_ok p kd s \<Longrightarrow> extends p kd {} s s"
  by (simp add: extends_def)

lemma extends_invalidate [simp]: "extends p kd W s (invalidate va s') = extends p kd W s s'"
  by (simp add: extends_def data_frame_def)

lemma extends_ok: "extends p kd W s s' \<Longrightarrow> vmm_ok p kd s'"
  by (simp add: extends_def)

lemma extends_trans:
  assumes "extends p kd V s s1" "extends p kd W s1 s'"
  shows "extends p kd (V \<union> W) s s'"
  unfolding extends_def
proof (intro conjI allI impI)
  show "vmm_ok p kd s'" using assms(2) by (rule extends_ok)
  show "frame_used p f (ram s')" if "frame_used p f (ram s)" for f using assms that unfolding extends_def by blast
  show "entry (ram s') kd i = entry (ram s) kd i" if "i < 2" for i using assms that unfolding extends_def by simp
  show "walk kd (ram s') x = Some e" if "\<not> in_window x" "walk kd (ram s) x = Some e" for x e
    using assms that unfolding extends_def by simp
  fix u assume u: "data_frame p kd s u" "frame_used p (u div 4096) (ram s)"
  have d1: "data_frame p kd s1 u" "frame_used p (u div 4096) (ram s1)"
    using assms(1) u unfolding extends_def by blast+
  then show "data_frame p kd s' u" using assms(2) unfolding extends_def by blast
  show "ram s' x = ram s x" if "u \<notin> V \<union> W" "x \<in> bytes u 4096" for x
  proof -
    have "ram s' x = ram s1 x" using assms(2) d1 that unfolding extends_def by simp
    also have "\<dots> = ram s x" using assms(1) u that unfolding extends_def by simp
    finally show ?thesis .
  qed
qed

lemma extends_mono: "extends p kd V s s' \<Longrightarrow> V \<subseteq> W \<Longrightarrow> extends p kd W s s'"
  unfolding extends_def by (simp add: subset_eq) metis

lemma extends_fresh:
  assumes "extends p kd W s s'" "\<And>t. t \<in> W \<Longrightarrow> \<not> frame_used p (t div 4096) (ram s)"
  shows "extends p kd {} s s'"
proof -
  have "u \<notin> W" if "frame_used p (u div 4096) (ram s)" for u using assms(2) that by blast
  then show ?thesis using assms(1) by (simp add: extends_def)
qed

lemma extends_page:
  assumes "extends p kd W s s'" "page_of p kd va t s"
  shows "page_of p kd va t s'"
proof -
  obtain e where e: "walk kd (ram s) va = Some e" "page_base e = t" using assms(2) by (auto simp: page_of_def mapped_def)
  have "\<not> in_window va" using assms(2) by (simp add: page_of_def in_window_def)
  then have "walk kd (ram s') va = Some e" using assms(1) e(1) by (simp add: extends_def)
  then show ?thesis using assms e(2) unfolding extends_def page_of_def mapped_def by auto
qed

lemma extends_entry:
  assumes "extends p kd W s s'" "data_frame p kd s t" "frame_used p (t div 4096) (ram s)" "t \<notin> W" "i < 1024"
  shows "entry (ram s') t i = entry (ram s) t i"
proof (rule entry_cong)
  show "page_aligned t" using assms(2) by (simp add: data_frame_def)
  show "ram s' x = ram s x" if "x \<in> bytes t 4096" for x using assms(1-4) that by (simp add: extends_def)
qed (rule assms)

lemma room_same:
  assumes "\<And>f. frame_used p f (ram s') = frame_used p f (ram s)" "\<And>x. \<not> in_window x \<Longrightarrow> walk kd (ram s') x = walk kd (ram s) x"
  shows "room p kd n k s' = room p kd n k s"
proof -
  have "free_slot kd (ram s') x = free_slot kd (ram s) x" for x
    using assms(2) [of x] by (cases "in_window x") (auto simp: free_slot_def in_window_def)
  then show ?thesis using assms(1) by (simp add: room_def low_free_def free_slots_def)
qed

lemma area_extends:
  assumes "vmm_ok p kd s" "\<And>x. x \<notin> A \<Longrightarrow> m' x = ram s x" "\<And>x. x \<in> A \<Longrightarrow> data_frame p kd s (page_start x)"
  shows "extends p kd (page_start ` A) s (s\<lparr>ram := m'\<rparr>)" "room p kd n k (s\<lparr>ram := m'\<rparr>) = room p kd n k s"
proof -
  have m': "\<forall>x. m' x \<noteq> ram s x \<longrightarrow> data_frame p kd s (page_start x)" using assms(2,3) by blast
  note d = data_write [OF assms(1) m']
  have "m' x = ram s x" if "data_frame p kd s u" "u \<notin> page_start ` A" "x \<in> bytes u 4096" for u x
    using that page_start_eq [of u x] by (intro assms(2)) (auto simp: data_frame_def)
  note same = this
  show "extends p kd (page_start ` A) s (s\<lparr>ram := m'\<rparr>)"
    unfolding extends_def
  proof (intro conjI allI impI)
    show "ram (s\<lparr>ram := m'\<rparr>) x = ram s x" if "data_frame p kd s u" "u \<notin> page_start ` A" "x \<in> bytes u 4096" for u x
      using same [OF that] by simp
    show "entry (ram (s\<lparr>ram := m'\<rparr>)) kd i = entry (ram s) kd i" if "i < 2" for i using d(5) that by simp
  qed (simp_all add: d(1-4))
  show "room p kd n k (s\<lparr>ram := m'\<rparr>) = room p kd n k s" using d by (intro room_same) simp_all
qed

lemma write_extends:
  assumes "vmm_ok p kd s" "data_frame p kd s t" "\<And>x. x \<notin> bytes t 4096 \<Longrightarrow> m' x = ram s x"
  shows "extends p kd {t} s (s\<lparr>ram := m'\<rparr>)" "room p kd n k (s\<lparr>ram := m'\<rparr>) = room p kd n k s"
proof -
  have p: "page_start x = t" if "x \<in> bytes t 4096" for x using that assms(2) by (intro page_start_eq) (simp_all add: data_frame_def)
  have df: "data_frame p kd s (page_start x)" if "x \<in> bytes t 4096" for x using assms(2) unfolding p [OF that] .
  have "page_start ` bytes t 4096 \<subseteq> {t}" by (intro image_subsetI singletonI) (simp add: p)
  then show "extends p kd {t} s (s\<lparr>ram := m'\<rparr>)"
    by (rule extends_mono [OF area_extends(1) [OF assms(1,3) df], rotated -1])
  show "room p kd n k (s\<lparr>ram := m'\<rparr>) = room p kd n k s" by (rule area_extends(2) [OF assms(1,3) df])
qed

lemma two_low_free:
  assumes "2 \<le> card (low_free p m)"
  obtains f g where "f \<noteq> g" "frame_exists p f" "frame_exists p g" "\<not> frame_used p f m" "\<not> frame_used p g m" "f < 0x7FF" "g < 0x7FF"
proof -
  obtain S where "S \<subseteq> low_free p m" "card S = 2" using obtain_subset_with_card_n [OF assms] by blast
  then show ?thesis using that by (auto simp: card_2_iff low_free_def)
qed

lemma new_page:
  assumes ok: "vmm_ok p kd s" and room: "room p kd (n + 2) (k + 1) s"
  obtains va t s1 where "vmm_get_new_page p kd kd True False 0 s = Inr (va, s1)" "va \<noteq> 0" "free_slot kd (ram s) va"
    "extends p kd {} s s1" "page_of p kd va t s1" "low_addr t" "\<not> frame_used p (t div 4096) (ram s)" "room p kd n k s1"
    "\<forall>x. walk kd (ram s1) x = (if in_window x then None else if page_start x = va then walk kd (ram s1) va else walk kd (ram s) x)"
proof -
  have "2 \<le> card (low_free p (ram s))" using room by (simp add: room_def)
  then obtain f g where "f \<noteq> g" "frame_exists p f" "frame_exists p g" "\<not> frame_used p f (ram s)" "\<not> frame_used p g (ram s)" "f < 0x7FF" "g < 0x7FF"
    by (rule two_low_free)
  note run = get_new_page_run [OF ok this, of True False]
  have "free_slots kd (ram s) \<noteq> {}" using room by (auto simp: room_def)
  then have "\<not> (\<forall>x. \<not> free_slot kd (ram s) x)" by (auto simp: free_slots_def)
  with run obtain va s1 where new: "vmm_get_new_page p kd kd True False 0 s = Inr (va, s1)"
    and fs: "free_slot kd (ram s) va" and mp: "maps_page p kd True False va s s1" by metis
  have va: "page_aligned va" "2 \<le> dir_index va" "walk kd (ram s) va = None" using fs by (simp_all add: free_slot_def)
  then have nz: "va \<noteq> 0" by (auto simp: dir_index_def)
  have r: "vmm_ok p kd s1" "\<forall>f. frame_used p f (ram s) \<longrightarrow> frame_used p f (ram s1)" "keeps_data p kd s s1"
      "\<forall>i < 2. entry (ram s1) kd i = entry (ram s) kd i"
    using mp by (simp_all add: maps_page_def)
  obtain e h where e: "low_addr (page_base e)" "bitmap_apart p (page_base e)" "\<not> is_table kd (ram s1) (page_base e)"
      "\<not> frame_used p (page_base e div 4096) (ram s)" "frame_used p (page_base e div 4096) (ram s1)"
      "\<forall>f. frame_used p f (ram s1) \<longrightarrow> f = page_base e div 4096 \<or> f = h \<or> frame_used p f (ram s)"
      and w: "\<And>x. walk kd (ram s1) x = (if in_window x then None else if page_start x = va then Some e else walk kd (ram s) x)"
    using mp unfolding maps_page_def by blast
  let ?t = "page_base e"
  have we: "walk kd (ram s1) va = Some e" using w outside_window [OF va(1,2)] by simp
  then have page: "page_of p kd va ?t s1" using r(1) va e by (simp add: page_of_def mapped_def data_frame_def)
  have gone: "walk kd (ram s) x = None" if "page_start x = va" for x
    using that va(3) page_index_eq [OF va(1), of x] by (simp add: walk_seen split: if_splits)
  have ext: "extends p kd {} s s1"
    unfolding extends_def using r w gone by (auto simp: keeps_data_def)
  have "low_free p (ram s) \<subseteq> low_free p (ram s1) \<union> {?t div 4096, h}"
    using e(6) by (auto simp: low_free_def)
  then have "card (low_free p (ram s)) \<le> card (low_free p (ram s1) \<union> {?t div 4096, h})" by (intro card_mono) simp_all
  also have "\<dots> \<le> card (low_free p (ram s1)) + card {?t div 4096, h}" by (rule card_Un_le)
  also have "card {?t div 4096, h} \<le> 2" by (simp add: card_insert_if)
  finally have c1: "n \<le> card (low_free p (ram s1))" using room by (simp add: room_def)
  have "free_slot kd (ram s1) x" if "free_slot kd (ram s) x" "x \<noteq> va" for x
    using that w [of x] outside_window [of x] by (simp add: free_slot_def)
  then have "free_slots kd (ram s) - {va} \<subseteq> free_slots kd (ram s1)" by (auto simp: free_slots_def)
  then have "card (free_slots kd (ram s) - {va}) \<le> card (free_slots kd (ram s1))" by (intro card_mono) simp_all
  then have "k \<le> card (free_slots kd (ram s1))" using room by (simp add: room_def card_Diff_singleton_if split: if_splits)
  with c1 show ?thesis using that [OF new nz fs ext page e(1,4)] w we by (simp add: room_def)
qed

text \<open>The entry of the window concerns nobody else.\<close>

lemma window_extends:
  fixes g :: "u32 \<Rightarrow> u32"
  assumes ok: "vmm_ok p kd s"
  defines "s' \<equiv> s\<lparr>ram := modify_entry (table (ram s) kd 1) 1023 g (ram s)\<rparr>"
  shows "extends p kd {} s s'" "room p kd n k s' = room p kd n k s" "\<not> in_window x \<Longrightarrow> walk kd (ram s') x = walk kd (ram s) x"
proof -
  let ?m = "modify_entry (table (ram s) kd 1) 1023 g (ram s)"
  note c = ok_modify [OF ok _ ok_dir01(2) [OF ok], where j = 1023 and g = g]
  have w: "walk kd ?m x = walk kd (ram s) x" if "\<not> in_window x" for x
    using that c(2) [of x] by (auto simp: in_window_def)
  then show "\<not> in_window x \<Longrightarrow> walk kd (ram s') x = walk kd (ram s) x" by (simp add: s'_def)
  have "?m x = ram s x" if "data_frame p kd s u" "x \<in> bytes u 4096" for u x
    using data_not_in_table [OF ok that(1) _ that(2)] ok_dir01 [OF ok] by (intro modify_entry_frame) simp_all
  moreover have "data_frame p kd (s\<lparr>ram := ?m\<rparr>) u = data_frame p kd s u" for u
    using c(4) by (simp add: data_frame_def)
  ultimately show "extends p kd {} s s'" using c w by (simp add: s'_def extends_def)
  show "room p kd n k s' = room p kd n k s" using c(3) w by (intro room_same) (simp_all add: s'_def)
qed

lemma physical_page:
  assumes "page_of p kd va t s"
  obtains s' where "vmm_get_physical_address kd kd va s = Inr (t, s')" "extends p kd {} s s'" "\<And>n k. room p kd n k s' = room p kd n k s"
proof -
  have ok: "vmm_ok p kd s" and va: "2 \<le> dir_index va" using assms by (simp_all add: page_of_def mapped_def)
  obtain e where "walk kd (ram s) va = Some e" "page_base e = t" using assms by (auto simp: page_of_def mapped_def)
  then have pr: "pg_present (entry (ram s) kd (dir_index va))"
      and et: "page_base (entry (ram s) (table (ram s) kd (dir_index va)) (page_index va)) = t"
    by (auto simp: walk_seen seen_def split: if_splits)
  note w = window_extends [OF ok, where g = "\<lambda>e. set_present False (ro_entry (table (ram s) kd (dir_index va)) e)"]
  show ?thesis
    using that [OF get_physical_run [OF ok va pr, unfolded et]] w(1,2) by (simp add: room_def)
qed

lemma free_page:
  assumes base: "extends p kd W s s1" "free_slot kd (ram s) va" and page: "page_of p kd va t s1" and room: "room p kd n k s1"
  obtains s2 where "vmm_free_page kd va s1 = Inr s2" "extends p kd W s s2" "room p kd n (k + 1) s2" "keeps_data p kd s1 s2"
    "\<And>f. frame_used p f (ram s2) = frame_used p f (ram s1)" "\<And>i. i < 2 \<Longrightarrow> entry (ram s2) kd i = entry (ram s1) kd i"
    "\<forall>x. walk kd (ram s2) x = (if page_start x = va then None else walk kd (ram s1) x)"
proof -
  have ok: "vmm_ok p kd s1" and va: "2 \<le> dir_index va" "page_aligned va"
    using page by (simp_all add: page_of_def mapped_def)
  obtain e where we: "walk kd (ram s1) va = Some e" using page by (auto simp: page_of_def mapped_def)
  then have pr: "pg_present (entry (ram s1) kd (dir_index va))" by (auto simp: walk_seen split: if_splits)
  let ?T = "table (ram s1) kd (dir_index va)" and ?g = "\<lambda>e. set_frame_addr 0 (set_present False e)"
  let ?m = "modify_entry ?T (page_index va) ?g (ram s1)"
  let ?s2 = "invalidate va (s1\<lparr>ram := ?m\<rparr>)"
  note c = ok_modify [OF ok dir_index_bound pr page_index_bound [of va] disjI1 [OF va(1)], where g = ?g]
  have w: "walk kd ?m x = (if page_start x = va then None else walk kd (ram s1) x)" for x
    using c(2) [of x] page_index_eq [OF va(2), of x] by (simp add: seen_def)
  have "?m x = ram s1 x" if "data_frame p kd s1 u" "x \<in> bytes u 4096" for u x
    using data_not_in_table [OF ok that(1) _ that(2)] pr by (intro modify_entry_frame) simp_all
  moreover have "data_frame p kd (s1\<lparr>ram := ?m\<rparr>) u = data_frame p kd s1 u" for u
    using c(4) by (simp add: data_frame_def)
  ultimately have kd: "keeps_data p kd s1 ?s2" by (simp add: keeps_data_def)
  have gone: "walk kd (ram s) x = None" if "page_start x = va" for x
    using that base(2) page_index_eq [OF va(2), of x] by (simp add: free_slot_def walk_seen split: if_splits)
  show ?thesis
  proof (rule that [OF free_page_run [OF ok va(1) pr] _ _ kd])
    have "frame_used p f (ram ?s2) = frame_used p f (ram s1)" for f using c(3) by simp
    show "extends p kd W s ?s2"
      unfolding extends_def
    proof (intro conjI allI impI)
      fix u assume u: "data_frame p kd s u" "frame_used p (u div 4096) (ram s)"
      then have d1: "data_frame p kd s1 u" "frame_used p (u div 4096) (ram s1)" using base(1) by (auto simp: extends_def)
      then show "data_frame p kd ?s2 u" using kd unfolding keeps_data_def by blast
      show "ram ?s2 x = ram s x" if "u \<notin> W" "x \<in> bytes u 4096" for x
      proof -
        have "ram ?s2 x = ram s1 x" using kd d1 that(2) unfolding keeps_data_def by blast
        also have "\<dots> = ram s x" using base(1) u that by (simp add: extends_def)
        finally show ?thesis .
      qed
    qed (use base(1) gone w c(1,3,5) in \<open>auto simp: extends_def\<close>)
    have "free_slot kd (ram ?s2) x" if "free_slot kd (ram s1) x \<or> x = va" for x
      using that w [of x] base(2) outside_window [OF va(2,1)] by (auto simp: free_slot_def)
    then have "insert va (free_slots kd (ram s1)) \<subseteq> free_slots kd (ram ?s2)" by (auto simp: free_slots_def)
    then have "card (insert va (free_slots kd (ram s1))) \<le> card (free_slots kd (ram ?s2))" by (intro card_mono) simp_all
    moreover have "va \<notin> free_slots kd (ram s1)" using we by (simp add: free_slots_def free_slot_def)
    ultimately show "room p kd n (k + 1) ?s2" using room c(3) by (simp add: room_def low_free_def)
    show "frame_used p f (ram ?s2) = frame_used p f (ram s1)" for f using c(3) by simp
    show "entry (ram ?s2) kd i = entry (ram s1) kd i" if "i < 2" for i using c(5) [of i] that by simp
    show "\<forall>x. walk kd (ram ?s2) x = (if page_start x = va then None else walk kd (ram s1) x)" using w by simp
  qed
qed

section \<open>Reading the program\<close>

definition readable :: "pmm \<Rightarrow> u32 \<Rightarrow> vm \<Rightarrow> u32 \<Rightarrow> u8 \<Rightarrow> bool" where
  "readable p kd s a v \<longleftrightarrow> \<not> in_window a \<and> (\<exists>pa. translate kd (ram s) a = Some pa \<and> data_frame p kd s (page_start pa) \<and>
     frame_used p (page_start pa div 4096) (ram s) \<and> ram s pa = v)"

lemma readable_extends:
  assumes "extends p kd {} s s'" "readable p kd s a v"
  shows "readable p kd s' a v"
proof -
  obtain pa where w: "\<not> in_window a" and pa: "translate kd (ram s) a = Some pa" "data_frame p kd s (page_start pa)"
      "frame_used p (page_start pa div 4096) (ram s)" "ram s pa = v" using assms(2) by (auto simp: readable_def)
  have "translate kd (ram s') a = Some pa"
    using assms(1) w pa(1) by (auto simp: translate_def extends_def split: option.splits)
  moreover have "ram s' pa = v" "data_frame p kd s' (page_start pa)" "frame_used p (page_start pa div 4096) (ram s')"
    using assms(1) pa in_own_page [of pa] by (auto simp: extends_def)
  ultimately show ?thesis using w by (simp add: readable_def)
qed

lemma get_byte_readable: "vmm_ok p kd s \<Longrightarrow> readable p kd s a v \<Longrightarrow> get_byte a s = Inr v"
  by (auto simp: readable_def get_byte_def resolve_def vmm_ok_def running_def)

definition put_bytes :: "u32 \<Rightarrow> (nat \<Rightarrow> u8) \<Rightarrow> nat \<Rightarrow> mem \<Rightarrow> mem" where
  "put_bytes t f n m = fold (\<lambda>i. store8 (t + U32 i) (f i)) [0..<n] m"

lemma put_bytes_nth:
  "n \<le> 4096 \<Longrightarrow> put_bytes t f n m x = (if unat (x - t) < n then f (unat (x - t)) else m x)"
proof (induction n)
  case (Suc n)
  have "x = t + U32 n \<longleftrightarrow> unat (x - t) = n"
  proof
    assume "x = t + U32 n" then show "unat (x - t) = n" using Suc.prems by (simp add: unat_of_nat_u32)
  next
    assume "unat (x - t) = n" then have "U32 n = x - t" by (metis of_nat_unat_u32)
    then show "x = t + U32 n" by simp
  qed
  with Suc show ?case by (auto simp: put_bytes_def store8_def less_Suc_eq)
qed (simp add: put_bytes_def)

lemma put_bytes_off: "page_aligned t \<Longrightarrow> n \<le> 4096 \<Longrightarrow> x \<notin> bytes t 4096 \<Longrightarrow> put_bytes t f n m x = m x"
  using offset_outside [of t 4096 x] by (simp add: put_bytes_nth)

lemma put_bytes_at: "n \<le> 4096 \<Longrightarrow> j < 4096 \<Longrightarrow> put_bytes t f n m (t + U32 j) = (if j < n then f j else m (t + U32 j))"
  by (simp add: put_bytes_nth unat_of_nat_u32)

lemma set_byte_page:
  assumes "page_of p kd va t s" "i < 4096"
  shows "set_byte (va + U32 i) v s = Inr (s\<lparr>ram := store8 (t + U32 i) v (ram s)\<rparr>)"
proof -
  have "mapped p kd va t s" using assms(1) by (simp add: page_of_def)
  then show ?thesis using mapped_translate [of p kd va t s i] mapped_cr3 [of p kd va t s] assms(2)
    by (simp add: set_byte_def resolve_def)
qed

lemma page_frame: "page_of p kd va t s \<Longrightarrow> vmm_ok p kd s \<and> data_frame p kd s t \<and> page_aligned t \<and> page_aligned va"
  by (simp add: page_of_def mapped_def data_frame_def)

lemma vkmemcpy_page:
  assumes base: "extends p kd {} s0 s" and page: "page_of p kd va t s" "\<not> frame_used p (t div 4096) (ram s0)"
    and src: "\<And>i. i < n \<Longrightarrow> readable p kd s0 (src + U32 i) (f i)" and n: "n \<le> 4096"
  shows "vkmemcpy src va (U32 n) s = Inr (s\<lparr>ram := put_bytes t f n (ram s)\<rparr>)"
proof -
  note fr = page_frame [OF page(1)]
  let ?step = "\<lambda>i s. bind_result (get_byte (src + U32 i) s) (\<lambda>v. set_byte (va + U32 i) v s)"
  have "each ?step [0..<k] s = Inr (s\<lparr>ram := put_bytes t f k (ram s)\<rparr>)" if "k \<le> n" for k
    using that
  proof (induction k)
    case (Suc k)
    let ?s = "s\<lparr>ram := put_bytes t f k (ram s)\<rparr>"
    have ext: "extends p kd {t} s ?s" using fr Suc.prems n by (intro write_extends) (auto simp: put_bytes_off)
    then have "extends p kd {} s0 ?s" using page(2) extends_fresh [OF extends_trans [OF base ext]] by simp
    then have "get_byte (src + U32 k) ?s = Inr (f k)"
      using Suc.prems by (intro get_byte_readable [OF extends_ok [OF ext]] readable_extends [OF _ src]) simp_all
    moreover have "set_byte (va + U32 k) (f k) ?s = Inr (?s\<lparr>ram := store8 (t + U32 k) (f k) (ram ?s)\<rparr>)"
      using Suc.prems n by (intro set_byte_page [OF extends_page [OF ext page(1)]]) simp
    ultimately show ?case using Suc by (simp add: each_def put_bytes_def)
  qed (simp add: each_def put_bytes_def)
  from this [of n] n show ?thesis by (simp add: vkmemcpy_def unat_of_nat_u32)
qed

end
