(* ===== verification/Addrspace.thy ===== *)
theory Addrspace
  imports Kpage
begin

text \<open>
  The address space of a process (\<open>vmm_create_virtual_address_space\<close> and \<open>vmm_copy_page\<close> of
  \<^verbatim>\<open>src/kernel/memory/vmm.c\<close>).  A new directory shares the two tables of the kernel, and every page of
  the program is copied into a fresh frame through a temporary page of the kernel and entered at
  \<open>0xC0000000\<close>.  The steps are proved with the framing relation \<open>extends\<close>; what the
  process sees is the function \<open>peek\<close>, a read through the tables of the new directory.
\<close>

section \<open>Copying one page of the program\<close>

definition code_at :: "(nat \<Rightarrow> u8) \<Rightarrow> nat \<Rightarrow> mem \<Rightarrow> nat \<Rightarrow> u32 \<Rightarrow> bool" where
  "code_at prog n m i c \<longleftrightarrow> (\<forall>j < 4096. m (c + U32 j) = (if 4096 * i + j < n then prog (4096 * i + j) else 0))"

definition pages_for :: "nat \<Rightarrow> nat" where
  "pages_for n = (n + 4095) div 4096"

lemma pages_for_bounds: "k < pages_for n \<Longrightarrow> 4096 * k < n" "Suc k < pages_for n \<Longrightarrow> 4096 * k + 4096 \<le> n"
  "n \<le> 4096 * pages_for n" "n \<le> 4194304 \<Longrightarrow> pages_for n \<le> 1024"
  unfolding pages_for_def by (simp_all add: less_eq_div_iff_mult_less_eq Suc_le_eq [symmetric])

lemma last_page: "k < N \<Longrightarrow> N \<le> 1024 \<Longrightarrow> (U32 k = U32 N - 1) = (Suc k = N)"
proof -
  assume k: "k < N" "N \<le> 1024"
  then have "U32 N - 1 = U32 (N - 1)" by (simp add: of_nat_diff)
  moreover have "unat (U32 (N - 1)) = N - 1" "unat (U32 k) = k" using k by (intro unat_of_nat_u32; simp)+
  then have "U32 k = U32 (N - 1) \<longleftrightarrow> k = N - 1" unfolding word_unat_eq_iff by argo
  ultimately show ?thesis using k by auto
qed

lemma chunk_size:
  assumes "k < pages_for n" "n \<le> 4194304"
  shows "(if U32 k = U32 (pages_for n) - 1 then U32 n - U32 k * PAGE_SIZE else PAGE_SIZE) = U32 (min 4096 (n - 4096 * k))"
proof -
  note b = pages_for_bounds(1) [OF assms(1)] pages_for_bounds(2) [of k n] pages_for_bounds(3) [of n] pages_for_bounds(4) [OF assms(2)]
  show ?thesis
  proof (cases "Suc k = pages_for n")
    case True
    then have "n - 4096 * k \<le> 4096" using b(3) by auto
    moreover have "U32 (n - 4096 * k) = U32 n - U32 k * 4096" using b(1) by (simp add: of_nat_diff algebra_simps)
    ultimately show ?thesis using True last_page [OF assms(1) b(4)] by (simp add: PAGE_SIZE_def min_absorb2)
  next
    case False
    then have "4096 \<le> n - 4096 * k" using assms(1) b(2) by linarith
    then show ?thesis using False last_page [OF assms(1) b(4)] by (simp add: PAGE_SIZE_def min_absorb1)
  qed
qed

lemma write_code:
  assumes base: "extends p kd {} s0 s" and page: "page_of p kd vc c s" "\<not> frame_used p (c div 4096) (ram s0)"
    and src: "\<And>i. i < n \<Longrightarrow> readable p kd s0 (ep + U32 i) (prog i)" and k: "k < pages_for n" "n \<le> 4194304"
  obtains m1 m where
    "(if U32 k = U32 (pages_for n) - 1 then vkmemset vc 0 PAGE_SIZE s else Inr s) = Inr (s\<lparr>ram := m1\<rparr>)"
    "vkmemcpy (ep + U32 k * PAGE_SIZE) vc
       (if U32 k = U32 (pages_for n) - 1 then U32 n - U32 k * PAGE_SIZE else PAGE_SIZE) (s\<lparr>ram := m1\<rparr>) = Inr (s\<lparr>ram := m\<rparr>)"
    "\<forall>x. x \<notin> bytes c 4096 \<longrightarrow> m x = ram s x" "code_at prog n m k c"
proof -
  note fr = page_frame [OF page(1)]
  note b = pages_for_bounds(1) [OF k(1)] pages_for_bounds(2) [of k n] pages_for_bounds(3) [of n] pages_for_bounds(4) [OF k(2)]
  define m1 where "m1 = (if Suc k = pages_for n then snd (kmemset c 0 4096 (ram s)) else ram s)"
  define m where "m = put_bytes c (\<lambda>j. prog (4096 * k + j)) (min 4096 (n - 4096 * k)) m1"
  have m1: "m1 x = ram s x" if "x \<notin> bytes c 4096" for x using that fr by (simp add: m1_def kmemset_page)
  have ext: "extends p kd {c} s (s\<lparr>ram := m1\<rparr>)" using fr by (intro write_extends) (auto simp: m1)
  have set: "(if U32 k = U32 (pages_for n) - 1 then vkmemset vc 0 PAGE_SIZE s else Inr s) = Inr (s\<lparr>ram := m1\<rparr>)"
    using page(1) vkmemset_mapped(1) [of p kd vc c s 0]
    by (simp add: last_page [OF k(1) b(4)] m1_def PAGE_SIZE_def page_of_def)
  have "readable p kd s0 (ep + U32 k * PAGE_SIZE + U32 j) (prog (4096 * k + j))" if "j < min 4096 (n - 4096 * k)" for j
  proof -
    have "4096 * k + j < n" using that by linarith
    from src [OF this] show ?thesis by (simp add: PAGE_SIZE_def algebra_simps)
  qed
  then have copy: "vkmemcpy (ep + U32 k * PAGE_SIZE) vc (U32 (min 4096 (n - 4096 * k))) (s\<lparr>ram := m1\<rparr>) =
      Inr (s\<lparr>ram := m1\<rparr>\<lparr>ram := put_bytes c (\<lambda>j. prog (4096 * k + j)) (min 4096 (n - 4096 * k)) (ram (s\<lparr>ram := m1\<rparr>))\<rparr>)"
    using page(2) extends_fresh [OF extends_trans [OF base ext]]
    by (intro vkmemcpy_page [OF _ extends_page [OF ext page(1)] page(2)]) simp_all
  show ?thesis
  proof (rule that [OF set])
    show "vkmemcpy (ep + U32 k * PAGE_SIZE) vc
       (if U32 k = U32 (pages_for n) - 1 then U32 n - U32 k * PAGE_SIZE else PAGE_SIZE) (s\<lparr>ram := m1\<rparr>) = Inr (s\<lparr>ram := m\<rparr>)"
      unfolding chunk_size [OF k] using copy by (simp add: m_def)
    show "\<forall>x. x \<notin> bytes c 4096 \<longrightarrow> m x = ram s x" using fr m1 by (simp add: m_def put_bytes_off)
    have "c + U32 j \<in> bytes c 4096" if "j < 4096" for j using that fr by (simp add: in_page word_less_nat_alt unat_of_nat_u32)
    then show "code_at prog n m k c"
      using b fr k(1) by (auto simp: code_at_def m_def put_bytes_at m1_def kmemset_page)
  qed
qed

section \<open>Mapping a frame into the new space\<close>

lemma code_address:
  assumes "k < 1024"
  shows "dir_index (0xC0000000 + U32 k * 4096) = 768" "page_index (0xC0000000 + U32 k * 4096) = k"
    "page_aligned (0xC0000000 + U32 k * 4096)"
proof -
  have "unat (0xC0000000 + U32 k * 4096 :: u32) = 0xC0000000 + k * 4096"
    using assms unat_offset [of "0xC0000000" "0x400000" "k * 4096"] by (simp add: fits_def One_nat_def)
  then have u: "unat (0xC0000000 + U32 k * 4096 :: u32) = (768 * 1024 + k) * 4096" by simp
  have "unat x div 4194304 = unat x div 4096 div 1024" for x :: u32 by (simp add: div_mult2_eq [symmetric])
  then show "dir_index (0xC0000000 + U32 k * 4096) = 768" using assms by (simp add: dir_index_div u)
  show "page_index (0xC0000000 + U32 k * 4096) = k" unfolding page_index_div u using assms mod_mult_self3 [of 768 1024 k] by simp
  show "page_aligned (0xC0000000 + U32 k * 4096)" unfolding page_aligned_def u by simp
qed

lemma get_entry_page:
  assumes "page_of p kd va t s" "j < 1024"
  shows "get_entry va j s = Inr (entry (ram s) t j)"
proof -
  have m: "mapped p kd va t s" using assms(1) by (simp add: page_of_def)
  show ?thesis using mapped_translate [OF m, of "4 * j"] assms(2) mapped_cr3 [OF m]
    by (simp add: get_entry_def resolve_def entry_def)
qed

lemma write_entry_page:
  assumes "page_of p kd va t s" "j < 1024"
  shows "write_entry va j w us a s = Inr (s\<lparr>ram := modify_entry t j (page_word w us a) (ram s)\<rparr>)"
proof (rule write_entry_reaches)
  have m: "mapped p kd va t s" using assms(1) by (simp add: page_of_def)
  show "set_entry va j g s = Inr (s\<lparr>ram := modify_entry t j g (ram s)\<rparr>)" for g
    by (rule set_entry_mapped [OF m assms(2)])
  show "set_entry va j g (s\<lparr>ram := modify_entry t j f (ram s)\<rparr>) =
      Inr (s\<lparr>ram := modify_entry t j g (modify_entry t j f (ram s))\<rparr>)" for f g
    using set_entry_mapped [OF mapped_modify [OF m assms(2)] assms(2)] by simp
qed

lemma modify_extends:
  assumes "vmm_ok p kd s" "data_frame p kd s t" "j < 1024"
  shows "extends p kd {t} s (s\<lparr>ram := modify_entry t j f (ram s)\<rparr>)"
    "room p kd n k (s\<lparr>ram := modify_entry t j f (ram s)\<rparr>) = room p kd n k s"
proof -
  have "modify_entry t j f (ram s) x = ram s x" if "x \<notin> bytes t 4096" for x
    using that assms(2,3) by (intro modify_entry_frame) (simp_all add: data_frame_def)
  then show "extends p kd {t} s (s\<lparr>ram := modify_entry t j f (ram s)\<rparr>)"
    "room p kd n k (s\<lparr>ram := modify_entry t j f (ram s)\<rparr>) = room p kd n k s"
    using write_extends [OF assms(1,2)] by blast+
qed

lemma write_entry_data:
  assumes "vmm_ok p kd s" "data_frame p kd s t" "low_addr t" "j < 1024"
  shows "write_entry t j w us a s = Inr (s\<lparr>ram := modify_entry t j (page_word w us a) (ram s)\<rparr>)"
proof (rule write_entry_reaches)
  have t: "page_aligned t" using assms(2) by (simp add: data_frame_def)
  have run: "running kd s" using assms(1) by (simp add: vmm_ok_def)
  have run': "running kd (s\<lparr>ram := modify_entry t j f (ram s)\<rparr>)" for f
    using extends_ok [OF modify_extends(1) [OF assms(1,2,4)]] by (simp add: vmm_ok_def)
  show "set_entry t j g s = Inr (s\<lparr>ram := modify_entry t j g (ram s)\<rparr>)" for g
    by (rule set_entry_low [OF run t assms(3,4)])
  show "set_entry t j g (s\<lparr>ram := modify_entry t j f (ram s)\<rparr>) =
      Inr (s\<lparr>ram := modify_entry t j g (modify_entry t j f (ram s))\<rparr>)" for f g
    using set_entry_low [OF run' t assms(3,4)] by simp
qed

lemma map_frame_present:
  assumes page: "page_of p kd va d s" and k: "k < 1024"
    and e: "pg_present (entry (ram s) d 768)" "page_base (entry (ram s) d 768) = t"
    and t: "data_frame p kd s t" "low_addr t"
  shows "vmm_map_frame p kd va (0xC0000000 + U32 k * PAGE_SIZE) c True us s =
    Inr (True, invalidate (0xC0000000 + U32 k * PAGE_SIZE) (s\<lparr>ram := modify_entry t k (page_word True us c) (ram s)\<rparr>))"
  using write_entry_data [OF conjunct1 [OF page_frame [OF page]] t k, of True us c] get_entry_page [OF page, of 768] e code_address [OF k]
  by (simp add: vmm_map_frame_def PAGE_SIZE_def Let_def flip: dir_index_def page_index_def)

lemma zero_page:
  assumes ok: "vmm_ok p kd s" and room: "room p kd (n + 2) (q + 1) s"
  obtains vt t s1 s2 s3 where "vmm_get_new_page p kd kd True False 0 s = Inr (vt, s1)" "vt \<noteq> 0"
    "vkmemset vt 0 4096 s1 = Inr s2" "vmm_get_physical_address kd kd vt s2 = Inr (t, s3)" "extends p kd {} s s3" "page_of p kd vt t s3"
    "low_addr t" "\<not> frame_used p (t div 4096) (ram s)" "room p kd n q s3" "\<forall>i < 1024. entry (ram s3) t i = 0"
proof -
  obtain vt t s1 where n: "vmm_get_new_page p kd kd True False 0 s = Inr (vt, s1)" "vt \<noteq> 0" "extends p kd {} s s1"
      "page_of p kd vt t s1" "low_addr t" "\<not> frame_used p (t div 4096) (ram s)" "room p kd n q s1"
    by (rule new_page [OF ok room]) blast
  let ?m2 = "snd (kmemset t 0 4096 (ram s1))"
  let ?s2 = "s1\<lparr>ram := ?m2\<rparr>"
  have set: "vkmemset vt 0 4096 s1 = Inr ?s2" using n(4) vkmemset_mapped(1) [of p kd vt t s1 0] by (simp add: page_of_def)
  have x2: "extends p kd {t} s1 ?s2" "room p kd n q ?s2"
    using n(7) page_frame [OF n(4)] write_extends [of p kd s1 t ?m2] by (auto simp: kmemset_page)
  note p2 = extends_page [OF x2(1) n(4)]
  obtain s3 where ph: "vmm_get_physical_address kd kd vt ?s2 = Inr (t, s3)" "extends p kd {} ?s2 s3"
      "\<And>n k. room p kd n k s3 = room p kd n k ?s2"
    by (rule physical_page [OF p2]) blast
  have "extends p kd {} s s3"
    using extends_fresh [OF extends_trans [OF extends_trans [OF n(3) x2(1)] ph(2)]] n(6) by simp
  moreover have "entry (ram s3) t i = 0" if "i < 1024" for i
    using that extends_entry [OF ph(2), of t i] page_frame [OF p2] p2 by (simp add: page_of_def entry_kmemset)
  ultimately show ?thesis using that [OF n(1,2) set ph(1) _ extends_page [OF ph(2) p2] n(5,6)] ph(3) x2(2) by blast
qed

lemma map_frame_absent:
  assumes page: "page_of p kd va d s" and k: "k < 1024" and e: "\<not> pg_present (entry (ram s) d 768)"
    and room: "room p kd (n + 2) (q + 1) s"
  obtains t s' where "vmm_map_frame p kd va (0xC0000000 + U32 k * PAGE_SIZE) c True us s = Inr (True, s')"
    "extends p kd {d} s s'" "\<not> frame_used p (t div 4096) (ram s)" "frame_used p (t div 4096) (ram s')"
    "data_frame p kd s' t" "t \<noteq> d" "low_addr t" "room p kd n q s'"
    "\<And>i. i < 1024 \<Longrightarrow> entry (ram s') t i = (if i = k then page_word True us c 0 else 0)"
    "\<And>i. i < 1024 \<Longrightarrow> entry (ram s') d i = (if i = 768 then page_word True us t (entry (ram s) d i) else entry (ram s) d i)"
proof -
  have ok: "vmm_ok p kd s" using page_frame [OF page] by blast
  have used: "frame_used p (d div 4096) (ram s)" using page by (simp add: page_of_def)
  obtain vt t s1 s2 s3 where z: "vmm_get_new_page p kd kd True False 0 s = Inr (vt, s1)" "vt \<noteq> 0"
    "vkmemset vt 0 4096 s1 = Inr s2" "vmm_get_physical_address kd kd vt s2 = Inr (t, s3)" "extends p kd {} s s3" and pt3: "page_of p kd vt t s3"
    and t: "low_addr t" "\<not> frame_used p (t div 4096) (ram s)" and r3: "room p kd n q s3" and t3: "\<forall>i < 1024. entry (ram s3) t i = 0"
    by (rule zero_page [OF ok room])
  have td: "t \<noteq> d" using used t(2) by blast
  have pd3: "page_of p kd va d s3" by (rule extends_page [OF z(5) page])
  note f3 = page_frame [OF pd3] page_frame [OF pt3]
  let ?m4 = "modify_entry d 768 (page_word True us t) (ram s3)"
  let ?s4 = "s3\<lparr>ram := ?m4\<rparr>"
  have w4: "write_entry va 768 True us t s3 = Inr ?s4" by (rule write_entry_page [OF pd3]) simp
  have x4: "extends p kd {d} s3 ?s4" "room p kd n q ?s4"
    using modify_extends [of p kd s3 d 768] f3 r3 by simp_all
  note pt4 = extends_page [OF x4(1) pt3]
  let ?m5 = "modify_entry t k (page_word True us c) ?m4"
  let ?s5 = "invalidate (0xC0000000 + U32 k * PAGE_SIZE) (?s4\<lparr>ram := ?m5\<rparr>)"
  have w5: "write_entry vt k True us c ?s4 = Inr (?s4\<lparr>ram := ?m5\<rparr>)" using write_entry_page [OF pt4 k] by simp
  have x5: "extends p kd {t} ?s4 ?s5" "room p kd n q ?s5"
    using modify_extends [of p kd ?s4 t k, where f = "page_word True us c"] page_frame [OF pt4] x4(2) k by (simp_all add: room_def)
  show ?thesis
  proof (rule that)
    show "vmm_map_frame p kd va (0xC0000000 + U32 k * PAGE_SIZE) c True us s = Inr (True, ?s5)"
      using get_entry_page [OF page, of 768] e z(1-4) w4 w5 code_address [OF k]
      by (simp add: vmm_map_frame_def PAGE_SIZE_def Let_def flip: dir_index_def page_index_def)
    have "extends p kd {t, d} s ?s5"
      using extends_trans [OF extends_trans [OF z(5) x4(1)] x5(1)] by (simp add: insert_commute)
    then show "extends p kd {d} s ?s5"
      using t(2) by (auto simp: extends_def)
    show "\<not> frame_used p (t div 4096) (ram s)" "t \<noteq> d" "low_addr t" "room p kd n q ?s5" by fact+
    note pt5 = extends_page [OF x5(1) pt4]
    show "frame_used p (t div 4096) (ram ?s5)" "data_frame p kd ?s5 t" using pt5 by (simp_all add: page_of_def mapped_def)
    have al: "page_aligned t" "page_aligned d" using f3 by blast+
    show "entry (ram ?s5) t i = (if i = k then page_word True us c 0 else 0)" if "i < 1024" for i
      using that al td k t3 by (simp add: entry_modify)
    have "entry (ram s3) d i = entry (ram s) d i" if "i < 1024" for i
      using that page_frame [OF page] used extends_entry [OF z(5), of d i] by simp
    then show "entry (ram ?s5) d i = (if i = 768 then page_word True us t (entry (ram s) d i) else entry (ram s) d i)" if "i < 1024" for i
      using that al td k by (simp add: entry_modify)
  qed
qed

section \<open>The state of a space while its program is copied\<close>

definition keeps_but :: "pmm \<Rightarrow> u32 \<Rightarrow> u32 set \<Rightarrow> vm \<Rightarrow> vm \<Rightarrow> bool" where
  "keeps_but p kd W s s' \<longleftrightarrow> (\<forall>i < 2. entry (ram s') kd i = entry (ram s) kd i) \<and>
     (\<forall>u. data_frame p kd s u \<longrightarrow> frame_used p (u div 4096) (ram s) \<longrightarrow>
        data_frame p kd s' u \<and> frame_used p (u div 4096) (ram s') \<and> (u \<notin> W \<longrightarrow> (\<forall>x. x \<in> bytes u 4096 \<longrightarrow> ram s' x = ram s x)))"

lemma extends_keeps: "extends p kd W s s' \<Longrightarrow> keeps_but p kd W s s'"
  by (simp add: extends_def keeps_but_def)

definition owns :: "pmm \<Rightarrow> u32 \<Rightarrow> vm \<Rightarrow> vm \<Rightarrow> u32 \<Rightarrow> bool" where
  "owns p kd s0 s t \<longleftrightarrow> data_frame p kd s t \<and> frame_used p (t div 4096) (ram s) \<and> \<not> frame_used p (t div 4096) (ram s0)"

lemma owns_keeps: "owns p kd s0 s t \<Longrightarrow> keeps_but p kd W s s' \<Longrightarrow> owns p kd s0 s' t"
  by (simp add: owns_def keeps_but_def)

lemma owns_page: "page_of p kd va t s \<Longrightarrow> \<not> frame_used p (t div 4096) (ram s0) \<Longrightarrow> owns p kd s0 s t"
  by (simp add: owns_def page_of_def mapped_def)

lemma owned_byte:
  "owns p kd s0 s t \<Longrightarrow> keeps_but p kd W s s' \<Longrightarrow> t \<notin> W \<Longrightarrow> x \<in> bytes t 4096 \<Longrightarrow> ram s' x = ram s x"
  unfolding owns_def keeps_but_def by blast

lemma owned_entry:
  assumes "owns p kd s0 s t" "keeps_but p kd W s s'" "t \<notin> W" "i < 1024"
  shows "entry (ram s') t i = entry (ram s) t i"
  using assms(1,4) owned_byte [OF assms(1-3)] by (intro entry_cong) (auto simp: owns_def data_frame_def)

lemma offset_in_page: "page_aligned c \<Longrightarrow> j < 4096 \<Longrightarrow> c + U32 j \<in> bytes c 4096"
  by (simp add: in_page word_less_nat_alt unat_of_nat_u32)

lemma owned_code:
  assumes "owns p kd s0 s c" "keeps_but p kd W s s'" "c \<notin> W" "code_at prog n (ram s) i c"
  shows "code_at prog n (ram s') i c"
proof -
  have "page_aligned c" using assms(1) by (simp add: owns_def data_frame_def)
  then have "ram s' (c + U32 j) = ram s (c + U32 j)" if "j < 4096" for j
    using that by (intro owned_byte [OF assms(1-3)] offset_in_page)
  with assms(4) show ?thesis by (simp add: code_at_def)
qed

text \<open>
  The tables of a space: the directory \<open>d\<close> shares the first 8 MB with the kernel, its entry
  768 leads to the table \<open>t\<close>, whose first \<open>k\<close> entries are the frames \<open>c\<close>; nothing else is
  mapped.  All these frames were taken since \<open>s0\<close>.
\<close>

definition space_tables :: "pmm \<Rightarrow> u32 \<Rightarrow> bool \<Rightarrow> vm \<Rightarrow> u32 \<Rightarrow> u32 \<Rightarrow> (nat \<Rightarrow> u32) \<Rightarrow> nat \<Rightarrow> vm \<Rightarrow> bool" where
  "space_tables p kd us s0 d t c k s \<longleftrightarrow> owns p kd s0 s d \<and>
     (\<forall>i < 1024. entry (ram s) d i =
        (if i < 2 then entry (ram s) kd i else if i = 768 \<and> 0 < k then page_word True us t 0 else 0)) \<and>
     (0 < k \<longrightarrow> owns p kd s0 s t \<and> low_addr t \<and> t \<noteq> d \<and>
        (\<forall>i < 1024. entry (ram s) t i = (if i < k then page_word True us (c i) 0 else 0))) \<and>
     (\<forall>i < k. owns p kd s0 s (c i) \<and> c i \<noteq> d \<and> c i \<noteq> t)"

definition code_loaded :: "(nat \<Rightarrow> u8) \<Rightarrow> nat \<Rightarrow> (nat \<Rightarrow> u32) \<Rightarrow> nat \<Rightarrow> vm \<Rightarrow> bool" where
  "code_loaded prog n c k s \<longleftrightarrow> (\<forall>i < k. code_at prog n (ram s) i (c i))"

lemma space_keeps:
  assumes "space_tables p kd us s0 d t c k s" "keeps_but p kd W s s'" "d \<notin> W" "0 < k \<Longrightarrow> t \<notin> W"
  shows "space_tables p kd us s0 d t c k s'"
proof -
  note ld = assms(1) [unfolded space_tables_def]
  have "entry (ram s') kd i = entry (ram s) kd i" if "i < 2" for i using assms(2) that by (simp add: keeps_but_def)
  moreover have "entry (ram s') d i = entry (ram s) d i" if "i < 1024" for i
    using ld that by (intro owned_entry [OF _ assms(2,3)]) blast+
  moreover have "entry (ram s') t i = entry (ram s) t i" if "0 < k" "i < 1024" for i
    using ld that assms(4) by (intro owned_entry [OF _ assms(2)]) blast+
  ultimately show ?thesis using ld owns_keeps [OF _ assms(2), of s0] unfolding space_tables_def by simp
qed

lemma code_keeps:
  assumes "space_tables p kd us s0 d t c k s" "code_loaded prog n c k s" "keeps_but p kd W s s'" "\<And>i. i < k \<Longrightarrow> c i \<notin> W"
  shows "code_loaded prog n c k s'"
proof (unfold code_loaded_def, intro allI impI)
  fix i assume i: "i < k"
  with assms(1) have "owns p kd s0 s (c i)" by (simp add: space_tables_def)
  then show "code_at prog n (ram s') i (c i)"
    using assms(2,4) i by (intro owned_code [OF _ assms(3)]) (auto simp: code_loaded_def)
qed

lemma page_word_over: "page_word w us a (page_word w us b e) = page_word w us a e"
  unfolding page_word_def pg_defs mask12 by (rule bit_word_eqI) (auto simp: bit_simps bit_set_flag)

lemma owned_new: "owns p kd s0 s u \<Longrightarrow> \<not> frame_used p (a div 4096) (ram s) \<Longrightarrow> a \<noteq> u"
  by (auto simp: owns_def)

text \<open>Entering a frame as page \<open>j\<close> of the table that is there, in place of the one it had.\<close>

lemma remap:
  fixes va :: u32
  assumes ok: "vmm_ok p kd s" and sp: "space_tables p kd us s0 d t c k s" and k: "0 < k" and j: "j \<le> k" "j < 1024"
    and a: "owns p kd s0 s a" "a \<noteq> d" "a \<noteq> t"
  defines "s' \<equiv> invalidate va (s\<lparr>ram := modify_entry t j (page_word True us a) (ram s)\<rparr>)"
  shows "extends p kd {t} s s'" "space_tables p kd us s0 d t (c(j := a)) (max k (Suc j)) s'"
proof -
  have d: "owns p kd s0 s d" and t: "owns p kd s0 s t" "low_addr t" "t \<noteq> d"
      "\<And>i. i < 1024 \<Longrightarrow> entry (ram s) t i = (if i < k then page_word True us (c i) 0 else 0)"
    using sp k by (simp_all add: space_tables_def)
  have dt: "data_frame p kd s t" "page_aligned t" using t(1) by (simp_all add: owns_def data_frame_def)
  show x: "extends p kd {t} s s'" unfolding s'_def using modify_extends(1) [OF ok dt(1) j(2)] by simp
  note kp = extends_keeps [OF x]
  have kde: "entry (ram s') kd i = entry (ram s) kd i" if "i < 2" for i using kp that by (simp add: keeps_but_def)
  have de: "entry (ram s') d i = entry (ram s) d i" if "i < 1024" for i
    using t(3) that by (intro owned_entry [OF d kp]) auto
  have te: "entry (ram s') t i = (if i < max k (Suc j) then page_word True us ((c(j := a)) i) 0 else 0)" if "i < 1024" for i
  proof (cases "i = j")
    case True
    have "page_word True us a (page_word True us b 0) = page_word True us a 0" for b by (simp add: page_word_over)
    then show ?thesis using True that j dt(2) t(4) by (auto simp: s'_def entry_modify)
  next
    case False
    then have "i < max k (Suc j) \<longleftrightarrow> i < k" using j(1) by auto
    then show ?thesis using False that j(2) dt(2) t(4) by (simp add: s'_def entry_modify)
  qed
  have "owns p kd s0 s' ((c(j := a)) i) \<and> (c(j := a)) i \<noteq> d \<and> (c(j := a)) i \<noteq> t" if "i < max k (Suc j)" for i
  proof (cases "i = j")
    case True
    then show ?thesis using a owns_keeps [OF a(1) kp] by simp
  next
    case False
    then have "owns p kd s0 s (c i)" "c i \<noteq> d" "c i \<noteq> t" using that j(1) sp by (auto simp: space_tables_def)
    then show ?thesis using False owns_keeps [OF _ kp] by simp
  qed
  then show "space_tables p kd us s0 d t (c(j := a)) (max k (Suc j)) s'"
    using owns_keeps [OF d kp] owns_keeps [OF t(1) kp] t(2,3) de te kde sp k unfolding space_tables_def by simp
qed

lemma map_step:
  assumes base: "extends p kd {} s0 s" and page: "page_of p kd va d s" and sp: "space_tables p kd us s0 d t c k s" and k: "k < 1024"
    and a: "owns p kd s0 s a" "a \<noteq> d" "0 < k \<Longrightarrow> a \<noteq> t"
    and room: "room p kd (r + (if k = 0 then 2 else 0)) (q + (if k = 0 then 1 else 0)) s"
  obtains t' s' where "vmm_map_frame p kd va (0xC0000000 + U32 k * PAGE_SIZE) a True us s = Inr (True, s')"
    "extends p kd {d, t'} s s'" "\<not> frame_used p (t' div 4096) (ram s0)" "room p kd r q s'"
    "space_tables p kd us s0 d t' (c(k := a)) (Suc k) s'" "\<And>i. i < k \<Longrightarrow> c i \<noteq> t'" "a \<noteq> t'"
proof -
  have ok: "vmm_ok p kd s" using base by (rule extends_ok)
  have dir: "entry (ram s) d i = (if i < 2 then entry (ram s) kd i else if i = 768 \<and> 0 < k then page_word True us t 0 else 0)"
    if "i < 1024" for i using sp that by (simp add: space_tables_def)
  have d: "owns p kd s0 s d" using sp by (simp add: space_tables_def)
  show ?thesis
  proof (cases "k = 0")
    case True
    then have np: "\<not> pg_present (entry (ram s) d 768)" by (simp add: dir)
    have room': "room p kd (r + 2) (q + 1) s" using room True by simp
    obtain t' s' where m: "vmm_map_frame p kd va (0xC0000000 + U32 k * PAGE_SIZE) a True us s = Inr (True, s')"
      "extends p kd {d} s s'" "\<not> frame_used p (t' div 4096) (ram s)" "frame_used p (t' div 4096) (ram s')"
      "data_frame p kd s' t'" "t' \<noteq> d" "low_addr t'" "room p kd r q s'"
      "\<And>i. i < 1024 \<Longrightarrow> entry (ram s') t' i = (if i = k then page_word True us a 0 else 0)"
      "\<And>i. i < 1024 \<Longrightarrow> entry (ram s') d i = (if i = 768 then page_word True us t' (entry (ram s) d i) else entry (ram s) d i)"
      by (rule map_frame_absent [OF page k np room', of a us]) blast
    have nu: "\<not> frame_used p (t' div 4096) (ram s0)" using m(3) base by (auto simp: extends_def)
    note kp = extends_keeps [OF m(2)]
    have at: "a \<noteq> t'" using a(1) m(3) by (auto simp: owns_def)
    moreover have "entry (ram s') kd i = entry (ram s) kd i" if "i < 2" for i using kp that by (simp add: keeps_but_def)
    moreover have "owns p kd s0 s' t'" using m(4,5) nu by (simp add: owns_def)
    ultimately have "space_tables p kd us s0 d t' (c(k := a)) (Suc k) s'"
      using m(6,7,9,10) True owns_keeps [OF d kp] owns_keeps [OF a(1) kp] a(2)
      by (simp add: space_tables_def dir)
    moreover have "extends p kd {d, t'} s s'" by (rule extends_mono [OF m(2)]) simp
    ultimately show ?thesis using that m(1,8) nu at True by blast
  next
    case False
    then have t: "owns p kd s0 s t" "low_addr t"
      using sp by (simp_all add: space_tables_def)
    have dt: "data_frame p kd s t" "page_aligned t" using t(1) by (simp_all add: owns_def data_frame_def)
    let ?s' = "invalidate (0xC0000000 + U32 k * PAGE_SIZE) (s\<lparr>ram := modify_entry t k (page_word True us a) (ram s)\<rparr>)"
    have e: "pg_present (entry (ram s) d 768)" "page_base (entry (ram s) d 768) = t" using False dt by (simp_all add: dir)
    have ct: "c i \<noteq> t" if "i < k" for i using sp that by (simp add: space_tables_def)
    have room': "room p kd r q ?s'" using modify_extends(2) [OF ok dt(1) k] room False by (simp add: room_def)
    have k': "0 < k" using False by simp
    note rm = remap [OF ok sp k' order_refl k a(1,2) a(3) [OF k'], where va = "0xC0000000 + U32 k * PAGE_SIZE"]
    have "space_tables p kd us s0 d t (c(k := a)) (Suc k) ?s'" using rm(2) by simp
    moreover have "extends p kd {d, t} s ?s'" by (rule extends_mono [OF rm(1)]) simp
    moreover have "\<not> frame_used p (t div 4096) (ram s0)" using t(1) by (simp add: owns_def)
    ultimately show ?thesis using that map_frame_present [OF page k e dt(1) t(2)] room' ct a(3) [OF k'] by blast
  qed
qed

section \<open>Copying the program\<close>

lemma load_page:
  assumes base: "extends p kd {} s0 s" and k: "k < pages_for n" "n \<le> 4194304" and src: "\<And>i. i < n \<Longrightarrow> readable p kd s0 (ep + U32 i) (prog i)"
    and room: "room p kd (r + 2) (q + 1) s"
  obtains vc a s1 s2 s3 s4 where "vmm_get_new_page p kd kd True False 0 s = Inr (vc, s1)" "vc \<noteq> 0"
    "(if U32 k = U32 (pages_for n) - 1 then vkmemset vc 0 PAGE_SIZE s1 else Inr s1) = Inr s2"
    "vkmemcpy (ep + U32 k * PAGE_SIZE) vc (if U32 k = U32 (pages_for n) - 1 then U32 n - U32 k * PAGE_SIZE else PAGE_SIZE) s2 = Inr s3"
    "vmm_get_physical_address kd kd vc s3 = Inr (a, s4)" "free_slot kd (ram s) vc" "extends p kd {a} s s4" "page_of p kd vc a s4"
    "\<not> frame_used p (a div 4096) (ram s)" "room p kd r q s4" "code_at prog n (ram s4) k a"
proof -
  obtain vc a s1 where n: "vmm_get_new_page p kd kd True False 0 s = Inr (vc, s1)" "vc \<noteq> 0" "free_slot kd (ram s) vc"
      "extends p kd {} s s1" "page_of p kd vc a s1" "\<not> frame_used p (a div 4096) (ram s)" "room p kd r q s1"
    by (rule new_page [OF extends_ok [OF base] room]) blast
  have na: "\<not> frame_used p (a div 4096) (ram s0)" using n(6) base by (auto simp: extends_def)
  have b1: "extends p kd {} s0 s1" using extends_trans [OF base n(4)] by simp
  obtain m1 m where w: "(if U32 k = U32 (pages_for n) - 1 then vkmemset vc 0 PAGE_SIZE s1 else Inr s1) = Inr (s1\<lparr>ram := m1\<rparr>)"
    "vkmemcpy (ep + U32 k * PAGE_SIZE) vc
       (if U32 k = U32 (pages_for n) - 1 then U32 n - U32 k * PAGE_SIZE else PAGE_SIZE) (s1\<lparr>ram := m1\<rparr>) = Inr (s1\<lparr>ram := m\<rparr>)"
    "\<forall>x. x \<notin> bytes a 4096 \<longrightarrow> m x = ram s1 x" "code_at prog n m k a"
    by (rule write_code [OF b1 n(5) na src k])
  let ?s3 = "s1\<lparr>ram := m\<rparr>"
  have x3: "extends p kd {a} s1 ?s3" "room p kd r q ?s3"
    using write_extends [of p kd s1 a m] w(3) page_frame [OF n(5)] n(7) by blast+
  note p3 = extends_page [OF x3(1) n(5)]
  obtain s4 where ph: "vmm_get_physical_address kd kd vc ?s3 = Inr (a, s4)" "extends p kd {} ?s3 s4"
      "\<And>n k. room p kd n k s4 = room p kd n k ?s3"
    by (rule physical_page [OF p3]) blast
  have "extends p kd {a} s s4" using extends_trans [OF extends_trans [OF n(4) x3(1)] ph(2)] by simp
  moreover have "code_at prog n (ram s4) k a"
    using w(4) owned_code [OF owns_page [OF p3 na] extends_keeps [OF ph(2)], of prog n k] by simp
  ultimately show ?thesis using that [OF n(1,2) w(1,2) ph(1) n(3) _ extends_page [OF ph(2) p3] n(6)] ph(3) x3(2) by blast
qed

lemma copy_page_step:
  assumes base: "extends p kd {} s0 s" and page: "page_of p kd va d s" and sp: "space_tables p kd us s0 d t c k s"
    and ld: "code_loaded prog n c k s" and k: "k < pages_for n" "n \<le> 4194304" and src: "\<And>i. i < n \<Longrightarrow> readable p kd s0 (ep + U32 i) (prog i)"
    and room: "room p kd (r + (if k = 0 then 4 else 2)) (q + (if k = 0 then 2 else 1)) s"
  obtains t' c' s' where "vmm_copy_page p kd va ep (U32 n) us (U32 (pages_for n)) (U32 k) s = Inr (True, s')"
    "extends p kd {} s0 s'" "page_of p kd va d s'" "space_tables p kd us s0 d t' c' (Suc k) s'"
    "code_loaded prog n c' (Suc k) s'" "room p kd r (q + 1) s'"
proof -
  let ?r = "r + (if k = 0 then 2 else 0)" and ?q = "q + (if k = 0 then 1 else 0)"
  have room': "room p kd (?r + 2) (?q + 1) s" using room by (simp add: room_def split: if_splits)
  have d: "owns p kd s0 s d" and t: "0 < k \<Longrightarrow> owns p kd s0 s t" and cs: "\<And>i. i < k \<Longrightarrow> owns p kd s0 s (c i)"
    using sp by (simp_all add: space_tables_def)
  obtain vc a s1 s2 s3 s4 where w: "vmm_get_new_page p kd kd True False 0 s = Inr (vc, s1)" "vc \<noteq> 0"
    "(if U32 k = U32 (pages_for n) - 1 then vkmemset vc 0 PAGE_SIZE s1 else Inr s1) = Inr s2"
    "vkmemcpy (ep + U32 k * PAGE_SIZE) vc (if U32 k = U32 (pages_for n) - 1 then U32 n - U32 k * PAGE_SIZE else PAGE_SIZE) s2 = Inr s3"
    "vmm_get_physical_address kd kd vc s3 = Inr (a, s4)" and slot: "free_slot kd (ram s) vc" and e4: "extends p kd {a} s s4"
    and p4: "page_of p kd vc a s4" and un: "\<not> frame_used p (a div 4096) (ram s)" and room4: "room p kd ?r ?q s4"
    and code: "code_at prog n (ram s4) k a"
    by (rule load_page [OF base k src room'])
  note new = owned_new [OF _ un]
  have na: "\<not> frame_used p (a div 4096) (ram s0)" using un base by (auto simp: extends_def)
  have b4: "extends p kd {} s0 s4" using extends_fresh [OF extends_trans [OF base e4]] na by simp
  have sp4: "space_tables p kd us s0 d t c k s4"
    using new [OF d] new [OF t] by (intro space_keeps [OF sp extends_keeps [OF e4]]) auto
  have ld4: "code_loaded prog n c k s4"
    using new [OF cs] by (intro code_keeps [OF sp ld extends_keeps [OF e4]]) auto
  have a4: "owns p kd s0 s4 a" by (rule owns_page [OF p4 na])
  have k': "k < 1024" using k pages_for_bounds(4) [OF k(2)] by simp
  obtain t' s5 where mp: "vmm_map_frame p kd va (0xC0000000 + U32 k * PAGE_SIZE) a True us s4 = Inr (True, s5)"
    "extends p kd {d, t'} s4 s5" "\<not> frame_used p (t' div 4096) (ram s0)" "room p kd r q s5"
    "space_tables p kd us s0 d t' (c(k := a)) (Suc k) s5" "\<And>i. i < k \<Longrightarrow> c i \<noteq> t'" "a \<noteq> t'"
    by (rule map_step [OF b4 extends_page [OF e4 page] sp4 k' a4 new [OF d] new [OF t] room4]) blast+
  have "c i \<noteq> d" if "i < k" for i using sp that by (simp add: space_tables_def)
  then have "code_loaded prog n c k s5" using mp(6) by (intro code_keeps [OF sp4 ld4 extends_keeps [OF mp(2)]]) simp_all
  moreover have "code_at prog n (ram s5) k a"
    using new [OF d] mp(7) by (intro owned_code [OF a4 extends_keeps [OF mp(2)] _ code]) simp
  ultimately have ld5: "code_loaded prog n (c(k := a)) (Suc k) s5" by (auto simp: code_loaded_def less_Suc_eq)
  obtain s6 where fr: "vmm_free_page kd vc s5 = Inr s6" "extends p kd ({a} \<union> {d, t'}) s s6" "room p kd r (q + 1) s6" "keeps_data p kd s5 s6"
    "\<And>f. frame_used p f (ram s6) = frame_used p f (ram s5)" "\<And>i. i < 2 \<Longrightarrow> entry (ram s6) kd i = entry (ram s5) kd i"
    by (rule free_page [OF extends_trans [OF e4 mp(2)] slot extends_page [OF mp(2) p4] mp(4)]) blast
  show ?thesis
  proof (rule that)
    show "vmm_copy_page p kd va ep (U32 n) us (U32 (pages_for n)) (U32 k) s = Inr (True, s6)"
      using w mp(1) fr(1) by (simp add: vmm_copy_page_def Let_def)
    show "extends p kd {} s0 s6"
      using extends_fresh [OF extends_trans [OF base fr(2)]] na mp(3) d by (auto simp: owns_def)
    show "page_of p kd va d s6" by (rule extends_page [OF fr(2) page])
    have kp: "keeps_but p kd {} s5 s6" using fr(4-6) by (simp add: keeps_but_def keeps_data_def)
    then show "space_tables p kd us s0 d t' (c(k := a)) (Suc k) s6" by (rule space_keeps [OF mp(5)]) simp_all
    show "code_loaded prog n (c(k := a)) (Suc k) s6" by (rule code_keeps [OF mp(5) ld5 kp]) simp
    show "room p kd r (q + 1) s6" by (rule fr(3))
  qed
qed

lemma copy_pages_run:
  assumes src: "\<And>i. i < n \<Longrightarrow> readable p kd s0 (ep + U32 i) (prog i)" and n: "n \<le> 4194304"
    and "extends p kd {} s0 s" "page_of p kd va d s" "space_tables p kd us s0 d t c k s" "code_loaded prog n c k s" "pages_for n = k + j"
    and "room p kd (2 * j + r + (if k = 0 then 2 else 0)) (q + (if k = 0 then 2 else 1)) s"
  shows "\<exists>t' c' s'. vmm_copy_pages p kd va ep (U32 n) us (U32 (pages_for n)) [k..<pages_for n] s = Inr (True, s') \<and>
    extends p kd {} s0 s' \<and> page_of p kd va d s' \<and> space_tables p kd us s0 d t' c' (pages_for n) s' \<and>
    code_loaded prog n c' (pages_for n) s' \<and> room p kd r (q + 1) s'"
  using assms(3-)
proof (induction j arbitrary: k s t c)
  case 0
  then have "room p kd r (q + 1) s" by (simp add: room_def split: if_splits)
  with 0 show ?case by auto
next
  case (Suc j)
  have k: "k < pages_for n" using Suc.prems by simp
  have room: "room p kd ((2 * j + r) + (if k = 0 then 4 else 2)) (q + (if k = 0 then 2 else 1)) s"
    using Suc.prems(6) by (simp add: room_def split: if_splits)
  obtain t' c' s' where st: "vmm_copy_page p kd va ep (U32 n) us (U32 (pages_for n)) (U32 k) s = Inr (True, s')"
    "extends p kd {} s0 s'" "page_of p kd va d s'" "space_tables p kd us s0 d t' c' (Suc k) s'"
    "code_loaded prog n c' (Suc k) s'" "room p kd (2 * j + r) (q + 1) s'"
    by (rule copy_page_step [OF Suc.prems(1-4) k n src room]) blast
  have "pages_for n = Suc k + j" using Suc.prems(5) by simp
  from Suc.IH [OF st(2-5) this] st(1,6) show ?case by (simp add: upt_conv_Cons [OF k])
qed

lemma copy_entry_run:
  assumes "page_of p kd va d s" "i < 1024"
  shows "copy_entry kd va i s = Inr (s\<lparr>ram := modify_entry d i (\<lambda>_. entry (ram s) kd i) (ram s)\<rparr>)"
proof -
  have "vmm_ok p kd s" "mapped p kd va d s" using assms(1) by (simp_all add: page_of_def mapped_def)
  moreover from this have "running kd s" by (simp add: vmm_ok_def)
  ultimately show ?thesis
    using get_entry_low [of kd s kd i] set_entry_mapped [of p kd va d s i] assms(2) by (simp add: copy_entry_def)
qed

lemma new_space:
  assumes ok: "vmm_ok p kd s" and room: "room p kd (r + 2) (q + 1) s"
  obtains va d s1 s2 s3 s4 where "vmm_get_new_page p kd kd True False 0 s = Inr (va, s1)" "va \<noteq> 0"
    "vkmemset va 0 4096 s1 = Inr s2" "copy_entry kd va 0 s2 = Inr s3" "copy_entry kd va 1 s3 = Inr s4"
    "extends p kd {} s s4" "page_of p kd va d s4" "space_tables p kd us s d t c 0 s4" "room p kd r q s4"
proof -
  obtain va d s1 where n: "vmm_get_new_page p kd kd True False 0 s = Inr (va, s1)" "va \<noteq> 0"
      "extends p kd {} s s1" "page_of p kd va d s1" "\<not> frame_used p (d div 4096) (ram s)" "room p kd r q s1"
    by (rule new_page [OF ok room]) blast
  let ?z = "snd (kmemset d 0 4096 (ram s1))"
  let ?s2 = "s1\<lparr>ram := ?z\<rparr>"
  have set: "vkmemset va 0 4096 s1 = Inr ?s2" using n(4) vkmemset_mapped(1) [of p kd va d s1 0] by (simp add: page_of_def)
  have x2: "extends p kd {d} s1 ?s2" "room p kd r q ?s2"
    using n(6) page_frame [OF n(4)] write_extends [of p kd s1 d ?z] by (auto simp: kmemset_page)
  note p2 = extends_page [OF x2(1) n(4)]
  let ?s3 = "?s2\<lparr>ram := modify_entry d 0 (\<lambda>_. entry ?z kd 0) ?z\<rparr>"
  have x3: "extends p kd {d} ?s2 ?s3" "room p kd r q ?s3"
    using modify_extends [of p kd ?s2 d 0] page_frame [OF p2] x2(2) by simp_all
  note p3 = extends_page [OF x3(1) p2]
  let ?s4 = "?s3\<lparr>ram := modify_entry d 1 (\<lambda>_. entry (ram ?s3) kd 1) (ram ?s3)\<rparr>"
  have x4: "extends p kd {d} ?s3 ?s4" "room p kd r q ?s4"
    using modify_extends [of p kd ?s3 d 1] page_frame [OF p3] x3(2) by simp_all
  note p4 = extends_page [OF x4(1) p3]
  have al: "page_aligned d" and own: "owns p kd s ?s4 d" using page_frame [OF p4] owns_page [OF p4 n(5)] by blast+
  have kd: "page_aligned kd" "d \<noteq> kd"
    using page_frame [OF p4] by (auto simp: data_frame_def vmm_ok_def)
  have "entry (ram ?s4) d i = (if i < 2 then entry (ram ?s4) kd i else 0)" if "i < 1024" for i
  proof -
    consider "i = 0" | "i = 1" | "\<not> i < 2" by linarith
    then show ?thesis
    proof cases
      case 3
      then show ?thesis using that al by (simp add: entry_modify entry_kmemset)
    qed (use al kd in \<open>simp_all add: entry_modify\<close>)
  qed
  then have ld: "space_tables p kd us s d t c 0 ?s4" using own by (simp add: space_tables_def)
  show ?thesis
  proof (rule that [OF n(1,2) set _ _ _ p4 ld x4(2)])
    show "copy_entry kd va 0 ?s2 = Inr ?s3" using copy_entry_run [OF p2, of 0] by simp
    show "copy_entry kd va 1 ?s3 = Inr ?s4" using copy_entry_run [OF p3, of 1] by simp
    show "extends p kd {} s ?s4"
      using extends_fresh [OF extends_trans [OF n(3) extends_trans [OF x2(1) extends_trans [OF x3(1) x4(1)]]]] n(5) by simp
  qed
qed

section \<open>The new address space\<close>

lemma page_count: "unat n \<le> 4194304 \<Longrightarrow> (n + PAGE_SIZE - 1) div PAGE_SIZE = U32 (pages_for (unat n))"
proof -
  assume n: "unat n \<le> 4194304"
  have "n + PAGE_SIZE - 1 = n + U32 4095" by (simp add: PAGE_SIZE_def)
  moreover have "unat (n + U32 4095) = unat n + 4095"
    using n by (subst unat_add_u32) (simp_all add: unat_of_nat_u32 One_nat_def)
  moreover have "unat (U32 (pages_for (unat n))) = pages_for (unat n)"
    using pages_for_bounds(4) [OF n] by (intro unat_of_nat_u32) simp
  ultimately show ?thesis by (simp add: word_unat_eq_iff unat_div PAGE_SIZE_def pages_for_def)
qed

lemma create_space_run:
  assumes ok: "vmm_ok p kd s" and n: "unat prog_size \<le> 4194304"
    and src: "\<forall>i < unat prog_size. readable p kd s (entry_point + U32 i) (prog i)"
    and room: "room p kd (2 * pages_for (unat prog_size) + 4 + r) (3 + q) s"
  obtains va d t c s' where "vmm_create_virtual_address_space p kd entry_point prog_size us s = Inr (va, s')" "va \<noteq> 0"
    "extends p kd {} s s'" "page_of p kd va d s'" "space_tables p kd us s d t c (pages_for (unat prog_size)) s'"
    "code_loaded prog (unat prog_size) c (pages_for (unat prog_size)) s'" "room p kd r (q + 1) s'"
proof -
  let ?n = "unat prog_size" and ?k = "pages_for (unat prog_size)"
  have room': "room p kd ((2 * ?k + r + 2) + 2) ((q + 2) + 1) s" using room by (simp add: room_def)
  obtain va d s1 s2 s3 s4 where a: "vmm_get_new_page p kd kd True False 0 s = Inr (va, s1)" "va \<noteq> 0"
    "vkmemset va 0 4096 s1 = Inr s2" "copy_entry kd va 0 s2 = Inr s3" "copy_entry kd va 1 s3 = Inr s4"
    "extends p kd {} s s4" "page_of p kd va d s4" "space_tables p kd us s d 0 (\<lambda>_. 0) 0 s4" "room p kd (2 * ?k + r + 2) (q + 2) s4"
    by (rule new_space [OF ok room', where us = us and t = 0 and c = "\<lambda>_. 0"])
  have b: "code_loaded prog ?n (\<lambda>_. 0) 0 s4" "?k = 0 + ?k"
      "room p kd (2 * ?k + r + (if (0::nat) = 0 then 2 else 0)) (q + (if (0::nat) = 0 then 2 else 1)) s4"
    using a(9) by (simp_all add: code_loaded_def)
  from src have src': "\<And>i. i < ?n \<Longrightarrow> readable p kd s (entry_point + U32 i) (prog i)" by blast
  from copy_pages_run [OF src' n a(6-8) b] obtain t c s' where
    c: "vmm_copy_pages p kd va entry_point (U32 ?n) us (U32 ?k) [0..<?k] s4 = Inr (True, s')"
      "extends p kd {} s s'" "page_of p kd va d s'" "space_tables p kd us s d t c ?k s'" "code_loaded prog ?n c ?k s'"
      "room p kd r (q + 1) s'" by blast
  have "unat (U32 ?k) = ?k" using pages_for_bounds(4) [OF n] by (intro unat_of_nat_u32) simp
  then have "vmm_create_virtual_address_space p kd entry_point prog_size us s = Inr (va, s')"
    using a(1-5) c(1) page_count [OF n] by (simp add: vmm_create_virtual_address_space_def Let_def)
  then show ?thesis using that a(2) c(2-6) by blast
qed

text \<open>What a program running in the space of directory \<open>d\<close> reads at an address.\<close>

definition peek :: "mem \<Rightarrow> u32 \<Rightarrow> u32 \<Rightarrow> u8 option" where
  "peek m d x = map_option m (translate d m x)"

lemma space_walk:
  assumes "space_tables p kd us s0 d t c k s"
  shows "walk d (ram s) x = (if dir_index x < 2 then walk kd (ram s) x
    else if dir_index x = 768 \<and> page_index x < k then Some (page_word True us (c (page_index x)) 0) else None)"
proof -
  have d: "entry (ram s) d i = (if i < 2 then entry (ram s) kd i else if i = 768 \<and> 0 < k then page_word True us t 0 else 0)"
    if "i < 1024" for i using assms that by (simp add: space_tables_def)
  have t: "entry (ram s) t (page_index x) = (if page_index x < k then page_word True us (c (page_index x)) 0 else 0)"
      "page_aligned t" if "0 < k"
    using assms that by (simp_all add: space_tables_def owns_def data_frame_def)
  show ?thesis using t by (cases "0 < k") (simp_all add: walk_seen d seen_def)
qed

lemma code_offset:
  assumes "dir_index x = 768"
  shows "unat (x - 0xC0000000) = 4096 * page_index x + unat (x AND 0xFFF)"
proof -
  have "unat x div 4096 = 786432 + page_index x" using index_eq [of x] assms by simp
  then have u: "unat x = 0xC0000000 + (4096 * page_index x + unat x mod 4096)"
    using div_mult_mod_eq [of "unat x" 4096] by linarith
  have "unat (x - 0xC0000000) = unat x - 0xC0000000"
    using u by (subst unat_sub) (simp_all add: word_le_nat_alt One_nat_def)
  with u show ?thesis by (simp add: unat_offset12)
qed

lemma space_peek:
  assumes "space_tables p kd us s0 d t c k s"
  shows "peek (ram s) d x = (if dir_index x < 2 then peek (ram s) kd x
    else if dir_index x = 768 \<and> page_index x < k then Some (ram s (c (page_index x) + (x AND 0xFFF))) else None)"
proof -
  have "page_aligned (c i)" if "i < k" for i using assms that by (simp add: space_tables_def owns_def data_frame_def)
  then show ?thesis using space_walk [OF assms, of x] by (simp add: peek_def translate_def)
qed

lemma code_peek:
  assumes "code_loaded prog n c k s" "dir_index x = 768" "page_index x < k"
  shows "ram s (c (page_index x) + (x AND 0xFFF)) = (let i = unat (x - 0xC0000000) in if i < n then prog i else 0)"
proof -
  let ?j = "unat (x AND 0xFFF)"
  have j: "?j < 4096" by (simp add: unat_offset12)
  have "code_at prog n (ram s) (page_index x) (c (page_index x))" using assms(1,3) by (simp add: code_loaded_def)
  with j have "ram s (c (page_index x) + U32 ?j) =
      (if 4096 * page_index x + ?j < n then prog (4096 * page_index x + ?j) else 0)" unfolding code_at_def by blast
  then show ?thesis using code_offset [OF assms(2)] by (simp add: Let_def)
qed

section \<open>A machine with room\<close>


lemma fresh_data:
  assumes "vmm_ok p kd s" "page_aligned t" "\<not> frame_used p (t div 4096) (ram s)" "\<And>i. i < 1024 \<Longrightarrow> entry m' kd i = entry (ram s) kd i"
  shows "data_frame p kd (s\<lparr>ram := m'\<rparr>) t"
proof -
  have "is_table kd m' = is_table kd (ram s)" by (rule same_dir(2) [OF assms(4)])
  moreover have "\<not> is_table kd (ram s) t" using assms(1,3) by (auto simp: vmm_ok_def)
  moreover have "bitmap_apart p t"
    using assms(1,3) page_div [OF assms(2)] unfolding bitmap_apart_def vmm_ok_def bitmap_reserved_def by metis
  ultimately show ?thesis using assms(2) by (simp add: data_frame_def)
qed

text \<open>A machine with data frames in use: the next \<open>k\<close> frames are taken, at least two.\<close>

lemma demo_frames:
  assumes "2 \<le> k" "0x404 + k \<le> 0x8000"
  obtains p s where "vmm_ok p 0x401000 s" "data_frame p 0x401000 s 0x404000" "data_frame p 0x401000 s 0x405000"
    "\<forall>f. frame_used p f (ram s) \<longleftrightarrow> unat f < 0x404 + k" "\<forall>f. frame_exists p f \<longleftrightarrow> unat f < 0x8000"
    "\<forall>i < 1024. 2 \<le> i \<longrightarrow> entry (ram s) 0x401000 i = 0" "walk 0x401000 (ram s) 0 = None"
    "\<forall>t. page_aligned t \<longrightarrow> 0x404000 \<le> unat t \<longrightarrow> data_frame p 0x401000 s t"
proof -
  have lay: "pmm_layout 0x8000000 0x400000" by (simp add: pmm_layout_def aligned4_def)
  obtain p m' u' where d: "vmm_ok p 0x401000 \<lparr>ram = m', regs = u'\<rparr>"
    "\<forall>f. frame_exists p f \<longleftrightarrow> unat f < unat (0x8000000 :: u32) div 4096" "\<forall>f. frame_used p f m' \<longleftrightarrow> unat f < 0x404"
    "\<forall>i < 1024. 2 \<le> i \<longrightarrow> entry m' 0x401000 i = 0" "walk 0x401000 m' 0 = None"
    by (rule demo_boot [OF lay]) simp_all
  let ?o = "\<lparr>ram = m', regs = u'\<rparr>"
  obtain m where m: "vmm_ok p 0x401000 (?o\<lparr>ram := m\<rparr>)" "\<forall>f. frame_used p f m \<longleftrightarrow> unat f < 0x404 + k"
      "\<forall>i < 1024. entry m 0x401000 i = entry m' 0x401000 i" "\<forall>x. walk 0x401000 m x = walk 0x401000 m' x"
    using fill_frames [OF d(1), where n = "0x404" and k = k and N = "0x8000"] assms(2) d(2,3) by auto
  have al: "page_aligned 0x404000" "page_aligned 0x405000" by (simp_all add: page_aligned_def)
  have df: "data_frame p 0x401000 (?o\<lparr>ram := m\<rparr>) t" if "page_aligned t" "0x404000 \<le> unat t" for t
  proof -
    have "0x404 \<le> unat (t div 4096)" using that(2) div_le_mono [of "0x404000" "unat t" 4096] by (simp add: unat_div)
    then show ?thesis using d(3) m(3) that(1) by (intro fresh_data [OF d(1)]; simp)
  qed
  with that [of p "?o\<lparr>ram := m\<rparr>"] m d(2,4,5) al show ?thesis by simp
qed

lemma demo_space:
  obtains p s where "vmm_ok p 0x401000 s" "data_frame p 0x401000 s 0x404000" "data_frame p 0x401000 s 0x405000"
    "frame_used p 0x404 (ram s)" "frame_used p 0x405 (ram s)" "room p 0x401000 24 7 s"
proof -
  obtain p s where d: "vmm_ok p 0x401000 s" "data_frame p 0x401000 s 0x404000" "data_frame p 0x401000 s 0x405000"
    "\<forall>f. frame_used p f (ram s) \<longleftrightarrow> unat f < 0x404 + 2" "\<forall>f. frame_exists p f \<longleftrightarrow> unat f < 0x8000"
    "\<forall>i < 1024. 2 \<le> i \<longrightarrow> entry (ram s) 0x401000 i = 0"
    by (rule demo_frames [of 2]) auto
  let ?F = "(\<lambda>i. 0x406 + U32 i) ` {..<24}" and ?V = "(\<lambda>i. 0x800000 + 0x1000 * U32 i) ` {..<7}"
  have F: "unat (0x406 + U32 i) = 0x406 + i" if "i < 24" for i using that unat_offset [of "0x406" 24 i] by (simp add: fits_def)
  have V: "unat (0x800000 + 0x1000 * U32 i) = 0x800000 + 0x1000 * i" if "i < 7" for i
    using that unat_offset [of "0x800000" "0x10000" "0x1000 * i"] by (simp add: fits_def)
  have "?F \<subseteq> low_free p (ram s)" using d(4,5) F by (auto simp: low_free_def word_less_nat_alt)
  moreover have "card ?F = 24" using F by (subst card_image) (auto intro!: inj_onI simp: word_unat_eq_iff)
  ultimately have lf: "24 \<le> card (low_free p (ram s))" by (metis card_mono finite)
  have "?V \<subseteq> free_slots 0x401000 (ram s)"
    using d(6) V by (auto simp: free_slots_def free_slot_def page_aligned_def dir_index_div walk_seen div_greater_zero_iff)
  moreover have "card ?V = 7" using V by (subst card_image) (auto intro!: inj_onI simp: word_unat_eq_iff)
  ultimately have "7 \<le> card (free_slots 0x401000 (ram s))" by (metis card_mono finite)
  with that d lf show ?thesis by (simp add: room_def)
qed

lemma demo_data:
  obtains p s where "vmm_ok p 0x401000 s" "data_frame p 0x401000 s 0x404000" "data_frame p 0x401000 s 0x405000"
    "frame_used p 0x404 (ram s)" "frame_used p 0x405 (ram s)" "8 \<le> card (low_free p (ram s))" "3 \<le> card (free_slots 0x401000 (ram s))"
proof -
  obtain p s where d: "vmm_ok p 0x401000 s" "data_frame p 0x401000 s 0x404000" "data_frame p 0x401000 s 0x405000"
    "frame_used p 0x404 (ram s)" "frame_used p 0x405 (ram s)" "room p 0x401000 24 7 s" by (rule demo_space)
  then have "8 \<le> card (low_free p (ram s))" "3 \<le> card (free_slots 0x401000 (ram s))" by (auto simp: room_def)
  with that d(1-5) show ?thesis by blast
qed

lemma low_readable:
  assumes "vmm_ok p kd s" "data_frame p kd s t" "frame_used p (t div 4096) (ram s)" "low_addr t" "i < 4096"
  shows "readable p kd s (t + U32 i) (ram s (t + U32 i))"
proof -
  have t: "page_aligned t" using assms(2) by (simp add: data_frame_def)
  have low: "low_addr (t + U32 i)" by (rule low_page_offset [OF t assms(4,5)])
  have "ident kd (ram s)" using assms(1) by (simp add: vmm_ok_def running_def)
  then have "translate kd (ram s) (t + U32 i) = Some (t + U32 i)" using low unfolding ident_def by blast
  moreover have "page_start (t + U32 i) = t" using t assms(5) by (intro page_start_eq offset_in_page)
  moreover have "\<not> in_window (t + U32 i)" using low_index [OF low] by (auto simp: in_window_def)
  ultimately show ?thesis using assms(2,3) by (simp add: readable_def)
qed

section \<open>Properties\<close>

text \<open>C12: With enough free frames and slots, and a program that can be read and is at most 4 MB long,
  \<open>vmm_create_virtual_address_space\<close> returns a directory in a frame that was free, through which the
  first 8 MB are those of the kernel, the program is readable from \<open>0xC0000000\<close> on, filled up with zeros to a whole page,
  and nothing else is mapped; the pages of the program are writable and have the requested privilege, and no mapping of the kernel
  outside the temporary window is lost.\<close>

theorem vmm_create_space_image:
  assumes "vmm_ok p kd s" "unat prog_size \<le> 0x400000"
    and "\<forall>i < unat prog_size. readable p kd s (entry_point + U32 i) (prog i)"
    and "2 * pages_for (unat prog_size) + 4 \<le> card (low_free p (ram s))" "3 \<le> card (free_slots kd (ram s))"
  shows "\<exists>va d s'. vmm_create_virtual_address_space p kd entry_point prog_size us s = Inr (va, s') \<and>
    vmm_ok p kd s' \<and> translate kd (ram s') va = Some d \<and>
    \<not> frame_used p (d div 4096) (ram s) \<and> frame_used p (d div 4096) (ram s') \<and>
    (\<forall>x. peek (ram s') d x =
       (if dir_index x < 2 then peek (ram s') kd x
        else if dir_index x = 768 \<and> page_index x < pages_for (unat prog_size) then
          Some (let i = unat (x - 0xC0000000) in if i < unat prog_size then prog i else 0) else None)) \<and>
    (\<forall>x e. dir_index x = 768 \<longrightarrow> walk d (ram s') x = Some e \<longrightarrow> pg_rw e \<and> pg_user e = us) \<and>
    (\<forall>x e. \<not> in_window x \<longrightarrow> walk kd (ram s) x = Some e \<longrightarrow> walk kd (ram s') x = Some e)"
proof -
  let ?k = "pages_for (unat prog_size)"
  have room: "room p kd (2 * ?k + 4 + 0) (3 + 0) s" using assms(4,5) by (simp add: room_def)
  have size: "unat prog_size \<le> 4194304" using assms(2) by simp
  obtain va d t c s' where r: "vmm_create_virtual_address_space p kd entry_point prog_size us s = Inr (va, s')" "va \<noteq> 0"
    "extends p kd {} s s'" "page_of p kd va d s'" "space_tables p kd us s d t c ?k s'"
    "code_loaded prog (unat prog_size) c ?k s'"
    by (rule create_space_run [OF assms(1) size assms(3) room, where us = us])
  have "translate kd (ram s') va = Some d" using r(4) mapped_translate [of p kd va d s' 0] by (simp add: page_of_def)
  moreover have "owns p kd s s' d" using r(5) by (simp add: space_tables_def)
  moreover have "pg_rw e \<and> pg_user e = us" if "dir_index x = 768" "walk d (ram s') x = Some e" for x e
    using that space_walk [OF r(5), of x] by (auto split: if_splits)
  moreover have "peek (ram s') d x =
       (if dir_index x < 2 then peek (ram s') kd x
        else if dir_index x = 768 \<and> page_index x < ?k then
          Some (let i = unat (x - 0xC0000000) in if i < unat prog_size then prog i else 0) else None)" for x
    using space_peek [OF r(5), of x] code_peek [OF r(6), of x] by simp
  ultimately show ?thesis
    using r(1,3) unfolding extends_def owns_def
    by (intro exI [of _ va] exI [of _ d] exI [of _ s'] conjI) blast+
qed

theorem vmm_create_space_image_witness:
  "\<exists>p s va d s'. vmm_ok p 0x401000 s \<and> vmm_create_virtual_address_space p 0x401000 0x404000 3 True s = Inr (va, s') \<and>
     peek (ram s') d 0xC0000002 = Some (ram s 0x404002) \<and> peek (ram s') d 0xC0000003 = Some 0 \<and> peek (ram s') d 0xC0001000 = None"
proof -
  obtain p s where d: "vmm_ok p 0x401000 s" "data_frame p 0x401000 s 0x404000" "frame_used p 0x404 (ram s)"
      "8 \<le> card (low_free p (ram s))" "3 \<le> card (free_slots 0x401000 (ram s))" by (rule demo_data)
  have size: "unat (3 :: u32) \<le> 0x400000" and n: "pages_for 3 = 1" by (simp_all add: pages_for_def)
  have src: "\<forall>i < unat (3 :: u32). readable p 0x401000 s (0x404000 + U32 i) (ram s (0x404000 + U32 i))"
    using d(3) by (intro allI impI low_readable [OF d(1,2)]) (simp_all add: low_addr_def)
  have room: "2 * pages_for (unat (3 :: u32)) + 4 \<le> card (low_free p (ram s))" using d(4) n by simp
  obtain va t s' where r: "vmm_create_virtual_address_space p 0x401000 0x404000 3 True s = Inr (va, s')"
    "\<forall>x. peek (ram s') t x = (if dir_index x < 2 then peek (ram s') 0x401000 x
        else if dir_index x = 768 \<and> page_index x < pages_for (unat (3 :: u32)) then
          Some (let i = unat (x - 0xC0000000) in if i < unat (3 :: u32) then ram s (0x404000 + U32 i) else 0) else None)"
    using vmm_create_space_image [OF d(1) size src room d(5), of True] by metis
  have "peek (ram s') t 0xC0000002 = Some (ram s 0x404002)" "peek (ram s') t 0xC0000003 = Some 0" "peek (ram s') t 0xC0001000 = None"
    using r(2) n by (simp_all add: dir_index_div page_index_div Let_def One_nat_def)
  with d(1) r(1) show ?thesis by blast
qed

end
