(* ===== verification/Proc_Correct.thy ===== *)
theory Proc_Correct
  imports Proc Addrspace
begin

text \<open>
  The stack page prepared for a new process (\<^verbatim>\<open>src/kernel/arch/i386/proc/proc.c\<close>): what
  \<open>create_process_stack\<close> writes to it, and that everything else stays as it was.
\<close>

declare One_nat_def [simp del] upt_rec_numeral [simp del]

section \<open>The stack of a new process\<close>

lemma context_run:
  assumes "mapped p kd va t s" "\<forall>(i, v) \<in> set xs. i < 10"
  shows "each (\<lambda>(field, v). set_entry (va + 4056) field (\<lambda>_. v)) xs s =
      Inr (s\<lparr>ram := fold (\<lambda>(i, v). modify_entry t (1014 + i) (\<lambda>_. v)) xs (ram s)\<rparr>) \<and>
    mapped p kd va t (s\<lparr>ram := fold (\<lambda>(i, v). modify_entry t (1014 + i) (\<lambda>_. v)) xs (ram s)\<rparr>)"
  using assms(2)
proof (induction xs rule: rev_induct)
  case (snoc x xs)
  obtain i v where x: "x = (i, v)" by fastforce
  let ?m = "fold (\<lambda>(i, v). modify_entry t (1014 + i) (\<lambda>_. v)) xs (ram s)"
  have i: "1014 + i < 1024" using snoc.prems x by simp
  have "va + 4056 + 4 * U32 i = va + 4 * U32 (1014 + i)" by simp
  then have "set_entry (va + 4056) i (\<lambda>_. v) = set_entry va (1014 + i) (\<lambda>_. v)"
    by (simp only: set_entry_def fun_eq_iff simp_thms)
  moreover have ih: "each (\<lambda>(field, v). set_entry (va + 4056) field (\<lambda>_. v)) xs s = Inr (s\<lparr>ram := ?m\<rparr>)"
      "mapped p kd va t (s\<lparr>ram := ?m\<rparr>)" using snoc by auto
  ultimately show ?case
    using set_entry_mapped [OF ih(2) i] mapped_modify [OF ih(2) i] x by (simp add: each_def)
qed (use assms(1) in \<open>simp add: each_def\<close>)

text \<open>The words of the prepared stack, from the stack pointer up.\<close>

definition initial_context :: "u32 \<Rightarrow> u32 list" where
  "initial_context entry_point = [0x0202, 0, 0, 0, 0, 0, 0, 0, 0, entry_point]"

lemma less10: "(\<forall>j < (10 :: nat). P j) \<longleftrightarrow> P 0 \<and> P 1 \<and> P 2 \<and> P 3 \<and> P 4 \<and> P 5 \<and> P 6 \<and> P 7 \<and> P 8 \<and> P 9"
  by (simp add: numeral_eq_Suc All_less_Suc One_nat_def) blast

lemma context_written:
  fixes entry_point :: u32 and m :: mem
  assumes "page_aligned t"
  defines "m' \<equiv> fold (\<lambda>(i, v). modify_entry t (1014 + i) (\<lambda>_. v)) (context_assignments entry_point)
    (snd (kmemset t 0 4096 m))"
  shows "\<forall>j < 10. entry m' t (1014 + j) = initial_context entry_point ! j"
    "j < 1014 \<Longrightarrow> entry m' t j = 0" "x \<notin> bytes t 4096 \<Longrightarrow> m' x = m x"
proof -
  note d = m'_def context_assignments_def ctx_eflags_def ctx_edi_def ctx_esi_def ctx_ebp_def ctx_esp_dummy_def
    ctx_ebx_def ctx_edx_def ctx_ecx_def ctx_eax_def ctx_eip_def
  show "\<forall>j < 10. entry m' t (1014 + j) = initial_context entry_point ! j"
    unfolding less10 d using assms(1) by (simp add: entry_modify initial_context_def)
  show "entry m' t j = 0" if "j < 1014"
    using that assms(1) unfolding d by (simp add: entry_modify entry_kmemset)
  show "m' x = m x" if "x \<notin> bytes t 4096"
    using that assms(1) unfolding d by (simp add: modify_entry_frame kmemset_page)
qed

lemma context_fields: "\<forall>(i, v) \<in> set (context_assignments entry_point). i < 10"
  by (simp add: context_assignments_def ctx_eflags_def ctx_edi_def ctx_esi_def ctx_ebp_def ctx_esp_dummy_def
      ctx_ebx_def ctx_edx_def ctx_ecx_def ctx_eax_def ctx_eip_def)

text \<open>The calls of \<open>create_process_stack\<close> in order: the frame it reports is the one behind the page.\<close>

lemma create_stack_steps:
  assumes new: "vmm_get_new_page p kd kd True False 0 s = Inr (va, s1)" "va \<noteq> 0" and set: "vkmemset va 0 4096 s1 = Inr s2"
    and ctx: "each (\<lambda>(field, v). set_entry (va + 4056) field (\<lambda>_. v)) (context_assignments entry_point) s2 = Inr s3"
    and page: "page_of p kd va t s3" and free: "vmm_free_page kd va s3 = Inr s'"
  shows "create_process_stack p kd entry_point True s = Inr (0xC0001FD8, Some t, s')"
proof -
  have ok: "vmm_ok p kd s3" and al: "page_aligned va" using page_frame [OF page] by simp_all
  obtain e where e: "walk kd (ram s3) va = Some e" "page_base e = t" using page by (auto simp: page_of_def mapped_def)
  have run: "running kd s3" and tabs: "tables_ok kd (ram s3)" using ok by (simp_all add: vmm_ok_def)
  have pr: "pg_present (entry (ram s3) kd (dir_index va))" "entry (ram s3) (table (ram s3) kd (dir_index va)) (page_index va) = e"
    using e(1) by (auto simp: walk_def Let_def split: if_splits)
  have g1: "get_entry kd (dir_index va) s3 = Inr (entry (ram s3) kd (dir_index va))"
    using run by (subst get_entry_low [OF run]) simp_all
  have g2: "get_entry (table (ram s3) kd (dir_index va)) (page_index va) s3 = Inr e"
    using run pr tabs by (subst get_entry_low [OF run]) (simp_all add: tables_ok_def)
  have off: "(va + 4056) AND 0xFFF = 4056" using page_offset(3) [OF al, of 4056] by simp
  show ?thesis
    using new(2) unfolding create_process_stack_def
    by (simp add: new(1) set ctx [unfolded add.commute [of va 4056]] off [unfolded add.commute [of va 4056]] Let_def
        dir_index_def [symmetric] page_index_def [symmetric] g1 g2 free e(2))
qed

lemma stack_run:
  assumes ok: "vmm_ok p kd s" and room: "room p kd (n + 2) (q + 1) s"
  obtains t s' where "create_process_stack p kd entry_point True s = Inr (0xC0001FD8, Some t, s')"
    "extends p kd {} s s'" "owns p kd s s' t" "room p kd n (q + 1) s'"
    "\<forall>x. walk kd (ram s') x = (if in_window x then None else walk kd (ram s) x)"
    "\<forall>j < 10. entry (ram s') t (1014 + j) = initial_context entry_point ! j" "\<forall>j < 1014. entry (ram s') t j = 0"
proof -
  obtain va t s1 where new: "vmm_get_new_page p kd kd True False 0 s = Inr (va, s1)" "va \<noteq> 0"
    and fs: "free_slot kd (ram s) va" and n: "extends p kd {} s s1" "page_of p kd va t s1" "low_addr t" "\<not> frame_used p (t div 4096) (ram s)" "room p kd n q s1"
    and w1: "\<forall>x. walk kd (ram s1) x = (if in_window x then None else if page_start x = va then walk kd (ram s1) va else walk kd (ram s) x)"
    by (rule new_page [OF ok room]) blast
  have mp: "mapped p kd va t s1" and al: "page_aligned va" "page_aligned t" and ok1: "vmm_ok p kd s1" and dt: "data_frame p kd s1 t"
    using n(2) page_frame [OF n(2)] by (simp_all add: page_of_def)
  define m where "m = fold (\<lambda>(i, v). modify_entry t (1014 + i) (\<lambda>_. v)) (context_assignments entry_point) (snd (kmemset t 0 4096 (ram s1)))"
  note z = vkmemset_mapped [OF mp, of 0] and c = context_written [OF al(2), where entry_point = entry_point and m = "ram s1", folded m_def]
  let ?s2 = "s1\<lparr>ram := m\<rparr>"
  have ctx: "each (\<lambda>(field, v). set_entry (va + 4056) field (\<lambda>_. v)) (context_assignments entry_point)
        (s1\<lparr>ram := snd (kmemset t 0 4096 (ram s1))\<rparr>) = Inr ?s2"
    using context_run [OF z(2) context_fields] by (simp add: m_def)
  have x2: "extends p kd {t} s1 ?s2" "room p kd n q ?s2" using write_extends [OF ok1 dt c(3)] n(5) by simp_all
  have base: "extends p kd {} s ?s2" using extends_fresh [OF extends_trans [OF n(1) x2(1)]] n(4) by simp
  note p2 = extends_page [OF x2(1) n(2)]
  obtain s' where fr: "vmm_free_page kd va ?s2 = Inr s'" "extends p kd {} s s'" "room p kd n (q + 1) s'" "keeps_data p kd ?s2 s'"
    "\<And>f. frame_used p f (ram s') = frame_used p f (ram ?s2)" "\<And>i. i < 2 \<Longrightarrow> entry (ram s') kd i = entry (ram ?s2) kd i"
    "\<forall>x. walk kd (ram s') x = (if page_start x = va then None else walk kd (ram ?s2) x)"
    by (rule free_page [OF base fs p2 x2(2)]) blast
  have own: "owns p kd s ?s2 t" by (rule owns_page [OF p2 n(4)])
  then have d': "data_frame p kd s' t \<and> (\<forall>x. x \<in> bytes t 4096 \<longrightarrow> ram s' x = ram ?s2 x)"
    using fr(4) unfolding owns_def keeps_data_def by blast
  then have same: "\<And>x. x \<in> bytes t 4096 \<Longrightarrow> ram s' x = m x" by simp
  have e: "entry (ram s') t j = entry m t j" if "j < 1024" for j using that al(2) same by (intro entry_cong)
  have "\<forall>x. m x \<noteq> ram s1 x \<longrightarrow> data_frame p kd s1 (page_start x)" using dt c(3) by (rule data_frame_write)
  note w2 = data_write(2) [OF ok1 this]
  have gone: "walk kd (ram s) x = None" if "page_start x = va" for x
    using that fs page_index_eq [OF al(1), of x] by (simp add: free_slot_def walk_seen split: if_splits)
  show ?thesis
  proof (rule that)
    show "create_process_stack p kd entry_point True s = Inr (0xC0001FD8, Some t, s')"
      by (rule create_stack_steps [OF new z(1) ctx p2 fr(1)])
    show "extends p kd {} s s'" "room p kd n (q + 1) s'" by fact+
    show "owns p kd s s' t" using own d' fr(5) by (simp add: owns_def)
    show "\<forall>x. walk kd (ram s') x = (if in_window x then None else walk kd (ram s) x)"
      using fr(7) w2 w1 gone by simp
    show "\<forall>j < 10. entry (ram s') t (1014 + j) = initial_context entry_point ! j" using c(1) by (simp add: e)
    show "\<forall>j < 1014. entry (ram s') t j = 0" using c(2) by (simp add: e)
  qed
qed

text \<open>C14: the stack of a new process.  While two frames below the window are free,
  \<open>create_process_stack\<close> does not fault.  It returns NULL when no page of the kernel is free, and
  changes nothing, or the address \<open>0xC0001FD8\<close> in the stack page of the process and a frame that
  was free: the frame holds, from that address up, the flags with interrupts enabled, eight zero registers and
  the entry point, and zeros below, as the assembly that starts the process pops them.  The kernel's
  own translations are as before outside the temporary window's page \<open>0x7FF000\<close>, which is left unmapped, and the frame
  stays taken.\<close>

theorem create_process_stack_context:
  assumes "vmm_ok p kd s" "f \<noteq> g" "frame_exists p f" "frame_exists p g"
    "\<not> frame_used p f (ram s)" "\<not> frame_used p g (ram s)" "f < 0x7FF" "g < 0x7FF"
  shows "\<exists>esp out s'. create_process_stack p kd entry_point True s = Inr (esp, out, s') \<and>
    (esp = 0 \<and> out = None \<and> s' = s \<and> (\<forall>x. \<not> free_slot kd (ram s) x) \<or>
     esp = 0xC0001FD8 \<and> vmm_ok p kd s' \<and>
     (\<forall>x. walk kd (ram s') x = (if in_window x then None else walk kd (ram s) x)) \<and>
     (\<exists>t. out = Some t \<and> page_aligned t \<and> \<not> frame_used p (t div 4096) (ram s) \<and> frame_used p (t div 4096) (ram s') \<and>
        (\<forall>j < 10. entry (ram s') t (1014 + j) = initial_context entry_point ! j) \<and>
        (\<forall>j < 1014. entry (ram s') t j = 0)))"
proof (cases "\<exists>x. free_slot kd (ram s) x")
  case True
  have "card {f, g} \<le> card (low_free p (ram s))" using assms by (intro card_mono) (auto simp: low_free_def)
  moreover have "0 < card (free_slots kd (ram s))" using True by (auto simp: card_gt_0_iff free_slots_def)
  ultimately have room: "room p kd (0 + 2) (0 + 1) s" using assms(2) by (simp add: room_def)
  obtain t s' where s': "create_process_stack p kd entry_point True s = Inr (0xC0001FD8, Some t, s')"
    "extends p kd {} s s'" "owns p kd s s' t"
    "\<forall>x. walk kd (ram s') x = (if in_window x then None else walk kd (ram s) x)"
    "\<forall>j < 10. entry (ram s') t (1014 + j) = initial_context entry_point ! j" "\<forall>j < 1014. entry (ram s') t j = 0"
    by (rule stack_run [OF assms(1) room, of entry_point]) blast
  then show ?thesis by (auto simp: extends_def owns_def data_frame_def)
next
  case False
  obtain va s1 where "vmm_get_new_page p kd kd True False 0 s = Inr (va, s1)" "va = 0 \<and> s1 = s"
    using get_new_page_run [OF assms, of True False] False by blast
  with False show ?thesis by (simp add: create_process_stack_def)
qed

theorem create_process_stack_context_witness:
  "\<exists>p s t s'. vmm_ok p 0x401000 s \<and> create_process_stack p 0x401000 0xC0000000 True s = Inr (0xC0001FD8, Some t, s') \<and>
     entry (ram s') t 1014 = 0x202 \<and> entry (ram s') t 1023 = 0xC0000000 \<and> entry (ram s') t 0 = 0"
proof -
  obtain p m' u' where d: "vmm_ok p 0x401000 \<lparr>ram = m', regs = u'\<rparr>"
    "frame_exists p 0x404" "frame_exists p 0x405" "\<not> frame_used p 0x404 m'" "\<not> frame_used p 0x405 m'"
    "\<forall>i < 1024. 2 \<le> i \<longrightarrow> entry m' 0x401000 i = 0" by (rule demo_128)
  let ?s = "\<lparr>ram = m', regs = u'\<rparr>"
  have "free_slot 0x401000 (ram ?s) 0x800000"
    using d(6) by (simp add: free_slot_def page_aligned_def dir_index_div walk_seen)
  with create_process_stack_context [OF d(1), of "0x404" "0x405" "0xC0000000"] d(2-5) obtain t s' where
    s': "create_process_stack p 0x401000 0xC0000000 True ?s = Inr (0xC0001FD8, Some t, s')"
    "\<forall>j < 10. entry (ram s') t (1014 + j) = initial_context 0xC0000000 ! j" "\<forall>j < 1014. entry (ram s') t j = 0" by auto
  have "entry (ram s') t 1014 = 0x202" "entry (ram s') t 1023 = 0xC0000000" "entry (ram s') t 0 = 0"
    using s'(2) [rule_format, of 0] s'(2) [rule_format, of 9] s'(3) by (simp_all add: initial_context_def)
  with d(1) s'(1) show ?thesis by (intro exI [of _ p] exI [of _ ?s]) blast
qed

end
