(* ===== verification/Proc_Create.thy ===== *)
theory Proc_Create
  imports Proc_Correct
begin

text \<open>
  The creation of a process (\<open>create_pcb\<close> of \<^verbatim>\<open>src/kernel/proc/proc.c\<close>), where the heap, the
  virtual memory manager and the frame allocator meet: a control block from the heap, an address
  space with the program, and a stack page entered into it.
\<close>

declare One_nat_def [simp del] upt_rec_numeral [simp del]

section \<open>Steps that leave the memory in use alone\<close>

definition in_use :: "pmm \<Rightarrow> u32 \<Rightarrow> vm \<Rightarrow> u32 \<Rightarrow> bool" where
  "in_use p kd s x \<longleftrightarrow> data_frame p kd s (page_start x) \<and> frame_used p (page_start x div 4096) (ram s)"

lemma in_use_extends: "extends p kd W s s' \<Longrightarrow> in_use p kd s x \<Longrightarrow> in_use p kd s' x"
  by (simp add: in_use_def extends_def)

text \<open>From \<open>s\<close> to \<open>s'\<close> only bytes of \<open>B\<close> change among those that were in use in \<open>s0\<close>.\<close>

definition calm :: "pmm \<Rightarrow> u32 \<Rightarrow> u32 set \<Rightarrow> vm \<Rightarrow> vm \<Rightarrow> vm \<Rightarrow> bool" where
  "calm p kd B s0 s s' \<longleftrightarrow> (\<exists>W. extends p kd W s s') \<and> (\<forall>x. in_use p kd s0 x \<longrightarrow> x \<notin> B \<longrightarrow> ram s' x = ram s x)"

lemma calm_mono: "calm p kd B s0 s s' \<Longrightarrow> B \<subseteq> C \<Longrightarrow> calm p kd C s0 s s'"
  by (auto simp: calm_def)

lemma calm_trans: "calm p kd B s0 s s1 \<Longrightarrow> calm p kd B s0 s1 s' \<Longrightarrow> calm p kd B s0 s s'"
  unfolding calm_def using extends_trans by (metis (no_types, lifting))

lemma calm_ok: "calm p kd B s0 s s' \<Longrightarrow> vmm_ok p kd s'"
  by (auto simp: calm_def extends_def)

lemma calm_refl: "vmm_ok p kd s \<Longrightarrow> calm p kd B s s s"
  using extends_refl by (auto simp: calm_def)

lemma calm_in_use: "calm p kd B s0 s0 s \<Longrightarrow> in_use p kd s0 x \<Longrightarrow> in_use p kd s x"
  using in_use_extends by (auto simp: calm_def)

lemma calm_compose:
  assumes "calm p kd B s s s1" "calm p kd B s1 s1 s2"
  shows "calm p kd B s s s2"
proof -
  have "calm p kd B s s1 s2" using assms calm_in_use [OF assms(1)] by (auto simp: calm_def)
  then show ?thesis by (rule calm_trans [OF assms(1)])
qed

lemma calm_vmm:
  assumes "calm p kd B s0 s0 s" "extends p kd W s s'" "\<And>u. u \<in> W \<Longrightarrow> \<not> frame_used p (u div 4096) (ram s0)"
  shows "calm p kd {} s0 s s'"
proof -
  have "ram s' x = ram s x" if x: "in_use p kd s0 x" for x
  proof -
    have "page_start x \<notin> W" using assms(3) x by (auto simp: in_use_def)
    moreover have "in_use p kd s x" by (rule calm_in_use [OF assms(1) x])
    ultimately show ?thesis using assms(2) in_own_page [of x] by (auto simp: in_use_def extends_def)
  qed
  with assms(2) show ?thesis by (auto simp: calm_def)
qed

lemma calm_write:
  assumes "calm p kd A s0 s0 s" "\<And>x. x \<in> B \<Longrightarrow> in_use p kd s0 x" "same_off B (ram s) m'"
  shows "calm p kd B s0 s (s\<lparr>ram := m'\<rparr>)" "extends p kd (page_start ` B) s (s\<lparr>ram := m'\<rparr>)"
    "room p kd n k (s\<lparr>ram := m'\<rparr>) = room p kd n k s" "walk kd m' y = walk kd (ram s) y"
proof -
  have df: "data_frame p kd s (page_start x)" if "x \<in> B" for x
    using calm_in_use [OF assms(1) assms(2) [OF that]] by (simp add: in_use_def)
  have off: "m' x = ram s x" if "x \<notin> B" for x using assms(3) that by (simp add: same_off_def)
  show e: "extends p kd (page_start ` B) s (s\<lparr>ram := m'\<rparr>)"
    by (rule area_extends(1) [OF calm_ok [OF assms(1)]]) (simp_all add: off df)
  show "room p kd n k (s\<lparr>ram := m'\<rparr>) = room p kd n k s"
    by (rule area_extends(2) [OF calm_ok [OF assms(1)], where A = B]) (simp_all add: off df)
  show "calm p kd B s0 s (s\<lparr>ram := m'\<rparr>)" using e off by (auto simp: calm_def)
  show "walk kd m' y = walk kd (ram s) y" using off df by (intro data_write(2) [OF calm_ok [OF assms(1)]]) blast
qed

lemma calm_extends:
  assumes "calm p kd B s s s'"
  shows "extends p kd (page_start ` B) s s'"
proof -
  obtain W where e: "extends p kd W s s'" using assms by (auto simp: calm_def)
  have "ram s' x = ram s x" if "data_frame p kd s u" "frame_used p (u div 4096) (ram s)" "u \<notin> page_start ` B" "x \<in> bytes u 4096" for u x
  proof -
    have "page_start x = u" using that by (intro page_start_eq) (simp_all add: data_frame_def)
    then have "in_use p kd s x" "x \<notin> B" using that by (auto simp: in_use_def)
    then show ?thesis using assms by (simp add: calm_def)
  qed
  with e show ?thesis unfolding extends_def by blast
qed

lemma owned_not_in:
  "owns p kd s0 s u \<Longrightarrow> (\<And>x. x \<in> B \<Longrightarrow> in_use p kd s0 x) \<Longrightarrow> u \<notin> page_start ` B"
  by (auto simp: owns_def in_use_def)

section \<open>Control blocks in memory in use\<close>

definition block_in_use :: "pmm \<Rightarrow> u32 \<Rightarrow> vm \<Rightarrow> u32 \<Rightarrow> bool" where
  "block_in_use p kd s pcb \<longleftrightarrow> pcb \<noteq> 0 \<and> fits pcb 40 \<and> (\<forall>x \<in> bytes pcb 40. in_use p kd s x)"

lemma field_off: "fits pcb 40 \<Longrightarrow> j \<le> 36 \<Longrightarrow> same_off (bytes pcb 40) m (store32 (pcb + U32 j) v m)"
proof -
  assume f: "fits pcb 40" "j \<le> 36"
  then have "unat (pcb + U32 j) = unat pcb + j" by (intro unat_offset [of pcb 40]) simp_all
  then have "fits (pcb + U32 j) 4" "x \<notin> bytes pcb 40 \<Longrightarrow> \<not> in_range x (pcb + U32 j) 4" for x
    using f by (auto simp: fits_def bytes_def in_range_def)
  then show ?thesis by (auto simp: same_off_def store32_frame)
qed

lemma field_word:
  assumes "pcb \<noteq> 0" "fits pcb 40" "j \<le> 36" "k \<le> 36" "j mod 4 = 0" "k mod 4 = 0"
  shows "load32 (store32 (pcb + U32 j) v m) (pcb + U32 k) = (if j = k then v else load32 m (pcb + U32 k))"
proof -
  have "arena [] {pcb}" using assms(1,2) by (simp add: arena_def)
  from pcb_word [OF this, of pcb pcb j k v m] assms show ?thesis by simp
qed

lemma field_calm:
  assumes "calm p kd {} s0 s s'" "block_in_use p kd s0 pcb" "k \<le> 36"
  shows "load32 (ram s') (pcb + U32 k) = load32 (ram s) (pcb + U32 k)"
proof (rule load32_cong)
  fix i :: nat assume i: "i < 4"
  have eq: "pcb + U32 k + U32 i = pcb + U32 (k + i)" by simp
  have "pcb + U32 (k + i) \<in> bytes pcb 40"
    using assms(2,3) i unat_offset [of pcb 40 "k + i"] by (simp add: block_in_use_def bytes_def in_range_def)
  then show "ram s' (pcb + U32 k + U32 i) = ram s (pcb + U32 k + U32 i)"
    unfolding eq using assms(1,2) unfolding calm_def block_in_use_def by blast
qed

section \<open>Building the process\<close>

definition process_space ::
    "pmm \<Rightarrow> u32 \<Rightarrow> bool \<Rightarrow> (nat \<Rightarrow> u8) \<Rightarrow> nat \<Rightarrow> vm \<Rightarrow> u32 \<Rightarrow> u32 \<Rightarrow> u32 \<Rightarrow> (nat \<Rightarrow> u32) \<Rightarrow> nat \<Rightarrow> vm \<Rightarrow> bool" where
  "process_space p kd us prog n s0 va d t c k s \<longleftrightarrow>
     page_of p kd va d s \<and> space_tables p kd us s0 d t c k s \<and> code_loaded prog n c k s"

lemma process_space_step:
  assumes "process_space p kd us prog n s0 va d t c k s" "extends p kd W s s'" "\<And>u. owns p kd s0 s u \<Longrightarrow> u \<notin> W"
  shows "process_space p kd us prog n s0 va d t c k s'"
proof -
  note sp = assms(1) [unfolded process_space_def]
  have own: "owns p kd s0 s d" "0 < k \<Longrightarrow> owns p kd s0 s t" "\<And>i. i < k \<Longrightarrow> owns p kd s0 s (c i)"
    using sp by (simp_all add: space_tables_def)
  note kp = extends_keeps [OF assms(2)]
  have "space_tables p kd us s0 d t c k s'" using sp own assms(3) by (blast intro: space_keeps [OF _ kp])
  moreover have "code_loaded prog n c k s'" using sp own assms(3) by (blast intro: code_keeps [OF _ _ kp])
  moreover have "page_of p kd va d s'" using sp extends_page [OF assms(2)] by blast
  ultimately show ?thesis by (simp add: process_space_def)
qed

text \<open>The same with the frame \<open>f\<close> entered as the second page, prepared as a stack.\<close>

definition started ::
    "pmm \<Rightarrow> u32 \<Rightarrow> bool \<Rightarrow> (nat \<Rightarrow> u8) \<Rightarrow> nat \<Rightarrow> vm \<Rightarrow> u32 \<Rightarrow> u32 \<Rightarrow> u32 \<Rightarrow> (nat \<Rightarrow> u32) \<Rightarrow> u32 \<Rightarrow> nat \<Rightarrow> vm \<Rightarrow> bool" where
  "started p kd us prog n s0 va d t c f k s \<longleftrightarrow>
     page_of p kd va d s \<and> space_tables p kd us s0 d t (c(1 := f)) (max k 2) s \<and> code_loaded prog n c k s \<and>
     (\<forall>i < k. owns p kd s0 s (c i)) \<and> owns p kd s0 s f \<and>
     (\<forall>j < 10. entry (ram s) f (1014 + j) = initial_context 0xC0000000 ! j) \<and> (\<forall>j < 1014. entry (ram s) f j = 0)"

lemma started_step:
  assumes "started p kd us prog n s0 va d t c f k s" "extends p kd W s s'" "\<And>u. owns p kd s0 s u \<Longrightarrow> u \<notin> W"
  shows "started p kd us prog n s0 va d t c f k s'"
proof -
  note st = assms(1) [unfolded started_def]
  note kp = extends_keeps [OF assms(2)]
  have own: "owns p kd s0 s d" "owns p kd s0 s t" using st by (simp_all add: space_tables_def)
  have "space_tables p kd us s0 d t (c(1 := f)) (max k 2) s'" using st own assms(3) by (blast intro: space_keeps [OF _ kp])
  moreover have "code_at prog n (ram s') i (c i)" if "i < k" for i
  proof (rule owned_code [OF _ kp])
    show o: "owns p kd s0 s (c i)" and "code_at prog n (ram s) i (c i)" using st that by (simp_all add: code_loaded_def)
    from o show "c i \<notin> W" by (rule assms(3))
  qed
  moreover have "entry (ram s') f i = entry (ram s) f i" if "i < 1024" for i
    using st assms(3) that by (intro owned_entry [OF _ kp]) blast+
  moreover have "page_of p kd va d s'" using st extends_page [OF assms(2)] by blast
  moreover have "owns p kd s0 s' u" if "owns p kd s0 s u" for u by (rule owns_keeps [OF that kp])
  ultimately show ?thesis using st unfolding started_def code_loaded_def by simp
qed

text \<open>Assigning a field of the control block.\<close>

lemma field_step:
  assumes "calm p kd A s0 s0 s" "block_in_use p kd s0 pcb" "j \<le> 36"
  shows "calm p kd (bytes pcb 40) s0 s (s\<lparr>ram := store32 (pcb + U32 j) v (ram s)\<rparr>)"
    "room p kd n k (s\<lparr>ram := store32 (pcb + U32 j) v (ram s)\<rparr>) = room p kd n k s"
    "process_space p kd us prog l s0 va d t c q s \<Longrightarrow> process_space p kd us prog l s0 va d t c q (s\<lparr>ram := store32 (pcb + U32 j) v (ram s)\<rparr>)"
    "started p kd us prog l s0 va d t c f q s \<Longrightarrow> started p kd us prog l s0 va d t c f q (s\<lparr>ram := store32 (pcb + U32 j) v (ram s)\<rparr>)"
proof -
  have B: "\<And>x. x \<in> bytes pcb 40 \<Longrightarrow> in_use p kd s0 x" and f: "fits pcb 40" using assms(2) by (simp_all add: block_in_use_def)
  note w = calm_write [OF assms(1) B field_off [OF f assms(3), of "ram s" v]]
  show "calm p kd (bytes pcb 40) s0 s (s\<lparr>ram := store32 (pcb + U32 j) v (ram s)\<rparr>)"
    "room p kd n k (s\<lparr>ram := store32 (pcb + U32 j) v (ram s)\<rparr>) = room p kd n k s" by (rule w; assumption)+
  have P: "u \<notin> page_start ` bytes pcb 40" if "owns p kd s0 s u" for u using that B by (rule owned_not_in)
  have e: "extends p kd (page_start ` bytes pcb 40) s (s\<lparr>ram := store32 (pcb + U32 j) v (ram s)\<rparr>)" by (rule w(2))
  show "process_space p kd us prog l s0 va d t c q s \<Longrightarrow> process_space p kd us prog l s0 va d t c q (s\<lparr>ram := store32 (pcb + U32 j) v (ram s)\<rparr>)"
    by (rule process_space_step [OF _ e P])
  show "started p kd us prog l s0 va d t c f q s \<Longrightarrow> started p kd us prog l s0 va d t c f q (s\<lparr>ram := store32 (pcb + U32 j) v (ram s)\<rparr>)"
    by (rule started_step [OF _ e P])
qed

lemma stack_step:
  assumes cm: "calm p kd A s0 s0 s" and sp: "process_space p kd us prog n s0 va d t c k s" and room: "room p kd (r + 2) (q + 1) s"
    and k: "0 < k" "k \<le> 1024"
  obtains f s6 s7 where "create_process_stack p kd 0xC0000000 True s = Inr (0xC0001FD8, Some f, s6)"
    "vmm_map_frame p kd va 0xC0001000 f True us s6 = Inr (True, s7)" "calm p kd {} s0 s s6" "calm p kd {} s0 s6 s7"
    "started p kd us prog n s0 va d t c f k s7" "room p kd r (q + 1) s7"
proof -
  have ok: "vmm_ok p kd s" using cm by (rule calm_ok)
  obtain f s6 where st: "create_process_stack p kd 0xC0000000 True s = Inr (0xC0001FD8, Some f, s6)"
    "extends p kd {} s s6" "owns p kd s s6 f" "room p kd r (q + 1) s6"
    "\<forall>j < 10. entry (ram s6) f (1014 + j) = initial_context 0xC0000000 ! j" "\<forall>j < 1014. entry (ram s6) f j = 0"
    by (rule stack_run [OF ok room, of "0xC0000000"]) blast
  have c6: "calm p kd {} s0 s s6" by (rule calm_vmm [OF cm st(2)]) simp
  have sp6: "process_space p kd us prog n s0 va d t c k s6" by (rule process_space_step [OF sp st(2)]) simp
  note t6 = sp6 [unfolded process_space_def]
  have used: "\<not> frame_used p (f div 4096) (ram s)" using st(3) by (simp add: owns_def)
  have own: "owns p kd s0 s6 f"
    using st(3) cm by (auto simp: owns_def calm_def extends_def)
  have ne: "f \<noteq> u" if "owns p kd s0 s u" for u using that used by (rule owned_new)
  have "owns p kd s0 s d" "owns p kd s0 s t" using sp k(1) by (simp_all add: process_space_def space_tables_def)
  note fd = ne [OF this(1)] and ft = ne [OF this(2)]
  have t: "owns p kd s0 s6 t" "low_addr t" "pg_present (entry (ram s6) d 768)" "page_base (entry (ram s6) d 768) = t" "data_frame p kd s6 t"
      "\<And>i. i < k \<Longrightarrow> c i \<noteq> t \<and> owns p kd s0 s6 (c i)"
    using t6 k(1) by (auto simp: space_tables_def owns_def data_frame_def)
  let ?s7 = "invalidate 0xC0001000 (s6\<lparr>ram := modify_entry t 1 (page_word True us f) (ram s6)\<rparr>)"
  have one: "1 \<le> k" "(1 :: nat) < 1024" using k by simp_all
  have mp: "vmm_map_frame p kd va 0xC0001000 f True us s6 = Inr (True, ?s7)"
    using map_frame_present [OF conjunct1 [OF t6] one(2) t(3,4,5,2), of f us] by (simp add: PAGE_SIZE_def)
  have ok6: "vmm_ok p kd s6" using st(2) by (rule extends_ok)
  have tab6: "space_tables p kd us s0 d t c k s6" using t6 by blast
  note rm = remap [OF ok6 tab6 k(1) one own fd ft, of "0xC0001000"]
  have x7: "extends p kd {t} s6 ?s7" by (rule rm(1))
  note kp = extends_keeps [OF x7]
  have c6': "calm p kd A s0 s0 s6" by (rule calm_trans [OF cm calm_mono [OF c6]]) simp
  have e7: "entry (ram ?s7) f i = entry (ram s6) f i" if "i < 1024" for i using ft that by (intro owned_entry [OF own kp]) simp_all
  show ?thesis
  proof (rule that [OF st(1) mp c6])
    show "calm p kd {} s0 s6 ?s7" using t(1) by (intro calm_vmm [OF c6' x7]) (simp add: owns_def)
    have "page_of p kd va d ?s7" using t6 by (blast intro: extends_page [OF x7])
    moreover have "space_tables p kd us s0 d t (c(1 := f)) (max k 2) ?s7" using rm(2) by (simp add: numeral_2_eq_2 One_nat_def)
    moreover have "code_loaded prog n c k ?s7" using t6 t(6) by (intro code_keeps [OF tab6 _ kp]) auto
    moreover have "owns p kd s0 ?s7 f" by (rule owns_keeps [OF own kp])
    moreover have "\<forall>i < k. owns p kd s0 ?s7 (c i)" using t(6) owns_keeps [OF _ kp] by blast
    ultimately show "started p kd us prog n s0 va d t c f k ?s7" using st(5,6) e7 unfolding started_def by simp
    show "room p kd r (q + 1) ?s7" using modify_extends(2) [OF ok6 t(5) one(2)] st(4) by (simp add: room_def)
  qed
qed

text \<open>The fields of a new control block, and the bytes it occupies.\<close>

lemma set_field_store:
  "set_pcb_pid pcb v m = store32 (pcb + U32 0) v m" "set_node_next (sched_node pcb) v m = store32 (pcb + U32 4) v m"
  "set_node_prev (sched_node pcb) v m = store32 (pcb + U32 8) v m" "set_pcb_state pcb st m = store32 (pcb + U32 12) (state_code st) m"
  "set_pcb_priority pcb v m = store32 (pcb + U32 16) v m" "set_pcb_quantum pcb v m = store32 (pcb + U32 20) v m"
  "set_pcb_age pcb v m = store32 (pcb + U32 24) v m" "set_pcb_address_space pcb v m = store32 (pcb + U32 28) v m"
  "set_pcb_space_phys pcb v m = store32 (pcb + U32 32) v m" "set_pcb_stack pcb v m = store32 (pcb + U32 36) v m"
  by (simp_all add: set_pcb_pid_def set_pcb_address_space_def set_pcb_space_phys_def set_pcb_stack_def set_pcb_defs
      sched_node_def set_node_next_def set_node_prev_def add.assoc)

lemma field_load:
  "pcb_pid m pcb = load32 m (pcb + U32 0)" "pcb_state m pcb = load32 m (pcb + U32 12)"
  "pcb_priority m pcb = load32 m (pcb + U32 16)" "pcb_quantum m pcb = load32 m (pcb + U32 20)"
  "pcb_age m pcb = load32 m (pcb + U32 24)" "pcb_address_space m pcb = load32 m (pcb + U32 28)"
  "pcb_space_phys m pcb = load32 m (pcb + U32 32)" "pcb_stack m pcb = load32 m (pcb + U32 36)"
  by (simp_all add: pcb_defs)

lemma new_pcb_off: "fits pcb 40 \<Longrightarrow> same_off (bytes pcb 40) m (new_pcb pcb pid m)"
  unfolding new_pcb_def Let_def set_field_store
  by (intro same_off_trans [OF _ field_off] same_off_refl) simp_all

lemma new_pcb_fields:
  assumes "pcb \<noteq> 0" "fits pcb 40"
  shows "load32 (new_pcb pcb pid m) (pcb + U32 0) = pid" "load32 (new_pcb pcb pid m) (pcb + U32 16) = 0"
    "load32 (new_pcb pcb pid m) (pcb + U32 20) = 40" "load32 (new_pcb pcb pid m) (pcb + U32 24) = 0"
  unfolding new_pcb_def Let_def set_field_store by (subst field_word [OF assms] | simp)+

lemma calm_heap:
  assumes "heap_ready hi a lim K live (ram s0)" "live pcb = Some 40" "\<forall>x \<in> heap_area a lim. in_use p kd s0 x"
    and "calm p kd (bytes pcb 40) s0 s0 s"
  shows "heap_ready hi a lim K live (ram s)" "same_contents (live(pcb := None)) (ram s0) (ram s)"
proof -
  let ?m = "\<lambda>x. if x \<in> bytes pcb 40 then ram s x else ram s0 x"
  have w: "heap_ready hi a lim K live ?m" "same_contents (live(pcb := None)) (ram s0) ?m"
    by (rule rh.ready_write [OF assms(1,2)]; simp add: same_off_def)+
  have on: "same_on (heap_area a lim) ?m (ram s)" using assms(3,4) by (simp add: same_on_def calm_def)
  show "heap_ready hi a lim K live (ram s)" using w(1) on by (rule rh.ready_local)
  have "x \<in> heap_area a lim" if "(live(pcb := None)) l = Some k" "in_range x l k" for l k x
    using rh.ready_area [OF assms(1), of l k] that by (auto simp: bytes_def split: if_splits)
  then show "same_contents (live(pcb := None)) (ram s0) (ram s)"
    using w(2) on unfolding same_contents_def same_on_def by metis
qed

lemma space_of_pcb:
  assumes ok: "vmm_ok p kd s" and B: "block_in_use p kd s pcb" and n: "unat prog_size \<le> 4194304"
    and src: "\<forall>i < unat prog_size. readable p kd s (entry_point + U32 i) (prog i)"
    and room: "room p kd (2 * pages_for (unat prog_size) + 6 + r) (3 + q) s"
  obtains va d t c s2 s4 s5 where
    "vmm_create_virtual_address_space p kd entry_point prog_size us s = Inr (va, s2)"
    "vmm_get_physical_address kd kd va (on_ram (set_pcb_address_space pcb va) s2) = Inr (d, s4)"
    "s5 = on_ram (set_pcb_space_phys pcb d) s4" "calm p kd (bytes pcb 40) s s s5" "room p kd (r + 2) (q + 1) s5"
    "process_space p kd us prog (unat prog_size) s va d t c (pages_for (unat prog_size)) s5"
    "\<forall>j \<in> {0, 4, 8, 12, 16, 20, 24, 28, 32}. load32 (ram s5) (pcb + U32 j) =
       (if j = 28 then va else if j = 32 then d else load32 (ram s) (pcb + U32 j))"
proof -
  let ?n = "unat prog_size" and ?k = "pages_for (unat prog_size)"
  have room': "room p kd (2 * ?k + 4 + (r + 2)) (3 + q) s" using room by (simp add: room_def)
  obtain va d t c s2 where a: "vmm_create_virtual_address_space p kd entry_point prog_size us s = Inr (va, s2)"
    "extends p kd {} s s2" "page_of p kd va d s2" "space_tables p kd us s d t c ?k s2"
    "code_loaded prog ?n c ?k s2" "room p kd (r + 2) (q + 1) s2"
    by (rule create_space_run [OF ok n src room', where us = us]) blast
  have c0: "calm p kd {} s s s" by (rule calm_refl [OF ok])
  have c2: "calm p kd {} s s s2" by (rule calm_vmm [OF c0 a(2)]) simp
  have sp2: "process_space p kd us prog ?n s va d t c ?k s2" using a by (simp add: process_space_def)
  define s3 where "s3 = on_ram (set_pcb_address_space pcb va) s2"
  note f3 = field_step [OF c2 B, where j = 28 and v = va, folded set_field_store, folded s3_def, simplified]
  have c3: "calm p kd (bytes pcb 40) s s s3" using calm_trans [OF calm_mono [OF c2] f3(1)] by simp
  have sp3: "process_space p kd us prog ?n s va d t c ?k s3" by (rule f3(3) [OF sp2])
  obtain s4 where ph: "vmm_get_physical_address kd kd va s3 = Inr (d, s4)" "extends p kd {} s3 s4" "\<And>n k. room p kd n k s4 = room p kd n k s3"
    using sp3 unfolding process_space_def by (elim conjE) (rule physical_page, assumption, blast)
  have c34: "calm p kd {} s s3 s4" by (rule calm_vmm [OF c3 ph(2)]) simp
  have c4: "calm p kd (bytes pcb 40) s s s4" using calm_trans [OF c3 calm_mono [OF c34]] by simp
  have sp4: "process_space p kd us prog ?n s va d t c ?k s4" by (rule process_space_step [OF sp3 ph(2)]) simp
  define s5 where "s5 = on_ram (set_pcb_space_phys pcb d) s4"
  note f5 = field_step [OF c4 B, where j = 32 and v = d, folded set_field_store, folded s5_def, simplified]
  have B': "pcb \<noteq> 0" "fits pcb 40" using B by (simp_all add: block_in_use_def)
  have ld: "load32 (ram s5) (pcb + U32 j) = (if j = 28 then va else if j = 32 then d else load32 (ram s) (pcb + U32 j))"
    if j: "j \<le> 36" "j mod 4 = 0" for j
  proof -
    have "load32 (ram s5) (pcb + U32 j) = (if 32 = j then d else load32 (ram s4) (pcb + U32 j))"
      using field_word [OF B', of 32 j d "ram s4"] j by (simp add: s5_def set_field_store)
    also have "load32 (ram s4) (pcb + U32 j) = load32 (ram s3) (pcb + U32 j)" by (rule field_calm [OF c34 B j(1)])
    also have "\<dots> = (if 28 = j then va else load32 (ram s2) (pcb + U32 j))"
      using field_word [OF B', of 28 j va "ram s2"] j by (simp add: s3_def set_field_store)
    also have "load32 (ram s2) (pcb + U32 j) = load32 (ram s) (pcb + U32 j)" by (rule field_calm [OF c2 B j(1)])
    finally show ?thesis by auto
  qed
  show ?thesis
  proof (rule that [OF a(1) ph(1) [unfolded s3_def] s5_def])
    show "calm p kd (bytes pcb 40) s s s5" by (rule calm_trans [OF c4 f5(1)])
    show "room p kd (r + 2) (q + 1) s5" using f5(2) ph(3) f3(2) a(6) by simp
    show "process_space p kd us prog ?n s va d t c ?k s5" by (rule f5(3) [OF sp4])
    show "\<forall>j \<in> {0, 4, 8, 12, 16, 20, 24, 28, 32}. load32 (ram s5) (pcb + U32 j) =
       (if j = 28 then va else if j = 32 then d else load32 (ram s) (pcb + U32 j))"
      by (intro ballI ld) auto
  qed
qed

text \<open>
  The memory of a process whose program of \<open>n\<close> bytes is \<open>prog\<close> and whose stack page is the frame
  \<open>f\<close>: the first 8 MB as in the kernel, the program from \<open>0xC0000000\<close> filled up with zeros to
  whole pages, except that the second page is the stack, and nothing else.
\<close>

definition process_image :: "u32 \<Rightarrow> u32 \<Rightarrow> (nat \<Rightarrow> u8) \<Rightarrow> nat \<Rightarrow> u32 \<Rightarrow> mem \<Rightarrow> bool" where
  "process_image kd d prog n f m \<longleftrightarrow> (\<forall>x. peek m d x =
     (if dir_index x < 2 then peek m kd x
      else if dir_index x = 768 \<and> page_index x = 1 then Some (m (f + (x AND 0xFFF)))
      else if dir_index x = 768 \<and> page_index x < pages_for n then
        Some (let i = unat (x - 0xC0000000) in if i < n then prog i else 0)
      else None))"

lemma process_image_tables:
  assumes "started p kd us prog n s0 va d t c f (pages_for n) s" "0 < pages_for n"
  shows "process_image kd d prog n f (ram s)"
  unfolding process_image_def
proof
  fix x
  have st: "space_tables p kd us s0 d t (c(1 := f)) (max (pages_for n) 2) s" "code_loaded prog n c (pages_for n) s"
    using assms(1) by (simp_all add: started_def)
  show "peek (ram s) d x =
     (if dir_index x < 2 then peek (ram s) kd x
      else if dir_index x = 768 \<and> page_index x = 1 then Some (ram s (f + (x AND 0xFFF)))
      else if dir_index x = 768 \<and> page_index x < pages_for n then
        Some (let i = unat (x - 0xC0000000) in if i < n then prog i else 0)
      else None)"
    using space_peek [OF st(1), of x] code_peek [OF st(2), of x] assms(2) by auto
qed

definition process_ready ::
    "u32 \<Rightarrow> (nat \<Rightarrow> u8) \<Rightarrow> nat \<Rightarrow> u32 \<Rightarrow> u32 \<Rightarrow> mem \<Rightarrow> bool" where
  "process_ready kd prog n pid pcb m \<longleftrightarrow>
     pcb_pid m pcb = pid \<and> pcb_state m pcb = state_code STATE_READY \<and> pcb_priority m pcb = 0 \<and>
     pcb_quantum m pcb = 40 \<and> pcb_age m pcb = 0 \<and> pcb_stack m pcb = 0xC0001FD8 \<and>
     translate kd m (pcb_address_space m pcb) = Some (pcb_space_phys m pcb) \<and>
     (\<exists>f. process_image kd (pcb_space_phys m pcb) prog n f m \<and>
        (\<forall>j < 10. entry m f (1014 + j) = initial_context 0xC0000000 ! j) \<and> (\<forall>j < 1014. entry m f j = 0))"

text \<open>The process with the tables it owns since the state \<open>s0\<close>; other steps keep it.\<close>

definition pcb_words :: "u32 \<Rightarrow> u32 \<Rightarrow> u32 \<Rightarrow> u32 \<Rightarrow> mem \<Rightarrow> bool" where
  "pcb_words pid pcb va d m \<longleftrightarrow>
     pcb_pid m pcb = pid \<and> pcb_state m pcb = state_code STATE_READY \<and> pcb_priority m pcb = 0 \<and>
     pcb_quantum m pcb = 40 \<and> pcb_age m pcb = 0 \<and> pcb_address_space m pcb = va \<and> pcb_space_phys m pcb = d \<and>
     pcb_stack m pcb = 0xC0001FD8"

definition process_at ::
    "pmm \<Rightarrow> u32 \<Rightarrow> bool \<Rightarrow> (nat \<Rightarrow> u8) \<Rightarrow> nat \<Rightarrow> vm \<Rightarrow> u32 \<Rightarrow> u32 \<Rightarrow> vm \<Rightarrow> bool" where
  "process_at p kd us prog n s0 pid pcb s \<longleftrightarrow>
     (\<exists>va d t c f. pcb_words pid pcb va d (ram s) \<and> started p kd us prog n s0 va d t c f (pages_for n) s)"

lemma process_at_ready:
  assumes "process_at p kd us prog n s0 pid pcb s" "0 < pages_for n"
  shows "process_ready kd prog n pid pcb (ram s)"
proof -
  obtain va d t c f where w: "pcb_words pid pcb va d (ram s)" and st: "started p kd us prog n s0 va d t c f (pages_for n) s"
    using assms(1) by (auto simp: process_at_def)
  have "translate kd (ram s) va = Some d"
    using st mapped_translate [of p kd va d s 0] by (simp add: started_def page_of_def)
  moreover have "process_image kd d prog n f (ram s)" by (rule process_image_tables [OF st assms(2)])
  ultimately show ?thesis using w st unfolding process_ready_def pcb_words_def started_def by auto
qed

lemma pcb_words_same:
  assumes "\<And>j. j \<in> {0, 12, 16, 20, 24, 28, 32, 36} \<Longrightarrow> load32 m' (pcb + U32 j) = load32 m (pcb + U32 j)"
  shows "pcb_words pid pcb va d m' = pcb_words pid pcb va d m"
  unfolding pcb_words_def field_load
  using assms [of 0] assms [of 12] assms [of 16] assms [of 20] assms [of 24] assms [of 28] assms [of 32] assms [of 36] by simp

lemma process_at_step:
  assumes "process_at p kd us prog n s0 pid pcb s" "extends p kd W s s'" "\<And>u. owns p kd s0 s u \<Longrightarrow> u \<notin> W"
    and "\<And>j. j \<in> {0, 12, 16, 20, 24, 28, 32, 36} \<Longrightarrow> load32 (ram s') (pcb + U32 j) = load32 (ram s) (pcb + U32 j)"
  shows "process_at p kd us prog n s0 pid pcb s'"
  using assms(1) started_step [OF _ assms(2,3)] pcb_words_same [OF assms(4)] unfolding process_at_def by blast

lemma pcb_run:
  fixes prog_size next_pid :: u32
  assumes ok: "vmm_ok p kd s" and B: "block_in_use p kd s pcb" and n: "0 < unat prog_size" "unat prog_size \<le> 4194304"
    and src: "\<forall>i < unat prog_size. readable p kd s (entry_point + U32 i) (prog i)"
    and room: "room p kd (2 * pages_for (unat prog_size) + 6 + r) (3 + q) s"
    and init: "load32 (ram s) (pcb + U32 0) = pid" "load32 (ram s) (pcb + U32 16) = 0"
      "load32 (ram s) (pcb + U32 20) = 40" "load32 (ram s) (pcb + U32 24) = 0"
  obtains va d f s2 s4 s6 s7 s9 where
    "vmm_create_virtual_address_space p kd entry_point prog_size us s = Inr (va, s2)"
    "vmm_get_physical_address kd kd va (on_ram (set_pcb_address_space pcb va) s2) = Inr (d, s4)"
    "create_process_stack p kd 0xC0000000 True (on_ram (set_pcb_space_phys pcb d) s4) = Inr (0xC0001FD8, Some f, s6)"
    "pcb_address_space (ram s6) pcb = va" "vmm_map_frame p kd va 0xC0001000 f True us s6 = Inr (True, s7)"
    "s9 = on_ram (set_pcb_state pcb STATE_READY) (on_ram (set_pcb_stack pcb 0xC0001FD8) s7)"
    "calm p kd (bytes pcb 40) s s s9" "process_at p kd us prog (unat prog_size) s pid pcb s9" "room p kd r (q + 1) s9"
proof -
  let ?n = "unat prog_size" and ?k = "pages_for (unat prog_size)"
  have k: "0 < ?k" "?k \<le> 1024" using n(1) pages_for_bounds(4) [OF n(2)] unfolding pages_for_def by (simp_all add: div_greater_zero_iff)
  have B': "pcb \<noteq> 0" "fits pcb 40" using B by (simp_all add: block_in_use_def)
  obtain va d t c s2 s4 s5 where a: "vmm_create_virtual_address_space p kd entry_point prog_size us s = Inr (va, s2)"
    "vmm_get_physical_address kd kd va (on_ram (set_pcb_address_space pcb va) s2) = Inr (d, s4)"
    "s5 = on_ram (set_pcb_space_phys pcb d) s4" "calm p kd (bytes pcb 40) s s s5" "room p kd (r + 2) (q + 1) s5"
    "process_space p kd us prog ?n s va d t c ?k s5"
    and ld: "\<forall>j \<in> {0, 4, 8, 12, 16, 20, 24, 28, 32}. load32 (ram s5) (pcb + U32 j) =
       (if j = 28 then va else if j = 32 then d else load32 (ram s) (pcb + U32 j))"
    by (rule space_of_pcb [OF ok B n(2) src room, where us = us])
  obtain f s6 s7 where st: "create_process_stack p kd 0xC0000000 True s5 = Inr (0xC0001FD8, Some f, s6)"
    "vmm_map_frame p kd va 0xC0001000 f True us s6 = Inr (True, s7)" "calm p kd {} s s5 s6" "calm p kd {} s s6 s7"
    "started p kd us prog ?n s va d t c f ?k s7" "room p kd r (q + 1) s7"
    by (rule stack_step [OF a(4,6,5) k])
  have c7: "calm p kd (bytes pcb 40) s s s7"
    using calm_trans [OF a(4) calm_mono [OF calm_trans [OF st(3,4)]]] by simp
  define s8 where "s8 = on_ram (set_pcb_stack pcb 0xC0001FD8) s7"
  define s9 where "s9 = on_ram (set_pcb_state pcb STATE_READY) s8"
  have ld7: "load32 (ram s7) (pcb + U32 j) = load32 (ram s5) (pcb + U32 j)" if "j \<le> 36" for j
    using field_calm [OF calm_trans [OF st(3,4)] B that] .
  have va6: "pcb_address_space (ram s6) pcb = va"
    using field_calm [OF st(3) B, of 28] ld by (simp add: field_load)
  note f8 = field_step [OF c7 B, where j = 36 and v = "0xC0001FD8", folded set_field_store, folded s8_def, simplified]
  have c8: "calm p kd (bytes pcb 40) s s s8" by (rule calm_trans [OF c7 f8(1)])
  note f9 = field_step [OF c8 B, where j = 12 and v = "state_code STATE_READY", folded set_field_store, folded s9_def, simplified]
  have c9: "calm p kd (bytes pcb 40) s s s9" by (rule calm_trans [OF c8 f9(1)])
  have ld9: "load32 (ram s9) (pcb + U32 j) = (if j = 12 then state_code STATE_READY else if j = 36 then 0xC0001FD8
      else load32 (ram s5) (pcb + U32 j))" if "j \<le> 36" "j mod 4 = 0" for j
    using field_word [OF B', of 12 j "state_code STATE_READY" "ram s8"] field_word [OF B', of 36 j "0xC0001FD8" "ram s7"] ld7 that
    by (auto simp: s9_def s8_def set_field_store)
  have "pcb_words pid pcb va d (ram s9)"
    unfolding pcb_words_def field_load
    using ld9 [of 0] ld9 [of 12] ld9 [of 16] ld9 [of 20] ld9 [of 24] ld9 [of 28] ld9 [of 32] ld9 [of 36] ld init by simp
  then have "process_at p kd us prog ?n s pid pcb s9"
    using f9(4) [OF f8(4) [OF st(5)]] unfolding process_at_def by blast
  moreover have "room p kd r (q + 1) s9" using f9(2) f8(2) st(6) by simp
  ultimately show ?thesis using that [OF a(1,2) st(1) [unfolded a(3)] va6 st(2) _ c9] by (simp add: s9_def s8_def)
qed

lemma readable_off:
  assumes "extends p kd W s s'" "readable p kd s a v" "same_off A (ram s) (ram s')" "translate kd (ram s) a \<notin> Some ` A"
  shows "readable p kd s' a v"
proof -
  obtain pa where w: "\<not> in_window a" and pa: "translate kd (ram s) a = Some pa" "data_frame p kd s (page_start pa)"
      "frame_used p (page_start pa div 4096) (ram s)" "ram s pa = v" using assms(2) by (auto simp: readable_def)
  have "translate kd (ram s') a = Some pa"
    using assms(1) w pa(1) by (auto simp: translate_def extends_def split: option.splits)
  moreover have "ram s' pa = v" using assms(3,4) pa(1,4) by (auto simp: same_off_def)
  ultimately show ?thesis using assms(1) w pa by (auto simp: readable_def extends_def)
qed

text \<open>
  A kernel ready to create processes: the page tables are well formed; the heap has a reserve of \<open>N\<close> bytes below
  \<open>lim\<close>; the part of the heap below \<open>lim\<close> lies in used frames that hold no page table, in the identity-mapped pages
  behind page 0 and below the temporary window, where a physical address is what the kernel's pointer means; and \<open>r\<close> low
  frames and \<open>q\<close> slots are free.  Nothing is asked of the heap from \<open>lim\<close> on.
\<close>

definition kernel_ready ::
  "pmm \<Rightarrow> u32 \<Rightarrow> nat \<Rightarrow> u32 \<Rightarrow> nat \<Rightarrow> nat \<Rightarrow> allocations \<Rightarrow> nat \<Rightarrow> nat \<Rightarrow> vm \<Rightarrow> bool" where
  "kernel_ready p kd hi heap_start lim N live r q s \<longleftrightarrow> vmm_ok p kd s \<and> heap_ready hi heap_start lim N live (ram s) \<and>
     0x1000 \<le> unat heap_start \<and> lim \<le> 0x7FF000 \<and> (\<forall>x \<in> heap_area heap_start lim. in_use p kd s x) \<and> room p kd r q s"

lemma ready_identity:
  assumes "kernel_ready p kd hi heap_start lim N live r q s" "x \<in> heap_area heap_start lim"
  shows "translate kd (ram s) x = Some x"
proof -
  have "low_addr x" using assms by (auto simp: kernel_ready_def heap_area_def low_addr_def)
  then show ?thesis using assms(1) unfolding kernel_ready_def vmm_ok_def running_def ident_def by blast
qed

text \<open>A program of \<open>n\<close> bytes at \<open>entry_point\<close>, outside that part of the heap.\<close>

definition program_at :: "pmm \<Rightarrow> u32 \<Rightarrow> nat \<Rightarrow> u32 \<Rightarrow> u32 \<Rightarrow> nat \<Rightarrow> (nat \<Rightarrow> u8) \<Rightarrow> vm \<Rightarrow> bool" where
  "program_at p kd lim heap_start entry_point n prog s \<longleftrightarrow> 0 < n \<and> n \<le> 0x400000 \<and>
     (\<forall>i < n. readable p kd s (entry_point + U32 i) (prog i) \<and>
       translate kd (ram s) (entry_point + U32 i) \<notin> Some ` heap_area heap_start lim)"

lemma create_pcb_run:
  assumes rd: "kernel_ready p kd hi heap_start lim (56 + K) live (2 * pages_for (unat prog_size) + 6 + r) (3 + q) s"
    and prog: "program_at p kd lim heap_start entry_point (unat prog_size) prog s"
  obtains pcb s1 s' where
    "create_pcb p kd heap_start entry_point prog_size us (next_pid, s) = Some (Inr (pcb, next_pid + 1, s'))"
    "live pcb = None" "kernel_ready p kd hi heap_start lim K (live(pcb \<mapsto> 40)) r (q + 1) s'"
    "calm p kd (heap_area heap_start lim) s s s'" "same_contents live (ram s) (ram s')"
    "\<forall>x \<in> heap_area heap_start lim. in_use p kd s1 x" "process_at p kd us prog (unat prog_size) s1 next_pid pcb s'"
proof -
  let ?H = "heap_area heap_start lim"
  have ok: "vmm_ok p kd s" and hp: "heap_ready hi heap_start lim (56 + K) live (ram s)" and area: "\<And>x. x \<in> ?H \<Longrightarrow> in_use p kd s x"
    using rd by (simp_all add: kernel_ready_def)
  obtain pcb m where g: "kmalloc heap_start 40 (ram s) = Some (pcb, m)" "pcb \<noteq> 0" "live pcb = None"
      "heap_ready hi heap_start lim K (live(pcb \<mapsto> 40)) m" "same_contents live (ram s) m" "same_off ?H (ram s) m"
    and f40: "fits pcb 40" and sub: "bytes pcb 40 \<subseteq> ?H"
    by (rule rh.alloc_reserved [OF hp, of 40 K]) simp_all
  define s1 where "s1 = s\<lparr>ram := new_pcb pcb next_pid m\<rparr>"
  have off: "same_off (bytes pcb 40) m (ram s1)" using new_pcb_off [OF f40] by (simp add: s1_def)
  have same: "live(pcb \<mapsto> 40, pcb := None) = live" using g(3) by (auto simp: fun_eq_iff)
  have hp1: "heap_ready hi heap_start lim K (live(pcb \<mapsto> 40)) (ram s1)" "same_contents live m (ram s1)"
    using rh.ready_write(1,2) [OF g(4) _ off] same by simp_all
  have al: "same_off ?H (ram s) (ram s1)" by (rule same_off_trans [OF g(6) same_off_mono [OF off sub]])
  have c0: "calm p kd {} s s s" by (rule calm_refl [OF ok])
  have s1: "s1 = s\<lparr>ram := ram s1\<rparr>" by (simp add: s1_def)
  note w1 = calm_write [OF c0 area al, folded s1]
  have use1: "\<forall>x \<in> ?H. in_use p kd s1 x" using calm_in_use [OF w1(1)] area by blast
  have B: "block_in_use p kd s1 pcb" using sub use1 g(2) f40 by (auto simp: block_in_use_def)
  have src: "\<forall>i < unat prog_size. readable p kd s1 (entry_point + U32 i) (prog i)" and n: "0 < unat prog_size" "unat prog_size \<le> 4194304"
    using prog readable_off [OF w1(2) _ al] by (simp_all add: program_at_def)
  have room: "room p kd (2 * pages_for (unat prog_size) + 6 + r) (3 + q) s1" using rd w1(3) by (simp add: kernel_ready_def)
  have fields: "load32 (ram s1) (pcb + U32 0) = next_pid" "load32 (ram s1) (pcb + U32 16) = 0"
      "load32 (ram s1) (pcb + U32 20) = 40" "load32 (ram s1) (pcb + U32 24) = 0"
    using new_pcb_fields [OF g(2) f40, of next_pid m] by (simp_all add: s1_def)
  obtain va d f s2 s4 s6 s7 s9 where run:
    "vmm_create_virtual_address_space p kd entry_point prog_size us s1 = Inr (va, s2)"
    "vmm_get_physical_address kd kd va (on_ram (set_pcb_address_space pcb va) s2) = Inr (d, s4)"
    "create_process_stack p kd 0xC0000000 True (on_ram (set_pcb_space_phys pcb d) s4) = Inr (0xC0001FD8, Some f, s6)"
    "pcb_address_space (ram s6) pcb = va" "vmm_map_frame p kd va 0xC0001000 f True us s6 = Inr (True, s7)"
    "s9 = on_ram (set_pcb_state pcb STATE_READY) (on_ram (set_pcb_stack pcb 0xC0001FD8) s7)"
    and c: "calm p kd (bytes pcb 40) s1 s1 s9" and pr: "process_at p kd us prog (unat prog_size) s1 next_pid pcb s9" "room p kd r (q + 1) s9"
    by (rule pcb_run [OF calm_ok [OF w1(1)] B n src room fields, where us = us])
  have "pcb_stack (set_pcb_stack pcb 0xC0001FD8 m') pcb = 0xC0001FD8" for m' by (simp add: pcb_stack_def set_pcb_stack_def)
  then have cr: "create_pcb p kd heap_start entry_point prog_size us (next_pid, s) = Some (Inr (pcb, next_pid + 1, s9))"
    using g(1,2) run by (simp add: create_pcb_def Let_def s1_def)
  note h9 = calm_heap [OF hp1(1) _ use1 c, simplified]
  have "kernel_ready p kd hi heap_start lim K (live(pcb \<mapsto> 40)) r (q + 1) s9"
    using rd h9(1) pr(2) calm_ok [OF c] calm_in_use [OF c] use1 by (simp add: kernel_ready_def)
  moreover have "same_contents live (ram s) (ram s9)"
    using h9(2) same same_contents_trans [OF same_contents_trans [OF g(5) hp1(2)]] by simp
  moreover have "calm p kd ?H s s s9" by (rule calm_compose [OF w1(1) calm_mono [OF c sub]])
  ultimately show ?thesis using that [OF cr g(3)] use1 pr(1) by blast
qed

text \<open>C11: With well-formed page tables, a heap that has 56 bytes left below \<open>lim\<close>, its part below \<open>lim\<close> in used frames
  of the identity mapping that hold no page table, a program of 1 byte to 4 MB readable outside it, \<open>2n + 6\<close> free low frames for a
  program of \<open>n\<close> pages and 3 free slots, \<open>create_pcb\<close> never faults: the result is a fresh block with the next identifier,
  state ready, priority 0 and a quantum of 40, whose directory shows the program at \<open>0xC0000000\<close> and the prepared stack page at
  \<open>0xC0001000\<close>, which replaces the second page of a program longer than one page.  Page tables and heap are in the same
  good state afterwards and every other allocation keeps its bytes.  In any state where the heap refuses the block the result is NULL
  and nothing changes.\<close>

theorem create_pcb_process:
  assumes "kernel_ready p kd hi heap_start lim 56 live (2 * pages_for (unat prog_size) + 6) 3 s"
    and "program_at p kd lim heap_start entry_point (unat prog_size) prog s"
  shows "(\<exists>pcb s'. create_pcb p kd heap_start entry_point prog_size us (next_pid, s) = Some (Inr (pcb, next_pid + 1, s')) \<and>
      live pcb = None \<and> kernel_ready p kd hi heap_start lim 0 (live(pcb \<mapsto> 40)) 0 1 s' \<and> same_contents live (ram s) (ram s') \<and>
      process_ready kd prog (unat prog_size) next_pid pcb (ram s')) \<and>
    (\<forall>t. kmalloc heap_start 40 (ram t) = Some (0, ram t) \<longrightarrow>
      create_pcb p kd heap_start entry_point prog_size us (next_pid, t) = Some (Inr (0, next_pid, t)))"
proof -
  have rd: "kernel_ready p kd hi heap_start lim (56 + 0) live (2 * pages_for (unat prog_size) + 6 + 0) (3 + 0) s" using assms(1) by simp
  have n: "0 < pages_for (unat prog_size)" using assms(2) by (simp add: program_at_def pages_for_def div_greater_zero_iff)
  obtain pcb s1 s' where r: "create_pcb p kd heap_start entry_point prog_size us (next_pid, s) = Some (Inr (pcb, next_pid + 1, s'))"
    "live pcb = None" "kernel_ready p kd hi heap_start lim 0 (live(pcb \<mapsto> 40)) 0 (0 + 1) s'" "same_contents live (ram s) (ram s')"
    "process_at p kd us prog (unat prog_size) s1 next_pid pcb s'"
    by (rule create_pcb_run [OF rd assms(2), where us = us and next_pid = next_pid]) blast
  moreover have "create_pcb p kd heap_start entry_point prog_size us (next_pid, t) = Some (Inr (0, next_pid, t))"
    if "kmalloc heap_start 40 (ram t) = Some (0, ram t)" for t using that by (simp add: create_pcb_def)
  ultimately show ?thesis using process_at_ready [OF r(5) n] by auto
qed

text \<open>The heap that \<open>kmalloc_init\<close> makes at \<open>0x404000\<close>: only its first header is written.\<close>

lemma init_heap:
  assumes ok: "vmm_ok p kd s" and df: "data_frame p kd s 0x404000"
  obtains s' where "ram s' = snd (kmalloc_init 0x404000 (ram s))" "extends p kd {0x404000} s s'"
    "\<forall>n k. room p kd n k s' = room p kd n k s" "\<forall>x. walk kd (ram s') x = walk kd (ram s) x"
proof -
  define m where "m = snd (kmalloc_init 0x404000 (ram s))"
  have off: "m x = ram s x" if "x \<notin> bytes 0x404000 4096" for x
  proof -
    have "\<not> in_range x 0x404000 4" "\<not> in_range x 0x404008 4" "x \<noteq> 0x404004"
      using that by (auto simp: bytes_def in_range_def)
    then show ?thesis by (simp add: m_def kmalloc_init_def Let_def hdr_defs store32_frame store8_apply fits_def)
  qed
  note w = write_extends [OF ok df off]
  have "\<forall>x. m x \<noteq> ram s x \<longrightarrow> data_frame p kd s (page_start x)" using df off by (rule data_frame_write)
  note dw = data_write(2) [OF ok this]
  show ?thesis using that [of "s\<lparr>ram := m\<rparr>"] w dw by (simp add: m_def)
qed

lemma demo_heap:
  assumes "vmm_ok p 0x401000 s" "data_frame p 0x401000 s 0x404000" "frame_used p 0x404 (ram s)" "room p 0x401000 r q s"
  obtains s' where "kernel_ready p 0x401000 0x7FFFFF 0x404000 0x405000 4084 Map.empty r q s'"
    "extends p 0x401000 {0x404000} s s'" "ram s' = snd (kmalloc_init 0x404000 (ram s))"
proof -
  obtain s' where s': "ram s' = snd (kmalloc_init 0x404000 (ram s))" "extends p 0x401000 {0x404000} s s'"
    "\<forall>n k. room p 0x401000 n k s' = room p 0x401000 n k s" by (rule init_heap [OF assms(1,2)])
  have "heap_ready 0x7FFFFF 0x404000 0x405000 4084 Map.empty (ram s')" unfolding s'(1) by (rule kmalloc_init_ready) simp_all
  moreover have "page_start x = 0x404000" if "x \<in> heap_area 0x404000 0x405000" for x
    using that by (intro page_start_eq) (auto simp: page_aligned_def heap_area_def bytes_def in_range_def)
  then have "\<forall>x \<in> heap_area 0x404000 0x405000. in_use p 0x401000 s' x"
    using s'(2) assms(2,3) by (simp add: in_use_def extends_def)
  ultimately show ?thesis using that [OF _ s'(2,1)] s'(3) assms(4) extends_ok [OF s'(2)] by (simp add: kernel_ready_def)
qed

text \<open>Programs in the frame behind that heap.\<close>

lemma demo_program:
  assumes "vmm_ok p 0x401000 s" "data_frame p 0x401000 s 0x405000" "frame_used p 0x405 (ram s)" "0 < n" "k + n \<le> 4096"
    and prog: "\<And>i. i < n \<Longrightarrow> prog i = ram s (0x405000 + U32 k + U32 i)"
  shows "program_at p 0x401000 0x405000 0x404000 (0x405000 + U32 k) n prog s"
proof -
  have low: "low_addr 0x405000" by (simp add: low_addr_def)
  have "readable p 0x401000 s (0x405000 + U32 j) (ram s (0x405000 + U32 j)) \<and>
      translate 0x401000 (ram s) (0x405000 + U32 j) \<notin> Some ` heap_area 0x404000 0x405000" (is "?Q j") if j: "j < 4096" for j
  proof -
    have r: "readable p 0x401000 s (0x405000 + U32 j) (ram s (0x405000 + U32 j))"
      using assms(3) j by (intro low_readable [OF assms(1,2) _ low]) simp_all
    have "low_addr (0x405000 + U32 j)" using j by (intro low_page_offset low) (simp_all add: page_aligned_def)
    then have "translate 0x401000 (ram s) (0x405000 + U32 j) = Some (0x405000 + U32 j)"
      using assms(1) unfolding vmm_ok_def running_def ident_def by blast
    moreover have "unat (0x405000 + U32 j) = 0x405000 + j" using j unat_offset [of "0x405000" 4096 j] by (simp add: fits_def)
    ultimately show ?thesis using r by (auto simp: heap_area_def)
  qed
  moreover have "0x405000 + U32 (k + i) = 0x405000 + U32 k + U32 i" "k + i < 4096" if "i < n" for i using that assms(5) by simp_all
  ultimately have "?Q (k + i)" if "i < n" for i using that by blast
  then show ?thesis using assms(4,5) prog by (simp add: program_at_def add.assoc)
qed

theorem create_pcb_process_witness:
  "\<exists>p s s0 pcb s'. ram s = snd (kmalloc_init 0x404000 s0) \<and> kernel_ready p 0x401000 0x7FFFFF 0x404000 0x405000 56 Map.empty 8 3 s \<and>
     create_pcb p 0x401000 0x404000 0x405000 3 True (7, s) = Some (Inr (pcb, 8, s')) \<and>
     pcb_state (ram s') pcb = state_code STATE_READY \<and> peek (ram s') (pcb_space_phys (ram s') pcb) 0xC0000002 = Some (ram s 0x405002)"
proof -
  obtain p s0 where d: "vmm_ok p 0x401000 s0" "data_frame p 0x401000 s0 0x404000" "data_frame p 0x401000 s0 0x405000"
    "frame_used p 0x404 (ram s0)" "frame_used p 0x405 (ram s0)" "room p 0x401000 24 7 s0" by (rule demo_space)
  obtain s where s: "kernel_ready p 0x401000 0x7FFFFF 0x404000 0x405000 4084 Map.empty 24 7 s"
    "extends p 0x401000 {0x404000} s0 s" "ram s = snd (kmalloc_init 0x404000 (ram s0))"
    by (rule demo_heap [OF d(1,2,4,6)])
  have rd: "kernel_ready p 0x401000 0x7FFFFF 0x404000 0x405000 56 Map.empty 8 3 s"
    using s(1) heap_ready_less [of _ _ _ 4084 _ _ 56] by (auto simp: kernel_ready_def room_def)
  have d1: "data_frame p 0x401000 s 0x405000" "frame_used p 0x405 (ram s)" using s(2) d(3,5) by (simp_all add: extends_def)
  have n: "pages_for 3 = 1" by (simp add: pages_for_def)
  have src: "program_at p 0x401000 0x405000 0x404000 0x405000 (unat (3 :: u32)) (\<lambda>i. ram s (0x405000 + U32 i)) s"
    using demo_program [OF extends_ok [OF s(2)] d1, of 3 0] by simp
  have rd': "kernel_ready p 0x401000 0x7FFFFF 0x404000 0x405000 56 Map.empty (2 * pages_for (unat (3 :: u32)) + 6) 3 s" using rd n by simp
  obtain pcb s' where r: "create_pcb p 0x401000 0x404000 0x405000 3 True (7, s) = Some (Inr (pcb, 7 + 1, s'))"
    "process_ready 0x401000 (\<lambda>i. ram s (0x405000 + U32 i)) (unat (3 :: u32)) 7 pcb (ram s')"
    using create_pcb_process [OF rd' src, of True 7] by blast
  then obtain f where "process_image 0x401000 (pcb_space_phys (ram s') pcb) (\<lambda>i. ram s (0x405000 + U32 i)) 3 f (ram s')"
      "pcb_state (ram s') pcb = state_code STATE_READY" by (auto simp: process_ready_def)
  then have "peek (ram s') (pcb_space_phys (ram s') pcb) 0xC0000002 = Some (ram s 0x405002)"
      "pcb_state (ram s') pcb = state_code STATE_READY"
    using n unfolding process_image_def by (simp_all add: dir_index_div page_index_div Let_def One_nat_def)
  moreover have "create_pcb p 0x401000 0x404000 0x405000 3 True (7, s) = Some (Inr (pcb, 8, s'))" using r(1) by simp
  ultimately show ?thesis using rd s(3) by blast
qed

section \<open>Process creation without free frames\<close>

lemma no_page_left:
  assumes ok: "vmm_ok p kd s" and full: "\<forall>f. frame_exists p f \<longrightarrow> frame_used p f (ram s)"
  shows "vmm_get_new_page p kd kd w us 0 s = Inr (0, s)"
proof -
  have al: "pmm_allocate_frame p (ram s) = (0, ram s)" using full by (intro pmm_allocate_full) blast
  obtain r where "find_slot kd [2..<1024] s = Inr r" using find_slot_run [OF ok, of "[2..<1024]"] by auto
  then show ?thesis
    using al by (cases r) (simp_all add: vmm_get_new_page_def vmm_get_page_at_def vpmm_allocate_frame_def Let_def)
qed

text \<open>Looking up address 0: the table of the first 4 MB is shown in the window and its first entry read.\<close>

lemma physical_of_null:
  assumes ok: "vmm_ok p kd s"
  obtains a s' where "vmm_get_physical_address kd kd 0 s = Inr (a, s')" "extends p kd {} s s'"
    "\<forall>x. \<not> in_window x \<longrightarrow> walk kd (ram s') x = walk kd (ram s) x"
proof -
  have run: "running kd s" using ok by (simp add: vmm_ok_def)
  have kd: "page_aligned kd" "low_addr kd" using run by simp_all
  let ?t = "table (ram s) kd 0" and ?p1 = "table (ram s) kd 1"
  let ?m2 = "modify_entry ?p1 1023 (ro_entry ?t) (ram s)"
  let ?s2 = "invalidate 0x7FF000 (s\<lparr>ram := ?m2\<rparr>)"
  let ?g = "\<lambda>e. set_present False (ro_entry ?t e)"
  let ?s' = "invalidate 0x7FF000 (invalidate 0x7FF000 (s\<lparr>ram := modify_entry ?p1 1023 ?g (ram s)\<rparr>))"
  have run2: "running kd ?s2" using running_window [OF run] by simp
  have e2: "entry ?m2 kd 1 = entry (ram s) kd 1" "entry ?m2 ?p1 1023 = ro_entry ?t (entry (ram s) ?p1 1023)"
    using table1_window [OF run, of 1 "ro_entry ?t"] by (simp_all add: entry_modify)
  have "translate kd ?m2 (0x7FF000 + U32 0) = Some (?t + U32 0)"
    using e2 pt1_low(2) [OF run] by (intro translate_window) (simp_all add: ro_entry_def)
  then have ge: "get_entry 0x7FF000 0 ?s2 = Inr (entry ?m2 ?t 0)"
    using run2 by (simp add: get_entry_def resolve_def running_def entry_def)
  have last: "set_entry ?p1 1023 (set_present False) ?s2 =
      Inr (invalidate 0x7FF000 (s\<lparr>ram := modify_entry ?p1 1023 ?g (ram s)\<rparr>))"
    using set_window [OF run2, of "set_present False"] e2(1) by (simp add: modify_twice)
  have "vmm_get_physical_address kd kd 0 s = Inr (page_base (entry ?m2 ?t 0), ?s')"
    using ok_dir01(1) [OF ok] ge last
    by (simp add: vmm_get_physical_address_def get_entry_low [OF run kd] set_window [OF run]
        window_steps [OF run] ro_entry_def [abs_def] Let_def)
  then show ?thesis using that window_extends(1,3) [OF ok, where g = ?g] by simp
qed

lemma full_extends:
  "extends p kd W s s' \<Longrightarrow> \<forall>f. frame_exists p f \<longrightarrow> frame_used p f (ram s) \<Longrightarrow> \<forall>f. frame_exists p f \<longrightarrow> frame_used p f (ram s')"
  by (auto simp: extends_def)

text \<open>C21: When no frame is free and the heap grants the control block, \<open>create_pcb\<close> does not return NULL.  The NULL address space is not checked:
  \<open>vmm_map_frame\<close> takes address 0 for a page directory and reads its entry 768, a page fault at \<open>0xC00\<close>.\<close>

theorem create_pcb_out_of_frames:
  assumes "vmm_ok p kd s" "heap_inv hi heap_start live (ram s)" "\<forall>x \<in> heap_area heap_start hi. in_use p kd s x"
    and "kmalloc heap_start 40 (ram s) = Some (pcb, m)" "pcb \<noteq> 0"
    and "\<forall>f. frame_exists p f \<longrightarrow> frame_used p f (ram s)" "walk kd (ram s) 0 = None"
  shows "create_pcb p kd heap_start entry_point prog_size us (next_pid, s) = Some (Inl (PageFault 0xC00))"
proof -
  define s1 where "s1 = s\<lparr>ram := new_pcb pcb next_pid m\<rparr>"
  have "heap_inv hi heap_start (live(pcb \<mapsto> 40)) m" using kh.alloc_fresh [OF assms(2,4,5)] by simp
  from kh.live_fits [OF this, of pcb 40] have f40: "fits pcb 40" by simp
  have off: "same_off (bytes pcb (unat (40 :: u32))) m (new_pcb pcb next_pid m)" using new_pcb_off [OF f40] by simp
  note al = lh.alloc_and_fill [OF assms(2,4,5) off]
  have area: "x \<in> heap_area heap_start hi \<Longrightarrow> in_use p kd s x" for x using assms(3) by blast
  have c0: "calm p kd {} s s s" by (rule calm_refl [OF assms(1)])
  note w1 = calm_write [OF c0 area al(2), folded s1_def]
  have ok1: "vmm_ok p kd s1" by (rule calm_ok [OF w1(1)])
  have B1: "\<And>x. x \<in> bytes pcb 40 \<Longrightarrow> in_use p kd s1 x" using al(3) calm_in_use [OF w1(1)] area by auto
  note full1 = full_extends [OF w1(2) assms(6)]
  have sp: "vmm_create_virtual_address_space p kd entry_point prog_size us s1 = Inr (0, s1)"
    by (simp add: vmm_create_virtual_address_space_def no_page_left [OF ok1 full1])
  have c1: "calm p kd {} s1 s1 s1" by (rule calm_refl [OF ok1])
  define s3 where "s3 = on_ram (set_pcb_address_space pcb 0) s1"
  note w3 = calm_write [OF c1 B1 field_off [OF f40, of 28 _ 0, folded set_field_store], folded s3_def, simplified]
  obtain a s4 where ph: "vmm_get_physical_address kd kd 0 s3 = Inr (a, s4)" "extends p kd {} s3 s4"
      "\<forall>x. \<not> in_window x \<longrightarrow> walk kd (ram s4) x = walk kd (ram s3) x"
    by (rule physical_of_null [OF calm_ok [OF w3(1)]]) blast
  have c34: "calm p kd {} s1 s3 s4" by (rule calm_vmm [OF w3(1) ph(2)]) simp
  have c4: "calm p kd (bytes pcb 40) s1 s1 s4" using calm_trans [OF w3(1) calm_mono [OF c34]] by simp
  define s5 where "s5 = on_ram (set_pcb_space_phys pcb a) s4"
  note w5 = calm_write [OF c4 B1 field_off [OF f40, of 32 _ a, folded set_field_store], folded s5_def, simplified]
  have st: "create_process_stack p kd 0xC0000000 True s5 = Inr (0, None, s5)"
    using no_page_left [OF calm_ok [OF w5(1)] full_extends [OF w5(2) full_extends [OF ph(2) full_extends [OF w3(2) full1]]]]
    by (simp add: create_process_stack_def)
  have B: "block_in_use p kd s1 pcb" using B1 f40 assms(5) by (simp add: block_in_use_def)
  have as: "pcb_address_space (ram s5) pcb = 0"
    using field_word [OF assms(5) f40, of 32 28 a "ram s4"] field_calm [OF c34 B, of 28]
    by (simp add: field_load s5_def s3_def set_field_store)
  have ix: "dir_index 0xC00 = dir_index 0" "page_index 0xC00 = page_index 0" "\<not> in_window 0" "dir_index 0xC0001000 = 768"
    by (simp_all add: dir_index_div page_index_div in_window_def One_nat_def)
  have "walk kd (ram s5) 0 = walk kd (ram s4) 0" "walk kd (ram s3) 0 = walk kd (ram s1) 0" "walk kd (ram s1) 0 = walk kd (ram s) 0"
    using w5(4) [of 0] w3(4) [of 0] w1(4) [of 0] by (simp_all add: s5_def s3_def s1_def)
  then have "walk kd (ram s5) 0xC00 = None" using ph(3) ix(3) assms(7) unfolding walk_def ix(1,2) by simp
  moreover have "cr3 (regs s5) = kd" using calm_ok [OF w5(1)] by (simp add: vmm_ok_def running_def)
  ultimately have "get_entry 0 768 s5 = Inl (PageFault 0xC00)"
    by (simp add: get_entry_def resolve_def translate_def)
  then have "vmm_map_frame p kd 0 0xC0001000 0 True us s5 = Inl (PageFault 0xC00)"
    unfolding vmm_map_frame_def Let_def dir_index_def [symmetric] ix(4) by simp
  then show ?thesis
    using assms(4,5) sp ph(1) st as
    by (simp add: create_pcb_def Let_def s1_def s3_def s5_def)
qed

theorem create_pcb_out_of_frames_witness:
  "\<exists>p s s0. vmm_ok p 0x401000 s \<and> ram s = snd (kmalloc_init 0x404000 s0) \<and>
     create_pcb p 0x401000 0x404000 0x405000 3 True (7, s) = Some (Inl (PageFault 0xC00))"
proof -
  obtain p s where d: "vmm_ok p 0x401000 s" "data_frame p 0x401000 s 0x404000"
    "\<forall>f. frame_used p f (ram s) \<longleftrightarrow> unat f < 0x404 + 0x7BFC" "\<forall>f. frame_exists p f \<longleftrightarrow> unat f < 0x8000" "walk 0x401000 (ram s) 0 = None"
    "\<forall>t. page_aligned t \<longrightarrow> 0x404000 \<le> unat t \<longrightarrow> data_frame p 0x401000 s t"
    by (rule demo_frames [of "0x7BFC"]) auto
  obtain s' where s': "ram s' = snd (kmalloc_init 0x404000 (ram s))" "extends p 0x401000 {0x404000} s s'"
    "\<forall>x. walk 0x401000 (ram s') x = walk 0x401000 (ram s) x"
    by (rule init_heap [OF d(1,2)])
  have ok: "vmm_ok p 0x401000 s'" by (rule extends_ok [OF s'(2)])
  have full: "\<forall>f. frame_exists p f \<longrightarrow> frame_used p f (ram s')" using d(3,4) by (intro full_extends [OF s'(2)]) simp
  have inv: "heap_inv 0x7FFFFF 0x404000 Map.empty (ram s')" unfolding s'(1) by (rule kmalloc_init_inv) simp_all
  have area: "\<forall>x \<in> heap_area 0x404000 0x7FFFFF. in_use p 0x401000 s' x"
  proof
    fix x assume x: "x \<in> heap_area 0x404000 0x7FFFFF"
    have "0x404 \<le> unat x div 4096" "unat x div 4096 < 0x800"
      using x div_le_mono [of "0x404000" "unat x" 4096] by (auto simp: heap_area_def less_mult_imp_div_less)
    then have "0x404000 \<le> unat (page_start x)" "unat (page_start x div 4096) < 0x8000"
      by (simp_all add: unat_page_start unat_div)
    with d(3,6) s'(2) show "in_use p 0x401000 s' x" by (simp add: in_use_def extends_def)
  qed
  obtain m where km: "kmalloc 0x404000 40 (ram s') = Some (0x40400C, m)"
    unfolding s'(1) by (rule fresh_heap_alloc [of "0x404000" 40 "ram s"]) simp_all
  have "create_pcb p 0x401000 0x404000 0x405000 3 True (7, s') = Some (Inl (PageFault 0xC00))"
    using create_pcb_out_of_frames [OF ok inv area km _ full] s'(3) d(5) by simp
  with ok s'(1) show ?thesis by blast
qed

end
