(* ===== verification/Panic.thy ===== *)
theory Panic
  imports Vterm Isr "HOL-Library.Monad_Syntax"
begin

text \<open>
  \<^verbatim>\<open>src/kernel/arch/i386/interrupts/panic.c\<close>: the screen shown when a CPU exception
  stops the kernel, and the page fault handler of
  \<^verbatim>\<open>src/kernel/arch/i386/memory/paging.c\<close>, which only panics.  String literals are in
  memory where the linker put them: \<open>lit\<close> is the address of a literal.  \<open>panic_buffer\<close>
  and \<open>addr_str\<close> are the addresses of the two local arrays, \<open>cr2\<close> the register with the
  address that faulted.  The loops over strings have no bound, so a routine that uses them returns
  an option; the halt at the end is the returned state.
\<close>

section \<open>Operations\<close>

definition exception_messages :: "string list" where
  "exception_messages = [
    ''Division By Zero'',
    ''Debug Exception'',
    ''Non-Maskable Interrupt'',
    ''Breakpoint'',
    ''Into Detected Overflow'',
    ''Out of Bounds'',
    ''Invalid Opcode'',
    ''No Coprocessor'',
    ''Double Fault'',
    ''Coprocessor Segment Overrun'',
    ''Bad TSS'',
    ''Segment Not Present'',
    ''Stack Fault'',
    ''General Protection Fault'',
    ''Page Fault'',
    ''Unknown Exception'',
    ''x87 FPU Floating-Point Error'',
    ''Alignment Check'',
    ''Machine Check'',
    ''SIMD Floating-Point Exception'',
    ''Virtualization Exception'',
    ''Control Protection Exception'',
    ''Reserved'', ''Reserved'', ''Reserved'',
    ''Reserved'', ''Reserved'', ''Reserved'',
    ''Hypervisor Injection Exception'',
    ''VMM Communication Exception'',
    ''Security Exception'',
    ''Reserved'']"

definition hex_to_string :: "u32 \<Rightarrow> u32 \<Rightarrow> mem \<Rightarrow> mem" where
  "hex_to_string value buffer m =
     (let m = store8 buffer 0x30 m;
          m = store8 (buffer + 1) 0x78 m;
          (value, m) = fold (\<lambda>i (value, m).
            (drop_bit 4 value, store8 (buffer + (2 + U32 i)) (hex_chars ! unat (value AND 0xF)) m))
            (rev [0..<8]) (value, m)
      in store8 (buffer + 10) 0 m)"

text \<open>The three calls that build and print a line.\<close>

definition set_line :: "u32 \<Rightarrow> u32 \<Rightarrow> mem \<times> vterm \<Rightarrow> mem \<times> vterm" where
  "set_line panic_buffer src = (\<lambda>(m, vt). (snd (kstrncpy src panic_buffer (ucast SCREEN_COLS) m), vt))"

definition extend_line :: "u32 \<Rightarrow> u32 \<Rightarrow> mem \<times> vterm \<Rightarrow> (mem \<times> vterm) option" where
  "extend_line panic_buffer src = (\<lambda>(m, vt).
     map_option (\<lambda>(_, m). (m, vt)) (kstrncat panic_buffer src (ucast SCREEN_COLS) m))"

definition print_line :: "u32 \<Rightarrow> u16 \<Rightarrow> mem \<times> vterm \<Rightarrow> (mem \<times> vterm) option" where
  "print_line panic_buffer current_row = (\<lambda>(m, vt).
     map_option (\<lambda>vt. (m, vt)) (vterm_print_aligned current_row panic_buffer VTERM_ALIGN_CENTER m vt))"

text \<open>The lines of a page fault; the result includes the row of the last of them.\<close>

definition page_fault_lines ::
    "(string \<Rightarrow> u32) \<Rightarrow> u32 \<Rightarrow> u32 \<Rightarrow> u32 \<Rightarrow> u32 \<Rightarrow> u16 \<Rightarrow> mem \<times> vterm \<Rightarrow> (u16 \<times> mem \<times> vterm) option" where
  "page_fault_lines lit panic_buffer addr_str faulting_address err_code current_row s =
     do {
       let current_row = current_row + 2;
       let s = (hex_to_string faulting_address addr_str (fst s), snd s);
       let s = set_line panic_buffer (lit ''Fault Address: '') s;
       s \<leftarrow> extend_line panic_buffer addr_str s;
       s \<leftarrow> print_line panic_buffer current_row s;
       let present = bit err_code 0;
       let write = bit err_code 1;
       let user = bit err_code 2;
       let inst_exec = bit err_code 4;
       let current_row = current_row + 2;
       let s = (if user then set_line panic_buffer (lit ''Context: A user-mode program tried to '') s
                else set_line panic_buffer (lit ''Context: The kernel tried to '') s);
       s \<leftarrow> (if inst_exec then extend_line panic_buffer (lit ''EXECUTE code at this address.'') s
             else if write then extend_line panic_buffer (lit ''WRITE data to this address.'') s
             else extend_line panic_buffer (lit ''READ data from this address.'') s);
       s \<leftarrow> print_line panic_buffer current_row s;
       let current_row = current_row + 1;
       let s = (if \<not> present
                then set_line panic_buffer (lit ''Cause: This virtual address is NOT mapped in the page tables.'') s
                else set_line panic_buffer (lit ''Cause: Access denied! Page is protected (e.g., writing to Read-Only).'') s);
       s \<leftarrow> print_line panic_buffer current_row s;
       Some (current_row, s)
     }"

definition kernel_panic ::
    "device \<Rightarrow> (string \<Rightarrow> u32) \<Rightarrow> u32 \<Rightarrow> u32 \<Rightarrow> u32 \<Rightarrow> CpuRegisters \<Rightarrow> mem \<times> vterm \<Rightarrow> (mem \<times> vterm) option result" where
  "kernel_panic dev lit panic_buffer addr_str cr2 regs s =
     (let interrupt = interrupt_number regs in
      if length exception_messages \<le> unat interrupt then Inl OutOfBounds
      else Inr (do {
        let message = lit (exception_messages ! unat interrupt);
        let vt = vterm_set_buffering_mode BUFFER_MODE_BLOCK (snd s);
        let vt = vterm_clear COLOR_WHITE COLOR_BLUE vt;
        let vt = vterm_set_color COLOR_WHITE COLOR_BLUE vt;
        let s = (fst s, vterm_set_cursor_visible dev False vt);
        let current_row = 2;
        let s = set_line panic_buffer (lit '':( A problem has been detected and kdbOS has been shut down.'') s;
        s \<leftarrow> print_line panic_buffer current_row s;
        let current_row = current_row + 2;
        let s = set_line panic_buffer (lit ''Reason: '') s;
        s \<leftarrow> extend_line panic_buffer message s;
        s \<leftarrow> print_line panic_buffer current_row s;
        (current_row, s) \<leftarrow>
          (if interrupt = 14
           then page_fault_lines lit panic_buffer addr_str cr2 (error_code regs) current_row s
           else Some (current_row, s));
        let current_row = current_row + 3;
        let s = set_line panic_buffer (lit ''If this is the first time you've seen this, restart your computer.'') s;
        s \<leftarrow> print_line panic_buffer current_row s;
        let current_row = current_row + 1;
        let s = set_line panic_buffer (lit ''If errors persist, check your build.'') s;
        s \<leftarrow> print_line panic_buffer current_row s;
        Some (fst s, vterm_flush (snd s))
      }))"

definition paging_page_fault_handler ::
    "device \<Rightarrow> (string \<Rightarrow> u32) \<Rightarrow> u32 \<Rightarrow> u32 \<Rightarrow> u32 \<Rightarrow> CpuRegisters \<Rightarrow> mem \<times> vterm \<Rightarrow> (mem \<times> vterm) option result" where
  "paging_page_fault_handler dev lit panic_buffer addr_str cr2 regs s =
     kernel_panic dev lit panic_buffer addr_str cr2 regs s"

section \<open>Hexadecimal text\<close>

definition hex_char :: "u32 \<Rightarrow> nat \<Rightarrow> u8" where
  "hex_char value i = hex_chars ! unat (drop_bit (4 * i) value AND 0xF)"

lemma nibble_bound: "unat (x AND 0xF :: u32) < 16"
  using and_mask_less_size [of 4 x] by (simp add: word_less_nat_alt mask_eq_exp_minus_1 word_size)

lemma hex_char_plain: "hex_char value i \<notin> {0, 0x08, 0x0A}"
proof -
  have "length hex_chars = 16" by (simp add: hex_chars_def)
  then have "hex_char value i \<in> set hex_chars"
    unfolding hex_char_def by (intro nth_mem) (simp only: nibble_bound)
  then show ?thesis by (auto simp: hex_chars_def)
qed

lemma hex_digits_chars: "hex_digits value = map (\<lambda>i. hex_char value (7 - i)) [0..<8]"
  unfolding hex_digits_def
proof (intro map_cong refl)
  fix i assume "i \<in> set [0..<8]"
  then have "28 - i * 4 = 4 * (7 - i)" by simp
  moreover have "unat (ucast (x AND 0xF) :: u8) = unat (x AND 0xF)" for x :: u32
    using nibble_bound [of x] by (simp add: unsigned_ucast_eq take_bit_eq_mod)
  ultimately show "hex_chars ! unat (hex_nibble value i) = hex_char value (7 - i)"
    by (simp only: hex_nibble_def hex_char_def)
qed

lemma hex_to_string_stores:
  "hex_to_string value b m = store8 (b + 10) 0 (fold (\<lambda>i. store8 (b + (2 + U32 i)) (hex_char value (7 - i)))
     (rev [0..<8]) (store8 (b + 1) 0x78 (store8 b 0x30 m)))"
proof -
  have r: "rev [0..<8] = [7, 6, 5, 4, 3, 2, 1, 0 :: nat]" by (simp add: upt_rec)
  have "drop_bit 4 (drop_bit (4 * k) value) = drop_bit (4 * (k + 1)) value" for k by (simp add: algebra_simps)
  then show ?thesis
    unfolding r by (simp add: hex_to_string_def Let_def r hex_char_def)
qed

lemma hex_to_string_str:
  "str_at (hex_to_string value b m) b (0x30 # 0x78 # hex_digits value)"
  "11 \<le> unat (x - b) \<Longrightarrow> hex_to_string value b m x = m x"
proof -
  have r: "rev [0..<8] = [7, 6, 5, 4, 3, 2, 1, 0 :: nat]" by (simp add: upt_rec)
  show "str_at (hex_to_string value b m) b (0x30 # 0x78 # hex_digits value)"
    unfolding hex_to_string_stores hex_digits_chars r
    using hex_char_plain by (simp add: upt_rec add.assoc)
  have "x \<noteq> b + U32 i" if "11 \<le> unat (x - b)" "i < 11" for i
    using that offset_back [of i b] by auto
  from this [of 0] this [of 1] this [of 2] this [of 3] this [of 4] this [of 5] this [of 6] this [of 7]
    this [of 8] this [of 9] this [of 10]
  show "hex_to_string value b m x = m x" if "11 \<le> unat (x - b)"
    using that unfolding hex_to_string_stores r by (simp add: store8_apply)
qed

section \<open>Lines on the screen\<close>

lemma put_plain:
  assumes "vterm_ok vt" "cursor_col vt < 80" "c \<noteq> 0x0A" "c \<noteq> 0x08"
  shows "screen_buffer (vterm_write_char c vt) =
      set_cell (unat (cursor_row vt)) (unat (cursor_col vt)) (written_cell c vt) (screen_buffer vt)"
    "cursor_row (vterm_write_char c vt) = cursor_row vt"
    "unat (cursor_col (vterm_write_char c vt)) = unat (cursor_col vt) + 1"
    "current_mode (vterm_write_char c vt) = current_mode vt"
    "current_fg (vterm_write_char c vt) = current_fg vt" "current_bg (vterm_write_char c vt) = current_bg vt"
    "active_cursor_style (vterm_write_char c vt) = active_cursor_style vt"
proof -
  have w: "vterm_wrap vt = vt" using assms(1,2) by (simp add: vterm_wrap_def vterm_ok_def SCREEN_COLS_def SCREEN_ROWS_def not_le [symmetric])
  have p: "vterm_write_char c vt = vterm_put c vt" using assms(3,4) by (simp add: vterm_write_char_def)
  show "unat (cursor_col (vterm_write_char c vt)) = unat (cursor_col vt) + 1"
    using assms(2) by (simp add: p put_simps [OF assms(1)] w unat_word_ariths word_less_nat_alt)
  show "current_fg (vterm_write_char c vt) = current_fg vt" "current_bg (vterm_write_char c vt) = current_bg vt"
    "active_cursor_style (vterm_write_char c vt) = active_cursor_style vt"
    by (simp_all add: p vterm_put_def w Let_def put_framebuffer_def)
qed (use assms in \<open>simp_all add: vterm_write_char_def put_simps [OF assms(1)]
    vterm_wrap_def vterm_ok_def SCREEN_COLS_def SCREEN_ROWS_def not_le [symmetric]\<close>)

definition plain :: "u8 list \<Rightarrow> bool" where
  "plain t \<longleftrightarrow> list_all (\<lambda>c. c \<noteq> 0 \<and> c \<noteq> 0x08 \<and> c \<noteq> 0x0A) t"

lemma plain_Cons:
  assumes "plain (x # t)" "unat (cursor_col vt) + length (x # t) \<le> 80"
  shows "cursor_col vt < 80" "x \<noteq> 0x0A" "x \<noteq> 0x08" "plain t"
  using assms by (simp_all add: word_less_nat_alt plain_def)

lemma write_text_keeps:
  assumes "vterm_ok vt" "plain t" "unat (cursor_col vt) + length t \<le> 80"
  shows "current_mode (fold vterm_write_char t vt) = current_mode vt \<and>
    current_fg (fold vterm_write_char t vt) = current_fg vt \<and>
    current_bg (fold vterm_write_char t vt) = current_bg vt \<and>
    active_cursor_style (fold vterm_write_char t vt) = active_cursor_style vt"
  using assms
proof (induction t arbitrary: vt)
  case (Cons x t)
  from plain_Cons [OF Cons.prems(2,3)] Cons.prems write_char_ok [OF Cons.prems(1)]
  show ?case by (simp add: Cons.IH put_plain)
qed simp

lemma write_text_cells:
  assumes "vterm_ok vt" "plain t" "unat (cursor_col vt) + length t \<le> 80"
  shows "screen_buffer (fold vterm_write_char t vt) r c =
    (if r = unat (cursor_row vt) \<and> unat (cursor_col vt) \<le> c \<and> c < unat (cursor_col vt) + length t
     then written_cell (t ! (c - unat (cursor_col vt))) vt else screen_buffer vt r c)"
  using assms
proof (induction t arbitrary: vt)
  case (Cons x t)
  note pc = plain_Cons [OF Cons.prems(2,3)]
  note p = put_plain [OF Cons.prems(1) pc(1-3)]
  have "screen_buffer (fold vterm_write_char t (vterm_write_char x vt)) r c =
    (if r = unat (cursor_row vt) \<and> unat (cursor_col vt) + 1 \<le> c \<and> c < unat (cursor_col vt) + 1 + length t
     then written_cell (t ! (c - (unat (cursor_col vt) + 1))) vt
     else set_cell (unat (cursor_row vt)) (unat (cursor_col vt)) (written_cell x vt) (screen_buffer vt) r c)"
    using Cons.prems write_char_ok [OF Cons.prems(1)] Cons.IH [of "vterm_write_char x vt"] pc(4)
    by (simp only: p written_cell_def) simp
  then show ?case
    by (cases "c = unat (cursor_col vt)") (auto simp: set_cell_def nth_Cons' not_less_eq_eq)
qed auto

text \<open>What a line centred on the screen looks like, and the blue screen with some lines.\<close>

definition centred :: "u8 list \<Rightarrow> nat \<Rightarrow> u8" where
  "centred t c = (let col = (80 - length t) div 2 in
     if col \<le> c \<and> c < col + length t then t ! (c - col) else 0x20)"

definition panic_cell :: "(nat \<times> u8 list) list \<Rightarrow> nat \<Rightarrow> nat \<Rightarrow> VTermCell" where
  "panic_cell lines r c = \<lparr>character = (case map_of lines r of None \<Rightarrow> 0x20 | Some t \<Rightarrow> centred t c),
     cell_fg = color_code COLOR_WHITE, cell_bg = color_code COLOR_BLUE\<rparr>"

definition blue_screen :: "(nat \<times> u8 list) list \<Rightarrow> vterm \<Rightarrow> bool" where
  "blue_screen lines vt \<longleftrightarrow> vterm_ok vt \<and> current_mode vt = BUFFER_MODE_BLOCK \<and>
     current_fg vt = COLOR_WHITE \<and> current_bg vt = COLOR_BLUE \<and> \<not> visible (active_cursor_style vt) \<and>
     (\<forall>r < 25. \<forall>c < 80. screen_buffer vt r c = panic_cell lines r c)"

lemma blue_screen_start:
  "blue_screen [] (vterm_set_cursor_visible dev False (vterm_set_color COLOR_WHITE COLOR_BLUE
     (vterm_clear COLOR_WHITE COLOR_BLUE (vterm_set_buffering_mode BUFFER_MODE_BLOCK vt))))"
proof -
  let ?v = "vterm_set_color COLOR_WHITE COLOR_BLUE
     (vterm_clear COLOR_WHITE COLOR_BLUE (vterm_set_buffering_mode BUFFER_MODE_BLOCK vt))"
  have "vterm_ok ?v" using clear_ok set_color_ok by blast
  with visible_ok [of ?v dev False] show ?thesis
    by (simp add: blue_screen_def panic_cell_def vterm_set_cursor_visible_def Let_def inb_def
        vterm_set_color_def vterm_set_buffering_mode_def)
qed

lemma centre_column:
  assumes "n < 80"
  shows "unat (aligned_col (ucast (of_nat n :: u64)) VTERM_ALIGN_CENTER) = (80 - n) div 2"
proof -
  have lt: "U32 n < 80" using assms by (simp add: word_less_nat_alt unat_of_nat_u32)
  have "unat ((80 - U32 n) div 2) = (80 - n) div 2"
    using lt assms by (simp add: unat_div unat_diff_u32 unat_of_nat_u32 less_imp_le)
  moreover have "(80 - n) div 2 < 65536" using assms by simp
  ultimately show ?thesis
    using lt by (simp add: aligned_col_def ucast_of_nat_u64 unsigned_ucast_eq take_bit_eq_mod)
qed

lemma print_line_shows:
  assumes "str_at m buf t" "plain t" "length t < 80" "blue_screen lines vt" "row < 25"
    and "map_of lines (unat row) = None"
  shows "\<exists>vt'. print_line buf row (m, vt) = Some (m, vt') \<and> blue_screen (lines @ [(unat row, t)]) vt'"
proof -
  define col where "col = aligned_col (ucast (of_nat (length t) :: u64)) VTERM_ALIGN_CENTER"
  define v where "v = vterm_move_cursor row col vt"
  have col: "unat col = (80 - length t) div 2" using centre_column [OF assms(3)] by (simp add: col_def)
  then have "col \<le> 80" by (simp add: word_le_nat_alt)
  then have v: "unat (cursor_col v) = (80 - length t) div 2" "cursor_row v = row"
    using assms(5) col by (simp_all add: v_def)
  have ok: "vterm_ok v" using assms(4) move_cursor_ok by (simp add: v_def blue_screen_def)
  have fit: "unat (cursor_col v) + length t \<le> 80" using assms(3) by (simp add: v)
  have run: "print_line buf row (m, vt) = Some (m, fold vterm_write_char t v)"
    using kstrlen_str [OF assms(1)] vterm_write_str [OF assms(1)] assms(3,4) write_text_keeps [OF ok assms(2) fit]
    by (simp add: print_line_def vterm_print_aligned_def vterm_print_at_def col_def [symmetric] v_def [symmetric])
      (simp add: v_def blue_screen_def)
  have "written_cell x v = \<lparr>character = x, cell_fg = color_code COLOR_WHITE, cell_bg = color_code COLOR_BLUE\<rparr>" for x
    using assms(4) by (simp add: written_cell_def v_def blue_screen_def)
  then have "screen_buffer (fold vterm_write_char t v) r c = panic_cell (lines @ [(unat row, t)]) r c"
    if "r < 25" "c < 80" for r c
    using that assms(4,6) unfolding write_text_cells [OF ok assms(2) fit] v
    by (cases "r = unat row"; cases "map_of lines r")
      (auto simp: blue_screen_def v_def panic_cell_def centred_def Let_def map_add_def)
  moreover have "vterm_ok (fold vterm_write_char t v)" using write_chars_ok [OF ok] by blast
  ultimately show ?thesis
    using run write_text_keeps [OF ok assms(2) fit] assms(4) by (simp add: blue_screen_def v_def)
qed

section \<open>The texts in memory\<close>

definition panic_texts :: "string list" where
  "panic_texts = exception_messages @
    ['':( A problem has been detected and kdbOS has been shut down.'', ''Reason: '', ''Fault Address: '',
     ''Context: A user-mode program tried to '', ''Context: The kernel tried to '',
     ''EXECUTE code at this address.'', ''WRITE data to this address.'', ''READ data from this address.'',
     ''Cause: This virtual address is NOT mapped in the page tables.'',
     ''Cause: Access denied! Page is protected (e.g., writing to Read-Only).'',
     ''If this is the first time you've seen this, restart your computer.'',
     ''If errors persist, check your build.'']"

text \<open>The literals are where \<open>lit\<close> says, outside the two local arrays.\<close>

definition literals :: "(string \<Rightarrow> u32) \<Rightarrow> u32 \<Rightarrow> u32 \<Rightarrow> mem \<Rightarrow> bool" where
  "literals lit buf addr m \<longleftrightarrow> fits buf 80 \<and> fits addr 12 \<and> apart buf 80 addr 12 \<and>
     (\<forall>t \<in> set panic_texts. fits (lit t) (length t + 1) \<and> apart (lit t) (length t + 1) buf 80 \<and>
        apart (lit t) (length t + 1) addr 12 \<and> str_at m (lit t) (char_bytes t))"

lemma char_bytes_simps [simp]:
  "length (char_bytes t) = length t" "char_bytes (s @ t) = char_bytes s @ char_bytes t"
  by (simp_all add: char_bytes_def)

lemma literals_keep:
  assumes "literals lit buf addr m" "same_off (bytes buf 80 \<union> bytes addr 12) m m'"
  shows "literals lit buf addr m'"
proof -
  have "str_at m' (lit t) (char_bytes t)" if "t \<in> set panic_texts" for t
  proof -
    have t: "fits (lit t) (length t + 1)" "str_at m (lit t) (char_bytes t)"
      "(bytes buf 80 \<union> bytes addr 12) \<inter> bytes (lit t) (length t + 1) = {}"
      using assms(1) that apart_bytes [of "lit t" _ _ _] by (auto simp: literals_def)
    from str_at_same [OF t(2,1) _ same_off_on [OF assms(2) t(3)]] show ?thesis by simp
  qed
  with assms(1) show ?thesis by (simp add: literals_def)
qed

lemma apart_offsets:
  assumes "fits a (n + 1)" "fits b k" "apart a (n + 1) b k" "i \<le> n" "j < k"
  shows "a + U32 i \<noteq> b + U32 j"
proof -
  have "unat (a + U32 i) = unat a + i" "unat (b + U32 j) = unat b + j"
    using assms by (simp_all add: unat_offset)
  with assms(3-5) show ?thesis by (auto simp: apart_def)
qed

lemma set_line_text:
  assumes "str_at m src t" "fits src (length t + 1)" "apart src (length t + 1) buf 80" "fits buf 80" "length t < 80"
  shows "\<exists>m'. set_line buf src (m, vt) = (m', vt) \<and> str_at m' buf t \<and> same_off (bytes buf 80) m m'"
proof -
  have n: "ucast SCREEN_COLS = (80 :: u32)" by (simp add: SCREEN_COLS_def)
  have "\<exists>m'. kstrncpy src buf 80 m = (buf, m') \<and> str_at m' buf (strncpy_text (unat (80 :: u32)) t) \<and>
      (\<forall>x. unat (80 :: u32) \<le> unat (x - buf) \<longrightarrow> m' x = m x)"
    using assms apart_offsets [OF assms(2,4,3)] by (intro kstrncpy_str) simp_all
  with assms(4,5) show ?thesis
    by (auto simp: set_line_def n strncpy_text_def same_off_def dest: offset_outside)
qed

lemma extend_line_text:
  assumes "str_at m src t" "fits src (length t + 1)" "apart src (length t + 1) buf 80" "fits buf 80"
    and "str_at m buf d" "length d + length t < 80"
  shows "\<exists>m'. extend_line buf src (m, vt) = Some (m', vt) \<and> str_at m' buf (d @ t) \<and> same_off (bytes buf 80) m m'"
proof -
  have n: "ucast SCREEN_COLS = (80 :: u32)" by (simp add: SCREEN_COLS_def)
  have "\<exists>m'. kstrncat buf src 80 m = Some (buf, m') \<and> str_at m' buf (strncat_text (unat (80 :: u32)) d t) \<and>
      (\<forall>x. unat (80 :: u32) \<le> unat (x - buf) \<longrightarrow> m' x = m x)"
    using assms apart_offsets [OF assms(2,4,3)] by (intro kstrncat_str) simp_all
  with assms(4,6) show ?thesis
    by (auto simp: extend_line_def n strncat_text_def same_off_def dest: offset_outside)
qed

lemma panic_texts_ok: "list_all (\<lambda>t. plain (char_bytes t) \<and> length t < 72) panic_texts"
  by code_simp

lemma literal_text:
  assumes "literals lit buf addr m" "t \<in> set panic_texts"
  shows "str_at m (lit t) (char_bytes t)" "fits (lit t) (length (char_bytes t) + 1)"
    "apart (lit t) (length (char_bytes t) + 1) buf 80" "fits buf 80" "length (char_bytes t) < 72" "plain (char_bytes t)"
  using assms panic_texts_ok by (simp_all add: literals_def list_all_iff)

text \<open>One line made of a literal, and one made of a literal and a second text.\<close>

definition arrays :: "u32 \<Rightarrow> u32 \<Rightarrow> u32 set" where
  "arrays buf addr = bytes buf 80 \<union> bytes addr 12"

lemma literal_line:
  assumes "literals lit buf addr m" "blue_screen lines vt" "t \<in> set panic_texts" "row < 25"
    and "map_of lines (unat row) = None"
  shows "\<exists>m' vt'. print_line buf row (set_line buf (lit t) (m, vt)) = Some (m', vt') \<and>
    literals lit buf addr m' \<and> same_off (arrays buf addr) m m' \<and>
    blue_screen (lines @ [(unat row, char_bytes t)]) vt'"
proof -
  note t = literal_text [OF assms(1,3)]
  obtain m' where m': "set_line buf (lit t) (m, vt) = (m', vt)" "str_at m' buf (char_bytes t)" "same_off (bytes buf 80) m m'"
    using set_line_text [OF t(1-4), of vt] t(5) by auto
  then have off: "same_off (arrays buf addr) m m'" by (auto simp: arrays_def intro: same_off_mono)
  from print_line_shows [OF m'(2) t(6) _ assms(2,4,5)] t(5) m'(1) off literals_keep [OF assms(1) off [unfolded arrays_def]]
  show ?thesis by fastforce
qed

lemma joined_line:
  assumes "literals lit buf addr m" "blue_screen lines vt" "t \<in> set panic_texts" "row < 25"
    and "map_of lines (unat row) = None"
    and "str_at m src u" "fits src (length u + 1)" "apart src (length u + 1) buf 80" "plain u"
    and "length t + length u < 80"
  shows "\<exists>s m' vt'. extend_line buf src (set_line buf (lit t) (m, vt)) = Some s \<and> print_line buf row s = Some (m', vt') \<and>
    literals lit buf addr m' \<and> same_off (arrays buf addr) m m' \<and>
    blue_screen (lines @ [(unat row, char_bytes t @ u)]) vt'"
proof -
  note t = literal_text [OF assms(1,3)]
  obtain m1 where m1: "set_line buf (lit t) (m, vt) = (m1, vt)" "str_at m1 buf (char_bytes t)" "same_off (bytes buf 80) m m1"
    using set_line_text [OF t(1-4), of vt] t(5) by auto
  have "bytes buf 80 \<inter> bytes src (length u + 1) = {}" using apart_bytes [OF assms(8)] by blast
  then have "str_at m1 src u" using str_at_same [OF assms(6,7) _ same_off_on [OF m1(3)]] by simp
  then obtain m' where m': "extend_line buf src (m1, vt) = Some (m', vt)" "str_at m' buf (char_bytes t @ u)"
      "same_off (bytes buf 80) m1 m'"
    using extend_line_text [OF _ assms(7,8) t(4) m1(2), of vt] assms(10) by auto
  have off: "same_off (arrays buf addr) m m'"
    using same_off_trans [OF m1(3) m'(3)] by (auto simp: arrays_def intro: same_off_mono)
  have "plain (char_bytes t @ u)" using t(6) assms(9) by (simp add: plain_def)
  from print_line_shows [OF m'(2) this _ assms(2,4,5)] m1(1) m'(1) assms(10) off
    literals_keep [OF assms(1) off [unfolded arrays_def]]
  show ?thesis by fastforce
qed

definition page_fault_text :: "u32 \<Rightarrow> u32 \<Rightarrow> (nat \<times> u8 list) list" where
  "page_fault_text cr2 err =
    [(6, char_bytes ''Fault Address: '' @ 0x30 # 0x78 # hex_digits cr2),
     (8, char_bytes ((if bit err 2 then ''Context: A user-mode program tried to '' else ''Context: The kernel tried to '') @
        (if bit err 4 then ''EXECUTE code at this address.'' else if bit err 1 then ''WRITE data to this address.''
         else ''READ data from this address.''))),
     (9, char_bytes (if bit err 0 then ''Cause: Access denied! Page is protected (e.g., writing to Read-Only).''
        else ''Cause: This virtual address is NOT mapped in the page tables.''))]"

definition panic_lines :: "u32 \<Rightarrow> u32 \<Rightarrow> u32 \<Rightarrow> (nat \<times> u8 list) list" where
  "panic_lines interrupt cr2 err =
    [(2, char_bytes '':( A problem has been detected and kdbOS has been shut down.''),
     (4, char_bytes ''Reason: '' @ char_bytes (exception_messages ! unat interrupt))] @
    (if interrupt = 14 then page_fault_text cr2 err else []) @
    (let r = (if interrupt = 14 then 12 else 7) in
     [(r, char_bytes ''If this is the first time you've seen this, restart your computer.''),
      (r + 1, char_bytes ''If errors persist, check your build.'')])"

lemma panic_texts_mem:
  "'':( A problem has been detected and kdbOS has been shut down.'' \<in> set panic_texts"
  "''Reason: '' \<in> set panic_texts" "''Fault Address: '' \<in> set panic_texts"
  "''Context: A user-mode program tried to '' \<in> set panic_texts"
  "''Context: The kernel tried to '' \<in> set panic_texts"
  "''EXECUTE code at this address.'' \<in> set panic_texts"
  "''WRITE data to this address.'' \<in> set panic_texts"
  "''READ data from this address.'' \<in> set panic_texts"
  "''Cause: This virtual address is NOT mapped in the page tables.'' \<in> set panic_texts"
  "''Cause: Access denied! Page is protected (e.g., writing to Read-Only).'' \<in> set panic_texts"
  "''If this is the first time you've seen this, restart your computer.'' \<in> set panic_texts"
  "''If errors persist, check your build.'' \<in> set panic_texts"
  unfolding panic_texts_def set_append by (rule UnI2, simp only: list.set insert_iff simp_thms)+

lemma exception_count: "length exception_messages = 32"
  by (simp add: exception_messages_def)

lemma exception_text: "i < 32 \<Longrightarrow> exception_messages ! i \<in> set panic_texts"
  unfolding panic_texts_def set_append by (rule UnI1, rule nth_mem) (simp only: exception_count)

lemma page_fault_lines_show:
  assumes "literals lit buf addr m" "blue_screen lines vt" "\<forall>r \<in> {6, 8, 9}. map_of lines r = None"
  shows "\<exists>m' vt'. page_fault_lines lit buf addr cr2 err 4 (m, vt) = Some (9, m', vt') \<and>
    literals lit buf addr m' \<and> same_off (arrays buf addr) m m' \<and> blue_screen (lines @ page_fault_text cr2 err) vt'"
proof -
  define who what why where "who = (if bit err 2 then ''Context: A user-mode program tried to '' else ''Context: The kernel tried to '')"
    and "what = (if bit err 4 then ''EXECUTE code at this address.'' else if bit err 1 then ''WRITE data to this address.''
         else ''READ data from this address.'')"
    and "why = (if bit err 0 then ''Cause: Access denied! Page is protected (e.g., writing to Read-Only).''
        else ''Cause: This virtual address is NOT mapped in the page tables.'')"
  have mem: "who \<in> set panic_texts" "what \<in> set panic_texts" "why \<in> set panic_texts" "length who < 39" "length what < 30"
    unfolding who_def what_def why_def by (simp_all add: panic_texts_mem)
  let ?hex = "0x30 # 0x78 # hex_digits cr2" and ?h = "hex_to_string cr2 addr m"
  have lits: "fits addr 12" "fits buf 80" "apart buf 80 addr 12" using assms(1) by (simp_all add: literals_def)
  have lenh: "length ?hex = 10" by (simp add: hex_digits_def)
  have plainh: "plain ?hex" using hex_char_plain by (simp add: plain_def hex_digits_chars list_all_iff)
  have "same_off (bytes addr 12) m ?h"
    using hex_to_string_str(2) offset_outside [OF lits(1)] by (fastforce simp: same_off_def)
  then have off0: "same_off (arrays buf addr) m ?h" by (auto simp: arrays_def intro: same_off_mono)
  note lit0 = literals_keep [OF assms(1) off0 [unfolded arrays_def]]
  have "apart addr (length ?hex + 1) buf 80" using lits(3) unfolding lenh by (auto simp: apart_def)
  then obtain sa ma va where a: "extend_line buf addr (set_line buf (lit ''Fault Address: '') (?h, vt)) = Some sa"
      "print_line buf 6 sa = Some (ma, va)" "literals lit buf addr ma" "same_off (arrays buf addr) ?h ma"
      "blue_screen (lines @ [(6, char_bytes ''Fault Address: '' @ ?hex)]) va"
    using joined_line [OF lit0 assms(2) panic_texts_mem(3), of 6 addr ?hex] hex_to_string_str(1) assms(3)
      fits_mono [OF lits(1)] plainh lenh by auto
  note w = literal_text [OF a(3) mem(2)]
  obtain sb mb vb where b: "extend_line buf (lit what) (set_line buf (lit who) (ma, va)) = Some sb"
      "print_line buf 8 sb = Some (mb, vb)" "literals lit buf addr mb" "same_off (arrays buf addr) ma mb"
      "blue_screen (lines @ [(6, char_bytes ''Fault Address: '' @ ?hex), (8, char_bytes who @ char_bytes what)]) vb"
    using joined_line [OF a(3,5) mem(1), of 8 "lit what" "char_bytes what"] w mem(4,5) assms(3) by auto
  obtain mc vc where c: "print_line buf 9 (set_line buf (lit why) (mb, vb)) = Some (mc, vc)"
      "literals lit buf addr mc" "same_off (arrays buf addr) mb mc"
      "blue_screen (lines @ [(6, char_bytes ''Fault Address: '' @ ?hex), (8, char_bytes who @ char_bytes what), (9, char_bytes why)]) vc"
    using literal_line [OF b(3,5) mem(3), of 9] assms(3) by auto
  have sel: "(if bit err 2 then set_line buf (lit ''Context: A user-mode program tried to '') s
      else set_line buf (lit ''Context: The kernel tried to '') s) = set_line buf (lit who) s"
    "(if bit err 4 then extend_line buf (lit ''EXECUTE code at this address.'') s
      else if bit err 1 then extend_line buf (lit ''WRITE data to this address.'') s
      else extend_line buf (lit ''READ data from this address.'') s) = extend_line buf (lit what) s"
    "(if \<not> bit err 0 then set_line buf (lit ''Cause: This virtual address is NOT mapped in the page tables.'') s
      else set_line buf (lit ''Cause: Access denied! Page is protected (e.g., writing to Read-Only).'') s) =
      set_line buf (lit why) s" for s
    by (simp_all only: who_def what_def why_def if_True if_False not_True_eq_False not_False_eq_True split: if_split) simp_all
  have "page_fault_lines lit buf addr cr2 err 4 (m, vt) = Some (9, mc, vc)"
    unfolding page_fault_lines_def Let_def sel by (simp add: a(1,2) b(1,2) c(1))
  moreover have "same_off (arrays buf addr) m mc"
    using off0 a(4) b(4) c(3) by (blast intro: same_off_trans)
  ultimately show ?thesis using c(2,4) by (simp add: page_fault_text_def who_def what_def why_def)
qed

text \<open>The first two lines, and the last two.\<close>

abbreviation first_lines :: "nat \<Rightarrow> (nat \<times> u8 list) list" where
  "first_lines i \<equiv> [(2, char_bytes '':( A problem has been detected and kdbOS has been shut down.''),
     (4, char_bytes ''Reason: '' @ char_bytes (exception_messages ! i))]"

abbreviation last_lines :: "nat \<Rightarrow> (nat \<times> u8 list) list" where
  "last_lines r \<equiv> [(r, char_bytes ''If this is the first time you've seen this, restart your computer.''),
     (r + 1, char_bytes ''If errors persist, check your build.'')]"

lemma opening_show:
  assumes "literals lit buf addr m" "blue_screen [] v" "i < 32"
  shows "\<exists>s s' m' v'.
    print_line buf 2 (set_line buf (lit '':( A problem has been detected and kdbOS has been shut down.'') (m, v)) = Some s \<and>
    extend_line buf (lit (exception_messages ! i)) (set_line buf (lit ''Reason: '') s) = Some s' \<and>
    print_line buf 4 s' = Some (m', v') \<and>
    literals lit buf addr m' \<and> same_off (arrays buf addr) m m' \<and> blue_screen (first_lines i) v'"
proof -
  let ?head = "(2, char_bytes '':( A problem has been detected and kdbOS has been shut down.'')"
  obtain ma va where a: "print_line buf 2 (set_line buf (lit '':( A problem has been detected and kdbOS has been shut down.'') (m, v)) = Some (ma, va)"
      "literals lit buf addr ma" "same_off (arrays buf addr) m ma" "blue_screen [?head] va"
    using literal_line [OF assms(1,2) panic_texts_mem(1), of 2] by auto
  note w = literal_text [OF a(2) exception_text [OF assms(3)]]
  have "\<exists>s m' v'. extend_line buf (lit (exception_messages ! i)) (set_line buf (lit ''Reason: '') (ma, va)) = Some s \<and>
      print_line buf 4 s = Some (m', v') \<and> literals lit buf addr m' \<and> same_off (arrays buf addr) ma m' \<and>
      blue_screen ([?head] @ [(unat (4 :: u16), char_bytes ''Reason: '' @ char_bytes (exception_messages ! i))]) v'"
    using w by (intro joined_line a(2,4) panic_texts_mem(2)) simp_all
  then obtain s m' v' where b: "extend_line buf (lit (exception_messages ! i)) (set_line buf (lit ''Reason: '') (ma, va)) = Some s"
      "print_line buf 4 s = Some (m', v')" "literals lit buf addr m'" "same_off (arrays buf addr) ma m'"
      "blue_screen (first_lines i) v'" by auto
  with a(1) same_off_trans [OF a(3) b(4)] show ?thesis by blast
qed

lemma closing_show:
  assumes "literals lit buf addr m" "blue_screen lines v" "row + 3 < 25" "row + 3 + 1 < 25"
    and "map_of lines (unat (row + 3)) = None" "map_of lines (unat (row + 3 + 1)) = None"
  shows "\<exists>s m' v'.
    print_line buf (row + 3) (set_line buf (lit ''If this is the first time you've seen this, restart your computer.'') (m, v)) = Some s \<and>
    print_line buf (row + 3 + 1) (set_line buf (lit ''If errors persist, check your build.'') s) = Some (m', v') \<and>
    same_off (arrays buf addr) m m' \<and> blue_screen (lines @ last_lines (unat (row + 3))) v'"
proof -
  let ?tail = "(unat (row + 3), char_bytes ''If this is the first time you've seen this, restart your computer.'')"
  have "unat (x + 1) = unat x + 1" if "x < 25" for x :: u16
    using that by (simp add: unat_word_ariths word_less_nat_alt)
  then have next_row: "unat (row + 3 + 1) = unat (row + 3) + 1" using assms(3) by blast
  obtain ma va where a: "print_line buf (row + 3)
      (set_line buf (lit ''If this is the first time you've seen this, restart your computer.'') (m, v)) = Some (ma, va)"
      "literals lit buf addr ma" "same_off (arrays buf addr) m ma" "blue_screen (lines @ [?tail]) va"
    using literal_line [OF assms(1,2) panic_texts_mem(11) assms(3,5)] by blast
  have "map_of (lines @ [?tail]) (unat (row + 3 + 1)) = None"
    using assms(6) next_row by (simp add: map_add_def)
  from literal_line [OF a(2,4) panic_texts_mem(12) assms(4) this]
  obtain m' v' where b: "print_line buf (row + 3 + 1) (set_line buf (lit ''If errors persist, check your build.'') (ma, va)) = Some (m', v')"
      "same_off (arrays buf addr) ma m'" "blue_screen (lines @ last_lines (unat (row + 3))) v'"
    unfolding next_row by auto
  with a(1) same_off_trans [OF a(3) b(2)] show ?thesis by blast
qed

lemma flush_shows:
  assumes "blue_screen lines v" "r < 25" "c < 80"
  shows "framebuffer (io (vterm_flush v)) (c + r * 80) = cell_word (panic_cell lines r c)"
proof -
  have "c + r * 80 < 2000" "(c + r * 80) div 80 = r" "(c + r * 80) mod 80 = c" using assms by simp_all
  with assms show ?thesis by (simp add: mirror_cell_def blue_screen_def)
qed

section \<open>Properties\<close>

text \<open>C34: \<open>hex_to_string\<close> extracts the digits from the right while \<open>vterm_write_hex\<close> selects
  them from the left; both give the same text, which reads back as the number, and
  only the eleven bytes of the string are written.\<close>

theorem hex_to_string_equiv:
  "\<exists>t. str_at (hex_to_string val buffer m) buffer (0x30 # 0x78 # t) \<and> hex_value t = val \<and>
    vterm_write_hex val fg bg vt = vterm_set_color (current_fg vt) (current_bg vt)
      (fold vterm_write_char (0x30 # 0x78 # t) (vterm_set_color fg bg vt)) \<and>
    (\<forall>x. unat (x - buffer) < 11 \<or> hex_to_string val buffer m x = m x)"
proof (intro exI [of _ "hex_digits val"] conjI allI)
  show "hex_value (hex_digits val) = val"
    using hex_value_prefix [of 8 val] by (simp add: hex_value_def hex_digits_def)
  show "unat (x - buffer) < 11 \<or> hex_to_string val buffer m x = m x" for x
    using hex_to_string_str(2) [of x buffer val m] by linarith
qed (simp_all only: hex_to_string_str write_hex_chars)

text \<open>C15: the panic screen.  For every CPU exception \<open>kernel_panic\<close> reaches its final halt: the
  monitor then shows, white on blue and with a hidden cursor, exactly the lines of the report, each
  centred and complete: the name of the exception and, for a page fault, the address in
  hexadecimal and what the error code says.  Memory outside its two local arrays is unchanged.\<close>

theorem kernel_panic_screen:
  assumes "unat (interrupt_number regs) < 32" "literals lit buf addr m"
  shows "\<exists>m' vt'. kernel_panic dev lit buf addr cr2 regs (m, vt) = Inr (Some (m', vt')) \<and>
    same_off (arrays buf addr) m m' \<and> \<not> visible (active_cursor_style vt') \<and>
    (\<forall>r < 25. \<forall>c < 80. framebuffer (io vt') (c + r * 80) =
       cell_word (panic_cell (panic_lines (interrupt_number regs) cr2 (error_code regs)) r c))"
proof -
  let ?i = "interrupt_number regs"
  define v where "v = vterm_set_cursor_visible dev False (vterm_set_color COLOR_WHITE COLOR_BLUE
     (vterm_clear COLOR_WHITE COLOR_BLUE (vterm_set_buffering_mode BUFFER_MODE_BLOCK vt)))"
  define more where "more = (if ?i = 14 then page_fault_text cr2 (error_code regs) else [])"
  define row :: u16 where "row = (if ?i = 14 then 9 else 4)"
  obtain sa sb mb vb where b:
      "print_line buf 2 (set_line buf (lit '':( A problem has been detected and kdbOS has been shut down.'') (m, v)) = Some sa"
      "extend_line buf (lit (exception_messages ! unat ?i)) (set_line buf (lit ''Reason: '') sa) = Some sb"
      "print_line buf 4 sb = Some (mb, vb)" "literals lit buf addr mb" "same_off (arrays buf addr) m mb"
      "blue_screen (first_lines (unat ?i)) vb"
    using opening_show [OF assms(2) blue_screen_start assms(1), of dev vt, folded v_def] by blast
  have "\<exists>mc vc. (if ?i = 14 then page_fault_lines lit buf addr cr2 (error_code regs) 4 (mb, vb)
      else Some (4, mb, vb)) = Some (row, mc, vc) \<and> literals lit buf addr mc \<and>
      same_off (arrays buf addr) mb mc \<and> blue_screen (first_lines (unat ?i) @ more) vc"
    using page_fault_lines_show [OF b(4,6), of cr2 "error_code regs"] b(4,6)
    by (auto simp: more_def row_def)
  then obtain mc vc where c: "(if ?i = 14 then page_fault_lines lit buf addr cr2 (error_code regs) 4 (mb, vb)
      else Some (4, mb, vb)) = Some (row, mc, vc)" "literals lit buf addr mc"
      "same_off (arrays buf addr) mb mc" "blue_screen (first_lines (unat ?i) @ more) vc" by blast
  have rows: "row + 3 < 25" "row + 3 + 1 < 25" "map_of (first_lines (unat ?i) @ more) (unat (row + 3)) = None"
      "map_of (first_lines (unat ?i) @ more) (unat (row + 3 + 1)) = None"
    by (simp_all add: row_def more_def page_fault_text_def)
  obtain sd me ve where e: "print_line buf (row + 3)
      (set_line buf (lit ''If this is the first time you've seen this, restart your computer.'') (mc, vc)) = Some sd"
      "print_line buf (row + 3 + 1) (set_line buf (lit ''If errors persist, check your build.'') sd) = Some (me, ve)"
      "same_off (arrays buf addr) mc me"
      "blue_screen ((first_lines (unat ?i) @ more) @ last_lines (unat (row + 3))) ve"
    using closing_show [OF c(2,4) rows] by blast
  have lines: "(first_lines (unat ?i) @ more) @ last_lines (unat (row + 3)) = panic_lines ?i cr2 (error_code regs)"
    by (simp add: panic_lines_def more_def row_def Let_def)
  have "kernel_panic dev lit buf addr cr2 regs (m, vt) = Inr (Some (me, vterm_flush ve))"
    using assms(1) b(1-3) c(1) e(1,2) unfolding row_def
    by (cases "?i = 14") (simp_all add: kernel_panic_def Let_def exception_count v_def [symmetric])
  moreover have "\<not> visible (active_cursor_style (vterm_flush ve))"
    using e(4) by (simp add: blue_screen_def vterm_flush_def Let_def)
  moreover have "same_off (arrays buf addr) m me" using b(5) c(3) e(3) by (blast intro: same_off_trans)
  ultimately show ?thesis using flush_shows [OF e(4) [unfolded lines]] by blast
qed

text \<open>A layout of the literals: each in 128 bytes of its own, from \<open>0x200000\<close> on.\<close>

fun position :: "'a \<Rightarrow> 'a list \<Rightarrow> nat" where
  "position x [] = 0"
| "position x (y # ys) = (if x = y then 0 else Suc (position x ys))"

lemma position_nth: "x \<in> set xs \<Longrightarrow> position x xs < length xs \<and> xs ! position x xs = x"
  by (induction xs) auto

definition demo_lit :: "string \<Rightarrow> u32" where
  "demo_lit t = U32 (0x200000 + 128 * position t panic_texts)"

definition demo_rodata :: mem where
  "demo_rodata x = (let off = unat x - 0x200000; k = off div 128; i = off mod 128 in
     if k < length panic_texts \<and> i < length (panic_texts ! k) then char_bytes (panic_texts ! k) ! i else 0)"

lemma panic_texts_length: "length panic_texts = 44"
  by (simp add: panic_texts_def exception_count)

lemma demo_literals: "literals demo_lit 0x300000 0x300080 demo_rodata"
proof -
  have t: "fits (demo_lit t) (length t + 1) \<and> apart (demo_lit t) (length t + 1) 0x300000 80 \<and>
      apart (demo_lit t) (length t + 1) 0x300080 12 \<and> str_at demo_rodata (demo_lit t) (char_bytes t)"
    if "t \<in> set panic_texts" for t
  proof -
    let ?k = "position t panic_texts"
    have k: "?k < 44" "panic_texts ! ?k = t" using position_nth [OF that] by (simp_all add: panic_texts_length)
    have ok: "length t < 72" "plain (char_bytes t)" using that panic_texts_ok by (simp_all add: list_all_iff)
    have u: "unat (demo_lit t) = 0x200000 + 128 * ?k" using k by (simp add: demo_lit_def unat_of_nat_u32 del: of_nat_add)
    have o: "unat (demo_lit t + U32 i) - 0x200000 = 128 * ?k + i" if "i < 128" for i
      using that u k by (subst unat_add_u32) (simp_all add: unat_of_nat_u32)
    have "(128 * ?k + i) div 128 = ?k" "(128 * ?k + i) mod 128 = i" if "i < 128" for i using that by simp_all
    then have m: "demo_rodata (demo_lit t + U32 i) = (if i < length t then char_bytes t ! i else 0)" if "i < 128" for i
      using that k by (simp add: demo_rodata_def Let_def o panic_texts_length)
    have "str_at demo_rodata (demo_lit t) (char_bytes t)"
      using ok m by (auto simp: str_at_iff load8_def plain_def list_all_length)
    with u k ok show ?thesis by (simp add: fits_def apart_def)
  qed
  then show ?thesis by (simp add: literals_def fits_def apart_def)
qed

definition demo_fault :: CpuRegisters where
  "demo_fault = \<lparr>ds = 0x10, edi = 0, esi = 0, ebp = 0, esp = 0, ebx = 0, edx = 0, ecx = 0, eax = 0,
     interrupt_number = 14, error_code = 2, eip = 0x100000, cs = 8, eflags = 0, useresp = 0, ss = 0x10\<rparr>"

theorem kernel_panic_screen_witness:
  "\<exists>m' vt'. kernel_panic (\<lambda>_ _. 0) demo_lit 0x300000 0x300080 0xDEADBEEF demo_fault
     (demo_rodata, vterm_static \<lparr>ports = [], framebuffer = (\<lambda>_. 0)\<rparr>) = Inr (Some (m', vt'))"
proof -
  have "unat (interrupt_number demo_fault) < 32" by (simp add: demo_fault_def)
  from kernel_panic_screen [OF this demo_literals] show ?thesis by blast
qed

end
