(* ===== verification/Boot.thy ===== *)
theory Boot
  imports Proc Tables Keyboard Panic
begin

text \<open>
  \<^verbatim>\<open>src/kernel/kernel.c\<close> and \<^verbatim>\<open>src/include/multiboot.h\<close>: the start of the kernel.  The record
  \<open>kernel\<close> collects the static variables of all modules with the machine and the console; the
  record \<open>image\<close> has the addresses the linker chooses.  The boot loader's information block is
  in memory.  Until \<open>paging_init\<close> addresses are physical; \<open>kmalloc_init\<close>, the first write after
  it, goes through the new page tables.  The endless loops at the end are the returned state, with whether
  the kernel booted.
\<close>

section \<open>State\<close>

record image =
  handler_tables :: isr_tables
  image_sections :: sections
  gdt_address :: u32
  idt_address :: u32
  stub_table :: "nat \<Rightarrow> u32"
  panic_address :: u32
  page_fault_address :: u32
  keyboard_address :: u32
  timer_address :: u32
  idle_code_address :: u32
  one_code_address :: u32
  two_code_address :: u32

record kernel =
  gdt_pointer :: GdtRegister
  gdt_entries :: "GdtDescriptor list"
  idt_pointer :: IdtRegister
  idt_entries :: "IdtDescriptor list"
  machine :: vm
  console :: vterm
  frames :: pmm
  kernel_directory :: u32
  heap_start :: u32
  pid_counter :: u32
  scheduler :: Scheduler
  interrupts_on :: bool

abbreviation on_memory :: "(mem \<Rightarrow> mem) \<Rightarrow> kernel \<Rightarrow> kernel" where
  "on_memory f k \<equiv> k\<lparr>machine := on_ram f (machine k)\<rparr>"

abbreviation on_console :: "(vterm \<Rightarrow> vterm) \<Rightarrow> kernel \<Rightarrow> kernel" where
  "on_console f k \<equiv> k\<lparr>console := f (console k)\<rparr>"

abbreviation on_ports :: "(hardware \<Rightarrow> hardware) \<Rightarrow> kernel \<Rightarrow> kernel" where
  "on_ports f k \<equiv> on_console (\<lambda>vt. vt\<lparr>io := f (io vt)\<rparr>) k"

definition mb_flags :: "mem \<Rightarrow> u32 \<Rightarrow> u32" where
  "mb_flags m mb_info = load32 m mb_info"

definition mb_mem_lower :: "mem \<Rightarrow> u32 \<Rightarrow> u32" where
  "mb_mem_lower m mb_info = load32 m (mb_info + 4)"

definition mb_mem_upper :: "mem \<Rightarrow> u32 \<Rightarrow> u32" where
  "mb_mem_upper m mb_info = load32 m (mb_info + 8)"

section \<open>Operations\<close>

definition init_cpu_architecture :: "device \<Rightarrow> image \<Rightarrow> kernel \<Rightarrow> kernel" where
  "init_cpu_architecture dev img k =
     (let (gp, g) = init_gdt (gdt_address img) (gdt_entries k);
          k = k\<lparr>gdt_pointer := gp, gdt_entries := g\<rparr>;
          k = on_memory (init_isr (handler_tables img) (panic_address img)) k;
          k = on_ports (pic_remap dev) k;
          (ip, i) = init_idt (idt_address img) (stub_table img) (idt_entries k)
      in k\<lparr>idt_pointer := ip, idt_entries := i\<rparr>)"

definition boot_error :: "u8 \<Rightarrow> kernel \<Rightarrow> kernel" where
  "boot_error c k =
     (let k = on_console (vterm_move_cursor 0 0) k;
          k = on_console (vterm_set_color COLOR_RED COLOR_BLACK) k
      in on_console (kprint_c c) k)"

definition verify_multiboot :: "u32 \<Rightarrow> u32 \<Rightarrow> kernel \<Rightarrow> u32 \<times> kernel" where
  "verify_multiboot magic multiboot_ptr k =
     (let k = on_console (vterm_init COLOR_WHITE COLOR_BLACK) k in
      if magic \<noteq> 0x2BADB002 then (0, boot_error 0x4D k)
      else
        let mb_info = multiboot_ptr in
        if mb_flags (ram (machine k)) mb_info AND push_bit 6 1 = 0 then (0, boot_error 0x45 k)
        else (mb_info, k))"

text \<open>\<open>kmalloc_init\<close> through the page tables.\<close>

definition vkmalloc_init :: "u32 \<Rightarrow> vm \<Rightarrow> (u32 \<times> vm) result" where
  "vkmalloc_init dynamic_heap_start s =
     (let heap_start = dynamic_heap_start;
          identity_mapped_cieling = 0x007FFFFF;
          kernel_heap_size = identity_mapped_cieling - dynamic_heap_start in
      bind_result (set_entry heap_start 0 (\<lambda>_. kernel_heap_size - 12) s) (\<lambda>s.
      bind_result (set_byte (heap_start + 4) 1 s) (\<lambda>s.
      bind_result (set_entry (heap_start + 8) 0 (\<lambda>_. 0) s) (\<lambda>s.
      Inr (heap_start, s)))))"

definition init_memory_management :: "image \<Rightarrow> u32 \<Rightarrow> kernel \<Rightarrow> kernel result" where
  "init_memory_management img mb_info k =
     (let m = ram (machine k);
          total_ram_bytes = (mb_mem_lower m mb_info + mb_mem_upper m mb_info) * 1024;
          bitmap_addr = 0x00400000;
          (dynamic_heap_start, p, m) = pmm_init total_ram_bytes bitmap_addr m;
          (kd, u, m) = paging_init (image_sections img) (handler_tables img) (page_fault_address img) p
            (regs (machine k)) m;
          k = k\<lparr>machine := \<lparr>ram = m, regs = u\<rparr>, frames := p, kernel_directory := kd\<rparr> in
      bind_result (vkmalloc_init dynamic_heap_start (machine k)) (\<lambda>(hs, s).
      Inr (k\<lparr>machine := s, heap_start := hs\<rparr>)))"

definition init_isr_drivers :: "image \<Rightarrow> kernel \<Rightarrow> kernel" where
  "init_isr_drivers img k =
     (let k = on_memory (init_keyboard (handler_tables img) (keyboard_address img)) k;
          k = on_memory (isr_register_sched_timer (handler_tables img) (timer_address img)) k;
          k = on_ports (outb PIC1_DATA 0xFC) k;
          k = on_ports (outb PIC2_DATA 0xFF) k
      in k\<lparr>interrupts_on := True\<rparr>)"

definition idle_process_code :: "u8 list" where
  "idle_process_code = [
    0xC6, 0x05, 0x00, 0x80, 0x0B, 0x00, 0x49,
    0xC6, 0x05, 0x01, 0x80, 0x0B, 0x00, 0x07,
    0xC6, 0x05, 0x02, 0x80, 0x0B, 0x00, 0x44,
    0xC6, 0x05, 0x03, 0x80, 0x0B, 0x00, 0x07,
    0xC6, 0x05, 0x04, 0x80, 0x0B, 0x00, 0x4C,
    0xC6, 0x05, 0x05, 0x80, 0x0B, 0x00, 0x07,
    0xC6, 0x05, 0x06, 0x80, 0x0B, 0x00, 0x45,
    0xC6, 0x05, 0x07, 0x80, 0x0B, 0x00, 0x07,
    0xEB, 0xC6]"

definition process_one_code :: "u8 list" where
  "process_one_code = [
    0xC6, 0x05, 0x00, 0x80, 0x0B, 0x00, 0x50,
    0xC6, 0x05, 0x01, 0x80, 0x0B, 0x00, 0x0A,
    0xC6, 0x05, 0x02, 0x80, 0x0B, 0x00, 0x31,
    0xC6, 0x05, 0x03, 0x80, 0x0B, 0x00, 0x0A,
    0xEB, 0xE2]"

definition process_two_code :: "u8 list" where
  "process_two_code = [
    0xC6, 0x05, 0x00, 0x80, 0x0B, 0x00, 0x50,
    0xC6, 0x05, 0x01, 0x80, 0x0B, 0x00, 0x0B,
    0xC6, 0x05, 0x02, 0x80, 0x0B, 0x00, 0x32,
    0xC6, 0x05, 0x03, 0x80, 0x0B, 0x00, 0x0B,
    0xEB, 0xE2]"

text \<open>A control block for a program of the kernel image.\<close>

definition kernel_create_pcb :: "u32 \<Rightarrow> u8 list \<Rightarrow> kernel \<Rightarrow> (u32 \<times> kernel) result option" where
  "kernel_create_pcb code_address code k =
     seq (create_pcb (frames k) (kernel_directory k) (heap_start k) code_address (of_nat (length code)) True
         (pid_counter k, machine k)) (\<lambda>(pcb, n, s).
     Some (Inr (pcb, k\<lparr>machine := s, pid_counter := n\<rparr>)))"

definition kernel_enqueue :: "u32 \<Rightarrow> kernel \<Rightarrow> kernel result option" where
  "kernel_enqueue pcb k =
     seq (Some (sched_enqueue pcb (scheduler k) (ram (machine k)))) (\<lambda>m. Some (Inr (on_memory (\<lambda>_. m) k)))"

definition start_processes :: "image \<Rightarrow> u32 \<Rightarrow> kernel \<Rightarrow> kernel result option" where
  "start_processes img err k =
     seq (sched_init (frames k) (kernel_directory k) (heap_start k) (idle_code_address img)
         (of_nat (length idle_process_code)) True err (pid_counter k, machine k)) (\<lambda>(sc, n, s).
     let k = k\<lparr>scheduler := sc, pid_counter := n, machine := s\<rparr> in
     seq (kernel_create_pcb (one_code_address img) process_one_code k) (\<lambda>(pcb_one, k).
     seq (kernel_create_pcb (two_code_address img) process_two_code k) (\<lambda>(pcb_two, k).
     seq (kernel_enqueue pcb_one k) (\<lambda>k.
     kernel_enqueue pcb_two k))))"

definition kernel_main :: "device \<Rightarrow> image \<Rightarrow> u32 \<Rightarrow> u32 \<Rightarrow> u32 \<Rightarrow> kernel \<Rightarrow> (bool \<times> kernel) result option" where
  "kernel_main dev img err magic multiboot_ptr k =
     (let k = on_console (vterm_set_cursor_visible dev False) k;
          k = on_console (vterm_set_buffering_mode BUFFER_MODE_BLOCK) k;
          k = init_cpu_architecture dev img k;
          (mb_info, k) = verify_multiboot magic multiboot_ptr k in
      if mb_info = 0 then Some (Inr (False, k\<lparr>interrupts_on := False\<rparr>))
      else
        seq (Some (init_memory_management img mb_info k)) (\<lambda>k.
        seq (start_processes img err k) (\<lambda>k.
        Some (Inr (True, init_isr_drivers img k)))))"

declare One_nat_def [simp del] upt_rec_numeral [simp del]

section \<open>Rejecting a boot loader\<close>

lemma boot_error_shows:
  assumes "vterm_ok (console k)" "current_mode (console k) = BUFFER_MODE_STREAM" "c \<noteq> 0x0A" "c \<noteq> 0x08"
  shows "framebuffer (io (console (boot_error c k))) 0 = vga_cell c 0x4 0x0"
    "machine (boot_error c k) = machine k"
proof -
  let ?v = "vterm_set_color COLOR_RED COLOR_BLACK (vterm_move_cursor 0 0 (console k))"
  have v: "vterm_ok ?v" "cursor_col ?v < 80" using assms(1) move_cursor_ok set_color_ok by (auto simp: vterm_set_color_def)
  have w: "vterm_wrap ?v = ?v" by (simp add: vterm_wrap_def vterm_set_color_def SCREEN_COLS_def SCREEN_ROWS_def)
  have "vterm_write_char c ?v = vterm_put c ?v" using assms(3,4) by (simp add: vterm_write_char_def)
  then show "framebuffer (io (console (boot_error c k))) 0 = vga_cell c 0x4 0x0"
    using assms(2) put_simps(5) [OF v(1), of c] w
    by (simp add: boot_error_def kprint_c_def vterm_set_color_def written_cell_def cell_word_def vga_color_lookup_def vga_color_defs)
  show "machine (boot_error c k) = machine k" by (simp add: boot_error_def Let_def)
qed

section \<open>The heap and the kernel directory\<close>

text \<open>Writing the directory from its third entry on does not change the first 8 MB.\<close>

lemma translate_low_kept:
  assumes "page_aligned kd" "table m kd 0 \<noteq> kd" "table m kd 1 \<noteq> kd" "va < 0x800000"
    and "\<And>x. \<not> in_range x (kd + 8) 4088 \<Longrightarrow> m' x = m x"
  shows "translate kd m' va = translate kd m va"
proof -
  have u: "unat (kd + 8) = unat kd + 8" using unat_offset [of kd 4096 8] assms(1) by simp
  have i: "dir_index va < 2" using assms(4) unfolding dir_index_div word_less_nat_alt by simp
  have d: "entry m' kd i = entry m kd i" if "i < 2" for i
  proof -
    have "m' (kd + 4 * U32 i + U32 j) = m (kd + 4 * U32 i + U32 j)" if "j < 4" for j
    proof (rule assms(5))
      have "unat (kd + U32 (4 * i + j)) = unat kd + (4 * i + j)"
        using that \<open>i < 2\<close> assms(1) by (intro unat_offset [of kd 4096]) simp_all
      then show "\<not> in_range (kd + 4 * U32 i + U32 j) (kd + 8) 4088"
        using that \<open>i < 2\<close> u by (simp add: in_range_def add.assoc)
    qed
    then show ?thesis unfolding entry_def by (intro load32_cong) simp
  qed
  have e: "entry m' t j = entry m t j" if "page_aligned t" "t \<noteq> kd" "j < 1024" for t j
  proof (rule entry_cong [OF that(1,3)])
    fix x assume "x \<in> bytes t 4096"
    then have "x \<notin> bytes kd 4096" using pages_disjoint [OF that(1) assms(1) that(2)] by blast
    then show "m' x = m x" using u by (intro assms(5)) (auto simp: bytes_def in_range_def)
  qed
  have "table m kd (dir_index va) \<noteq> kd" using i assms(2,3) by (auto simp: less_2_cases_iff One_nat_def)
  then show ?thesis by (intro translate_eqI d i e) simp_all
qed

text \<open>The frames granted to \<open>paging_init\<close> after \<open>pmm_init\<close>, and the kernel image below 4 MB.\<close>

lemma boot_frames:
  assumes lay: "pmm_layout nbytes 0x400000" and init: "pmm_init nbytes 0x400000 m = (nxt, p, m1)"
    and big: "unat nxt div 4096 + 2 < unat nbytes div 4096"
    and img: "unat (cpu_exception_handlers tables) + 128 \<le> 0x400000"
  obtains m3 kd where "kd = nxt div 4096 * 4096" "three_frames p m1 kd (kd + 0x1000) (kd + 0x2000) m3"
    "slot_outside tables kd" "slot_outside tables (kd + 0x1000)" "slot_outside tables (kd + 0x2000)"
    "unat kd = unat nxt div 4096 * 4096" "0x400000 \<le> unat kd" "unat kd + 0x3000 \<le> 4294967296"
proof -
  note parts = pmm_init_parts [OF lay init]
  let ?f = "nxt div 4096"
  have f: "unat ?f = unat nxt div 4096" by (simp add: unat_div)
  have n: "0x400000 \<le> unat nxt" using parts(3) by simp
  have b: "unat nxt div 4096 + 2 < 1048576" using big unat_u32_bound [of nbytes] by linarith
  have kd: "unat (?f * 4096) = unat nxt div 4096 * 4096" using b by (subst unat_mult_u32) (simp_all add: f)
  have n4: "0x400 \<le> unat nxt div 4096" using n by linarith
  then have pos: "0 < unat nxt div 4096" by linarith
  obtain m3 where "three_frames p m1 (?f * 4096) ((?f + 1) * 4096) ((?f + 2) * 4096) m3"
    by (rule pmm_init_three_frames [OF lay init pos big])
  then have tf: "three_frames p m1 (?f * 4096) (?f * 4096 + 0x1000) (?f * 4096 + 0x2000) m3"
    by (simp add: distrib_right)
  have k1: "unat (?f * 4096 + 0x1000) = unat (?f * 4096) + 0x1000"
      and k2: "unat (?f * 4096 + 0x2000) = unat (?f * 4096) + 0x2000"
    using b kd by (subst unat_add_u32; simp)+
  have slot: "unat (cpu_exception_handlers tables + 56) = unat (cpu_exception_handlers tables) + 56"
    using img by (subst unat_add_u32) simp_all
  have out: "slot_outside tables t" if "0x400000 \<le> unat t" for t
    using that img slot by (auto simp: slot_outside_def fits_def bytes_def in_range_def)
  show ?thesis
    using that [of "?f * 4096" m3] tf kd n4 b k1 k2 by (simp add: out)
qed

text \<open>The header of the heap is a part of the directory.\<close>

lemma heap_header_run:
  assumes "cr3 u = kd" "page_aligned kd" "table m kd 0 \<noteq> kd" "table m kd 1 \<noteq> kd"
    and tr: "\<And>va. 0x1000 \<le> va \<Longrightarrow> va < 0x800000 \<Longrightarrow> translate kd m va = Some va"
    and kd: "0x400000 \<le> unat kd" "unat kd + 4096 \<le> 0x800000" and n: "2 \<le> n" "n < 1022"
  defines "hs \<equiv> kd + 4 * U32 n"
  shows "vkmalloc_init hs \<lparr>ram = m, regs = u\<rparr> = Inr (hs, \<lparr>ram = store32 (hs + 8) 0
      (store8 (hs + 4) 1 (store32 hs (0x7FFFF3 - hs) m)), regs = u\<rparr>)"
proof -
  have hs: "unat (hs + U32 k) = unat kd + 4 * n + k" if "k < 12" for k
    using unat_offset [of kd 4096 "4 * n + k"] that n assms(2) by (simp add: hs_def add.assoc)
  have fit: "fits hs 4" "fits (hs + 4) 1" "fits (hs + 8) 4"
    using hs [of 0] hs [of 4] hs [of 8] kd n by (simp_all add: fits_def)
  have va: "0x1000 \<le> hs + U32 k \<and> hs + U32 k < 0x800000" if "k < 12" for k
    using hs [OF that] that kd n by (simp add: word_le_nat_alt word_less_nat_alt)
  have u8: "unat (kd + 8) = unat kd + 8" using unat_offset [of kd 4096 8] assms(2) by simp
  have inside: "in_range x (kd + 8) 4088" if "in_range x (hs + U32 k) j" "k + j \<le> 12" "0 < j" for x k j
    using that hs [of k] u8 n by (auto simp: in_range_def)
  let ?m1 = "store32 hs (0x7FFFF3 - hs) m" and ?m2 = "store8 (hs + 4) 1 (store32 hs (0x7FFFF3 - hs) m)"
  have o1: "?m1 x = m x" if "\<not> in_range x (kd + 8) 4088" for x
    using that inside [of x 0 4] fit by (intro store32_frame) auto
  have o2: "?m2 x = m x" if "\<not> in_range x (kd + 8) 4088" for x
    using that o1 [OF that] inside [of x 4 1] by (auto simp: store8_apply in_range_def)
  have t0: "translate kd m hs = Some hs" using tr va [of 0] by simp
  have t1: "translate kd ?m1 (hs + 4) = Some (hs + 4)"
    using translate_low_kept [OF assms(2-4), of "hs + 4" ?m1] o1 tr va [of 4] by simp
  have t2: "translate kd ?m2 (hs + 8) = Some (hs + 8)"
    using translate_low_kept [OF assms(2-4), of "hs + 8" ?m2] o2 tr va [of 8] by simp
  have "0x007FFFFF - hs - 12 = 0x7FFFF3 - hs" by simp
  then show ?thesis
    using assms(1) t0 t1 t2
    by (simp add: vkmalloc_init_def Let_def set_entry_def set_byte_def resolve_def load32_def)
qed

text \<open>The end of the bitmap on a machine with \<open>nbytes\<close> of memory, and the conditions on the machine: at
  least 5 MB, the handler table in the kernel image below 4 MB, and a heap header that lies in one
  frame, behind its first two words.\<close>

definition bitmap_end :: "u32 \<Rightarrow> u32" where
  "bitmap_end nbytes = U32 (0x400000 + 4 * ((unat nbytes div 4096 + 31) div 32))"

definition boot_bytes :: "u32 \<Rightarrow> kernel \<Rightarrow> u32" where
  "boot_bytes mb_info k = (mb_mem_lower (ram (machine k)) mb_info + mb_mem_upper (ram (machine k)) mb_info) * 1024"

definition boot_layout :: "image \<Rightarrow> u32 \<Rightarrow> bool" where
  "boot_layout img nbytes \<longleftrightarrow> 0x500000 \<le> unat nbytes \<and>
     unat (cpu_exception_handlers (handler_tables img)) + 128 \<le> 0x400000 \<and>
     8 \<le> unat (bitmap_end nbytes) mod 4096 \<and> unat (bitmap_end nbytes) mod 4096 \<le> 4084"

lemma bitmap_end_bounds:
  "unat (bitmap_end nbytes) = 0x400000 + 4 * ((unat nbytes div 4096 + 31) div 32)"
  "unat (bitmap_end nbytes) \<le> 0x420000" "pmm_layout nbytes 0x400000"
proof -
  have b: "(unat nbytes div 4096 + 31) div 32 \<le> 32768" using unat_u32_bound [of nbytes] by linarith
  then show n: "unat (bitmap_end nbytes) = 0x400000 + 4 * ((unat nbytes div 4096 + 31) div 32)"
    unfolding bitmap_end_def by (subst unat_of_nat_u32) linarith+
  then show "unat (bitmap_end nbytes) \<le> 0x420000" using b by linarith
  show "pmm_layout nbytes 0x400000" using b by (simp add: pmm_layout_def aligned4_def)
qed

lemma bitmap_end_aligned: "unat (bitmap_end nbytes) mod 4 = 0"
proof -
  have "0x400000 + 4 * x = 4 * (0x100000 + x)" for x :: nat by simp
  then show ?thesis by (simp only: bitmap_end_bounds(1) mod_mult_self1_is_0)
qed

lemma heap_start_in_directory:
  assumes "unat kd = unat nxt div 4096 * 4096" "unat nxt mod 4 = 0"
  shows "nxt = kd + 4 * U32 (unat nxt mod 4096 div 4)" "page_aligned kd"
proof -
  have "unat nxt mod 4096 mod 4 = 0" using assms(2) by (simp add: mod_mod_cancel)
  then have "4 * (unat nxt mod 4096 div 4) = unat nxt mod 4096"
    using mult_div_mod_eq [of 4 "unat nxt mod 4096"] by linarith
  then have "unat nxt = unat kd + 4 * (unat nxt mod 4096 div 4)" using assms(1) by simp
  then have "nxt = U32 (unat kd + 4 * (unat nxt mod 4096 div 4))" by (metis of_nat_unat_u32)
  then show "nxt = kd + 4 * U32 (unat nxt mod 4096 div 4)" by simp
  show "page_aligned kd" using assms(1) by (simp add: page_aligned_def)
qed

text \<open>A bitmap that reaches into a second frame keeps its first words when the tables are made: the frames behind the
  page tables are free.\<close>

lemma boot_free_frames:
  assumes lay: "pmm_layout nb 0x400000" and init: "pmm_init nb 0x400000 m0 = (nxt, p, m1)"
    and tf: "three_frames p m1 kd (kd + 0x1000) (kd + 0x2000) m3" and kd: "unat kd = unat nxt div 4096 * 4096"
    and run: "paging_init sec tables h p u m1 = (d, u', m)" and img: "unat (cpu_exception_handlers tables) + 128 \<le> 0x400000"
    and f: "0x401000 \<le> unat nxt" "unat nxt div 4096 + 3 \<le> unat f" "unat f < 0x800"
  shows "\<not> frame_used p f m"
proof -
  note parts = pmm_init_parts [OF lay init]
  let ?w = "word_addr (frame_bitmap p) f"
  have kd1: "0x401000 \<le> unat kd" using f(1) kd div_le_mono [of "0x401000" "unat nxt" 4096] by simp
  have al: "page_aligned kd" using kd by (simp add: page_aligned_def)
  have kd2: "unat kd + 0x2000 < 0x800000" using kd f(2,3) by linarith
  then have u: "unat (kd + 0x1000) = unat kd + 0x1000" "unat (kd + 0x2000) = unat kd + 0x2000" by (subst unat_add_u32; simp)+
  have slot: "unat (cpu_exception_handlers tables + 56) = unat (cpu_exception_handlers tables) + 56"
    using img by (subst unat_add_u32) simp_all
  have "unat f div 32 < 64" using f(3) by linarith
  then have w: "unat ?w = 0x400000 + 4 * (unat f div 32)" "unat ?w + 4 \<le> 0x400100"
    unfolding word_addr_def parts(1) by (simp_all add: unat_add_u32 unat_mult_u32 unat_div)
  have "m (?w + U32 i) = m3 (?w + U32 i)" if "i < 4" for i
  proof -
    have "unat (?w + U32 i) = unat ?w + i" using that w unat_offset [of ?w 4 i] by (simp add: fits_def)
    then show ?thesis using that w kd1 u slot img
      by (intro paging_init_frame [OF parts(4) tf run]) (auto simp: bytes_def in_range_def fits_def)
  qed
  then have "load32 m ?w = load32 m3 ?w" by (rule load32_cong)
  then have "frame_used p f m = frame_used p f m3" by (simp add: frame_used_def bitmap_test_bit)
  moreover have "unat (kd div 4096) = unat nxt div 4096" "unat ((kd + 0x1000) div 4096) = unat nxt div 4096 + 1"
      "unat ((kd + 0x2000) div 4096) = unat nxt div 4096 + 2" using kd u by (simp_all add: unat_div)
  then have "f \<notin> {kd div 4096, (kd + 0x1000) div 4096, (kd + 0x2000) div 4096}" using f(2) by auto
  moreover have "\<not> frame_used p f m1"
    using f(2) by (simp add: pmm_init_used [OF lay init] word_less_nat_alt unat_div)
  ultimately show ?thesis using three_frames_used [OF parts(4) tf, of f] by blast
qed

lemma init_memory_run:
  assumes lay: "boot_layout img (boot_bytes mb_info k)"
  defines "nxt \<equiv> bitmap_end (boot_bytes mb_info k)"
  obtains k' kd m where "init_memory_management img mb_info k = Inr k'" "kernel_directory k' = kd" "cr3 (regs (machine k')) = kd"
    "unat kd = unat nxt div 4096 * 4096" "heap_start k' = nxt"
    "ram (machine k') = store32 (nxt + 8) 0 (store8 (nxt + 4) 1 (store32 nxt (0x7FFFF3 - nxt) m))"
    "\<And>i. 2 \<le> i \<Longrightarrow> i < 1024 \<Longrightarrow> entry m kd i = 0"
    "frame_bitmap (frames k') = \<lparr>storage = 0x400000, total_bits = boot_bytes mb_info k div 4096\<rparr>"
    "\<And>f. 0x401000 \<le> unat nxt \<Longrightarrow> unat nxt div 4096 + 3 \<le> unat f \<Longrightarrow> unat f < 0x800 \<Longrightarrow> \<not> frame_used (frames k') f m"
proof -
  define nb where "nb = boot_bytes mb_info k"
  note b = bitmap_end_bounds [of nb] and nxt = nxt_def [folded nb_def]
  obtain n p m1 where init: "pmm_init nb 0x400000 (ram (machine k)) = (n, p, m1)" by (metis prod_cases3)
  note parts = pmm_init_parts [OF b(3) init]
  have n: "n = nxt" using parts(1,3) b(1) by (simp add: nxt word_unat_eq_iff bitmap_words_def unat_div)
  have big: "unat nxt div 4096 + 2 < unat nb div 4096"
  proof -
    have "0x500 \<le> unat nb div 4096" using lay unfolding boot_layout_def nb_def [symmetric] by linarith
    then show ?thesis using b(1) unfolding nxt by linarith
  qed
  have img: "unat (cpu_exception_handlers (handler_tables img)) + 128 \<le> 0x400000" using lay by (simp add: boot_layout_def)
  obtain m3 kd where tf: "three_frames p m1 kd (kd + 0x1000) (kd + 0x2000) m3"
    and sl: "slot_outside (handler_tables img) kd" "slot_outside (handler_tables img) (kd + 0x1000)"
      "slot_outside (handler_tables img) (kd + 0x2000)"
    and kd: "unat kd = unat nxt div 4096 * 4096" "0x400000 \<le> unat kd"
    using boot_frames [OF b(3) init [unfolded n] big img] by metis
  obtain d u m where run: "paging_init (image_sections img) (handler_tables img) (page_fault_address img) p
      (regs (machine k)) m1 = (d, u, m)" by (metis prod_cases3)
  note e = paging_init_entries [OF parts(4) tf sl run] and tr = paging_init_translate [OF parts(4) tf sl run]
    and fr = three_frames_fresh [OF parts(4) tf]
  note h = heap_start_in_directory [OF kd(1), unfolded nxt, OF bitmap_end_aligned, folded nxt]
  have t01: "table m kd 0 \<noteq> kd" "table m kd 1 \<noteq> kd" using fr by (simp_all add: e table_entry_def)
  have kd8: "unat kd + 4096 \<le> 0x800000" using kd(1) b(2) unfolding nxt by linarith
  have idx: "2 \<le> unat nxt mod 4096 div 4" "unat nxt mod 4096 div 4 < 1022"
    using lay unfolding boot_layout_def nxt nb_def [symmetric] by linarith+
  have tr': "translate kd m va = Some va" if "0x1000 \<le> va" "va < 0x800000" for va using that by (simp add: tr)
  have hh: "vkmalloc_init nxt \<lparr>ram = m, regs = u\<rparr> = Inr (nxt, \<lparr>ram = store32 (nxt + 8) 0
      (store8 (nxt + 4) 1 (store32 nxt (0x7FFFF3 - nxt) m)), regs = u\<rparr>)"
    using heap_header_run [OF e(2) [of 0] h(2) t01 tr' kd(2) kd8 idx] h(1) by simp
  let ?k = "k\<lparr>machine := \<lparr>ram = store32 (nxt + 8) 0 (store8 (nxt + 4) 1 (store32 nxt (0x7FFFF3 - nxt) m)), regs = u\<rparr>,
      frames := p, kernel_directory := kd, heap_start := nxt\<rparr>"
  have "init_memory_management img mb_info k = Inr ?k"
    using init run hh e(1) [of 0] n unfolding nb_def boot_bytes_def
    by (simp add: init_memory_management_def Let_def)
  moreover have "\<not> frame_used p f m" if "0x401000 \<le> unat nxt" "unat nxt div 4096 + 3 \<le> unat f" "unat f < 0x800" for f
    using boot_free_frames [OF b(3) init [unfolded n] tf kd(1) run img that] .
  ultimately show ?thesis using that [of ?k kd m] kd(1) e(2) [of 0] e(4) parts(1) by (simp add: nb_def)
qed

lemma header_words:
  assumes "unat nxt \<le> 0x420000"
  shows "load32 (store32 (nxt + 8) 0 (store8 (nxt + 4) 1 (store32 nxt v m))) nxt = v"
    "unat a + 4 \<le> unat nxt \<Longrightarrow> load32 (store32 (nxt + 8) 0 (store8 (nxt + 4) 1 (store32 nxt v m))) a = load32 m a"
proof -
  have u: "unat (nxt + 4) = unat nxt + 4" "unat (nxt + 8) = unat nxt + 8"
    using assms by (subst unat_add_u32; simp)+
  show "load32 (store32 (nxt + 8) 0 (store8 (nxt + 4) 1 (store32 nxt v m))) nxt = v"
    using u assms by (simp add: load32_store32_apart load32_store8_apart fits_def apart_def in_range_def)
  show "load32 (store32 (nxt + 8) 0 (store8 (nxt + 4) 1 (store32 nxt v m))) a = load32 m a" if "unat a + 4 \<le> unat nxt"
    using that u assms by (simp add: load32_store32_apart load32_store8_apart fits_def apart_def in_range_def)
qed

text \<open>The header of the heap lies behind the bitmap.\<close>

lemma bitmap_word:
  assumes "frame_bitmap p = \<lparr>storage = 0x400000, total_bits = nb div 4096\<rparr>" "f < nb div 4096"
  shows "unat (word_addr (frame_bitmap p) f) = 0x400000 + 4 * (unat f div 32)"
    "0x400000 + 4 * (unat f div 32) + 4 \<le> unat (bitmap_end nb)"
proof -
  have lt: "unat f < unat nb div 4096" using assms(2) by (simp add: word_less_nat_alt unat_div)
  then have "unat f div 32 + 1 \<le> (unat nb div 4096 + 31) div 32"
    using div_le_mono [of "unat f + 32" "unat nb div 4096 + 31" 32] by simp
  then show le: "0x400000 + 4 * (unat f div 32) + 4 \<le> unat (bitmap_end nb)" unfolding bitmap_end_bounds(1) by linarith
  with bitmap_end_bounds(2) [of nb] show "unat (word_addr (frame_bitmap p) f) = 0x400000 + 4 * (unat f div 32)"
    unfolding word_addr_def assms(1) by (simp add: unat_add_u32 unat_mult_u32 unat_div)
qed

lemma header_keeps_bitmap:
  assumes "frame_bitmap p = \<lparr>storage = 0x400000, total_bits = nb div 4096\<rparr>"
  defines "nxt \<equiv> bitmap_end nb"
  shows "frame_used p f (store32 (nxt + 8) 0 (store8 (nxt + 4) 1 (store32 nxt v m))) = frame_used p f m"
proof (cases "f < nb div 4096")
  case True
  note w = bitmap_word [OF assms(1) True]
  have "load32 (store32 (nxt + 8) 0 (store8 (nxt + 4) 1 (store32 nxt v m))) (word_addr (frame_bitmap p) f) =
      load32 m (word_addr (frame_bitmap p) f)"
    using w header_words(2) bitmap_end_bounds(2) unfolding nxt_def by simp
  then show ?thesis by (simp add: frame_used_def bitmap_test_bit)
qed (simp add: frame_used_def bitmap_test_bit assms(1))

text \<open>A bitmap in one frame is cleared with the directory, but for its first two words.\<close>

lemma cleared_bitmap:
  assumes "frame_bitmap p = \<lparr>storage = 0x400000, total_bits = nb div 4096\<rparr>" "unat (bitmap_end nb) < 0x401000"
    and "\<And>i. 2 \<le> i \<Longrightarrow> i < 1024 \<Longrightarrow> entry m 0x400000 i = 0" "64 \<le> unat f"
  shows "\<not> frame_used p f m"
proof (cases "f < nb div 4096")
  case True
  note w = bitmap_word [OF assms(1) True]
  have i: "2 \<le> unat f div 32" "unat f div 32 < 1024" using w(2) assms(2,4) by linarith+
  then have "word_addr (frame_bitmap p) f = 0x400000 + 4 * U32 (unat f div 32)"
    using w(1) entry_addr [of "0x400000" "unat f div 32"] by (simp add: word_unat_eq_iff page_aligned_def)
  with assms(3) [OF i] show ?thesis by (simp add: frame_used_def bitmap_test_bit entry_def)
qed (simp add: frame_used_def bitmap_test_bit assms(1))

text \<open>A machine as an emulator starts it: 639 KB of lower and 127 MB of upper memory.\<close>

definition demo_image :: image where
  "demo_image = \<lparr>handler_tables = demo_tables, image_sections = demo_sections, gdt_address = 0x108000, idt_address = 0x108100,
     stub_table = (\<lambda>i. 0x101000 + 16 * U32 i), panic_address = 0x102000, page_fault_address = 0x102400,
     keyboard_address = 0x102800, timer_address = 0x102C00, idle_code_address = 0x106000,
     one_code_address = 0x106040, two_code_address = 0x106060\<rparr>"

definition demo_kernel :: kernel where
  "demo_kernel = \<lparr>gdt_pointer = \<lparr>gdtr_limit = 0, gdtr_base = 0\<rparr>, gdt_entries = [],
     idt_pointer = \<lparr>idtr_limit = 0, idtr_base = 0\<rparr>, idt_entries = [],
     machine = \<lparr>ram = store32 0x10000 0x40 (store32 0x10004 639 (store32 0x10008 130048 (\<lambda>_. 0))),
       regs = \<lparr>cr0 = 0x11, cr3 = 0, invalidated = []\<rparr>\<rparr>,
     console = vterm_static \<lparr>ports = [], framebuffer = (\<lambda>_. 0)\<rparr>,
     frames = \<lparr>frame_bitmap = \<lparr>storage = 0, total_bits = 0\<rparr>, total_frames = 0\<rparr>, kernel_directory = 0,
     heap_start = 0, pid_counter = 0,
     scheduler = \<lparr>priority_queues = [0, 0, 0, 0], waiting_queue = 0, current_pcb = 0, idle_pcb = 0\<rparr>,
     interrupts_on = False\<rparr>"

lemma demo_boot_bytes: "boot_bytes 0x10000 demo_kernel = 0x7F9FC00" "bitmap_end 0x7F9FC00 = 0x400FF4"
proof -
  have "load32 (ram (machine demo_kernel)) 0x10004 = 639" "load32 (ram (machine demo_kernel)) 0x10008 = 130048"
    by (simp_all add: demo_kernel_def load32_store32_aligned aligned4_def)
  then show "boot_bytes 0x10000 demo_kernel = 0x7F9FC00"
    by (simp add: boot_bytes_def mb_mem_lower_def mb_mem_upper_def)
  show "bitmap_end 0x7F9FC00 = 0x400FF4" by (simp add: bitmap_end_def)
qed

lemma demo_boot_layout: "boot_layout demo_image (boot_bytes 0x10000 demo_kernel)"
  by (simp add: demo_boot_bytes boot_layout_def demo_image_def demo_tables_def)

section \<open>Properties of the start\<close>

text \<open>C35: an unsuitable boot loader.  When the magic number is wrong, or the information block has no
  memory map, \<open>kernel_main\<close> halts with interrupts off without setting up memory or processes, and
  the top left corner of the screen shows a red M or E.\<close>

theorem kernel_main_rejects:
  assumes "magic \<noteq> 0x2BADB002 \<or> \<not> bit (mb_flags (init_isr (handler_tables img) (panic_address img) (ram (machine k))) multiboot_ptr) 6"
  shows "\<exists>k'. kernel_main dev img err magic multiboot_ptr k = Some (Inr (False, k')) \<and> \<not> interrupts_on k' \<and>
    ram (machine k') = init_isr (handler_tables img) (panic_address img) (ram (machine k)) \<and>
    regs (machine k') = regs (machine k) \<and> scheduler k' = scheduler k \<and>
    framebuffer (io (console k')) 0 = vga_cell (if magic \<noteq> 0x2BADB002 then 0x4D else 0x45) 0x4 0x0"
proof -
  define k0 where "k0 = init_cpu_architecture dev img
    (on_console (vterm_set_buffering_mode BUFFER_MODE_BLOCK) (on_console (vterm_set_cursor_visible dev False) k))"
  define k1 where "k1 = on_console (vterm_init COLOR_WHITE COLOR_BLACK) k0"
  have ram: "ram (machine k1) = init_isr (handler_tables img) (panic_address img) (ram (machine k))"
      "regs (machine k1) = regs (machine k)" "scheduler k1 = scheduler k"
    by (simp_all add: k1_def k0_def init_cpu_architecture_def Let_def split_beta)
  have vt: "vterm_ok (console k1)" "current_mode (console k1) = BUFFER_MODE_STREAM"
    unfolding k1_def vterm_init_def using clear_ok flush_ok by (simp_all) 
  have b: "(mb_flags m ptr AND push_bit 6 1 = 0) \<longleftrightarrow> \<not> bit (mb_flags m ptr) 6" for m ptr
    by (simp add: bit_iff_and_push_bit_not_eq_0)
  let ?c = "if magic \<noteq> 0x2BADB002 then 0x4D else 0x45 :: u8"
  have "verify_multiboot magic multiboot_ptr k0 = (0, boot_error ?c k1)"
    using assms unfolding verify_multiboot_def Let_def k1_def [symmetric] b ram(1) by (simp split: if_split)
  then have "kernel_main dev img err magic multiboot_ptr k = Some (Inr (False, (boot_error ?c k1)\<lparr>interrupts_on := False\<rparr>))"
    unfolding kernel_main_def Let_def k0_def [symmetric] by simp
  moreover have "scheduler (boot_error ?c k1) = scheduler k1" by (simp add: boot_error_def Let_def)
  ultimately show ?thesis using boot_error_shows [OF vt, of ?c] ram by (auto split: if_splits)
qed

theorem kernel_main_rejects_witness:
  "\<exists>k'. kernel_main (\<lambda>_ _. 0) demo_image 0 0 0x10000 demo_kernel = Some (Inr (False, k')) \<and>
     framebuffer (io (console k')) 0 = vga_cell 0x4D 0x4 0x0"
  using kernel_main_rejects [of 0 demo_image demo_kernel "0x10000" "\<lambda>_ _. 0" 0] by auto

text \<open>C16: the heap overwrites the page directory.  On every machine with at least 5 MB whose heap header does
  not straddle a frame or fall on the first two entries, \<open>init_memory_management\<close> returns with the kernel
  directory in the frame that holds the start of the heap, and the size in the heap header is a
  present entry of the directory: 4 MB of the address space are mapped by a table that was never set up.\<close>

theorem boot_heap_in_directory:
  assumes "boot_layout img (boot_bytes mb_info k)"
  shows "\<exists>k' i. init_memory_management img mb_info k = Inr k' \<and> cr3 (regs (machine k')) = kernel_directory k' \<and>
    2 \<le> i \<and> i < 1024 \<and> heap_start k' = kernel_directory k' + 4 * U32 i \<and>
    entry (ram (machine k')) (kernel_directory k') i = 0x7FFFF3 - heap_start k' \<and>
    pg_present (entry (ram (machine k')) (kernel_directory k') i)"
proof -
  let ?n = "bitmap_end (boot_bytes mb_info k)"
  note b = bitmap_end_bounds [of "boot_bytes mb_info k"]
  obtain k' kd m where k': "init_memory_management img mb_info k = Inr k'" "kernel_directory k' = kd" "cr3 (regs (machine k')) = kd"
      "unat kd = unat ?n div 4096 * 4096" "heap_start k' = ?n"
      "ram (machine k') = store32 (?n + 8) 0 (store8 (?n + 4) 1 (store32 ?n (0x7FFFF3 - ?n) m))"
    using init_memory_run [OF assms] by metis
  let ?i = "unat ?n mod 4096 div 4"
  note m4 = bitmap_end_aligned [of "boot_bytes mb_info k"]
  note h = heap_start_in_directory [OF k'(4) m4]
  have e: "entry (ram (machine k')) kd ?i = 0x7FFFF3 - ?n"
    using header_words(1) [OF b(2)] h(1) unfolding k'(6) entry_def by simp
  have "unat (0x7FFFF3 - ?n :: u32) = 0x7FFFF3 - unat ?n"
    using b(2) by (subst unat_diff_u32) (simp_all add: word_le_nat_alt)
  moreover have "odd (0x7FFFF3 - unat ?n)" using b(2) m4 by presburger
  ultimately have "bit (unat (0x7FFFF3 - ?n :: u32)) 0" by (simp add: bit_0)
  then have "pg_present (0x7FFFF3 - ?n)" unfolding pg_present_def bit_unsigned_iff by blast
  moreover have "2 \<le> ?i" "?i < 1024" using assms unfolding boot_layout_def by linarith+
  ultimately show ?thesis using k' e h(1) by metis
qed

theorem boot_heap_in_directory_witness:
  "\<exists>k' i. init_memory_management demo_image 0x10000 demo_kernel = Inr k' \<and> 2 \<le> i \<and> i < 1024 \<and>
     pg_present (entry (ram (machine k')) (kernel_directory k') i)"
  using boot_heap_in_directory [OF demo_boot_layout] by blast

text \<open>C17: the directory overwrites the bitmap.  When the bitmap ends inside its first frame (memory below
  128 MB), the kernel directory is that frame, clearing it clears the bitmap, and after
  \<open>init_memory_management\<close> the frame allocator regards every frame from the sixty-fourth on as free, among them
  the kernel's code, the bitmap and the page tables.\<close>

theorem boot_forgets_frames:
  assumes "boot_layout img (boot_bytes mb_info k)" "unat (bitmap_end (boot_bytes mb_info k)) < 0x401000"
  shows "\<exists>k'. init_memory_management img mb_info k = Inr k' \<and>
    kernel_directory k' = storage (frame_bitmap (frames k')) \<and>
    (\<forall>f. 64 \<le> unat f \<longrightarrow> \<not> frame_used (frames k') f (ram (machine k')))"
proof -
  let ?n = "bitmap_end (boot_bytes mb_info k)" and ?t = "boot_bytes mb_info k div 4096"
  note b = bitmap_end_bounds [of "boot_bytes mb_info k"]
  obtain k' kd m where k': "init_memory_management img mb_info k = Inr k'" "kernel_directory k' = kd"
      "unat kd = unat ?n div 4096 * 4096"
      "ram (machine k') = store32 (?n + 8) 0 (store8 (?n + 4) 1 (store32 ?n (0x7FFFF3 - ?n) m))"
      "\<And>i. 2 \<le> i \<Longrightarrow> i < 1024 \<Longrightarrow> entry m kd i = 0"
      "frame_bitmap (frames k') = \<lparr>storage = 0x400000, total_bits = ?t\<rparr>"
    using init_memory_run [OF assms(1)] by metis
  have "unat ?n div 4096 = 0x400" using assms(2) b(1) by linarith
  then have kd: "kd = 0x400000" using k'(3) by (simp add: word_unat_eq_iff)
  have "\<not> frame_used (frames k') f (ram (machine k'))" if f: "64 \<le> unat f" for f
    unfolding k'(4) header_keeps_bitmap [OF k'(6)] using k'(5,6) assms(2) f unfolding kd by (intro cleared_bitmap)
  with k'(1,2,6) kd show ?thesis by auto
qed

theorem boot_forgets_frames_witness:
  "\<exists>k'. init_memory_management demo_image 0x10000 demo_kernel = Inr k' \<and>
     \<not> frame_used (frames k') 0x100 (ram (machine k'))"
proof -
  have "unat (bitmap_end (boot_bytes 0x10000 demo_kernel)) < 0x401000" by (simp add: demo_boot_bytes)
  from boot_forgets_frames [OF demo_boot_layout this] show ?thesis by fastforce
qed

text \<open>C23: nobody reserves the heap.  On every machine with at least 5 MB whose heap header does not straddle a frame or
  fall on its first two words, \<open>init_memory_management\<close> leaves one free heap block from the end of the bitmap to
  \<open>0x7FFFFF\<close>, and at the same time no frame from behind the page tables up to 8 MB is marked used, so that
  \<open>pmm_allocate_frame\<close> may grant it: the same memory is handed out by both allocators.\<close>

theorem boot_heap_not_reserved:
  assumes "boot_layout img (boot_bytes mb_info k)"
  shows "\<exists>k'. init_memory_management img mb_info k = Inr k' \<and> heap_start k' = bitmap_end (boot_bytes mb_info k) \<and>
    heap_ok (ram (machine k')) 0x7FFFFF (heap_start k')
      [\<lparr>baddr = heap_start k', bsize = 0x7FFFFF - heap_start k' - 12, bfree = True\<rparr>] \<and>
    (\<forall>f. unat (heap_start k') div 4096 + 3 \<le> unat f \<longrightarrow> unat f < 0x800 \<longrightarrow> \<not> frame_used (frames k') f (ram (machine k')))"
proof -
  define n where "n = bitmap_end (boot_bytes mb_info k)"
  note b = bitmap_end_bounds [of "boot_bytes mb_info k", folded n_def]
  obtain k' kd m where k': "init_memory_management img mb_info k = Inr k'" "heap_start k' = n"
      "unat kd = unat n div 4096 * 4096"
      "ram (machine k') = store32 (n + 8) 0 (store8 (n + 4) 1 (store32 n (0x7FFFF3 - n) m))"
      "\<And>i. 2 \<le> i \<Longrightarrow> i < 1024 \<Longrightarrow> entry m kd i = 0"
      "frame_bitmap (frames k') = \<lparr>storage = 0x400000, total_bits = boot_bytes mb_info k div 4096\<rparr>"
      "\<And>f. 0x401000 \<le> unat n \<Longrightarrow> unat n div 4096 + 3 \<le> unat f \<Longrightarrow> unat f < 0x800 \<Longrightarrow> \<not> frame_used (frames k') f m"
    using init_memory_run [OF assms] unfolding n_def by metis
  have n: "0x400000 \<le> unat n" "unat n \<le> 0x420000" using b(1,2) by simp_all
  have "ram (machine k') = snd (kmalloc_init n m)"
    by (simp add: k'(4) kmalloc_init_def Let_def hdr_defs)
  then have "heap_ok (ram (machine k')) 0x7FFFFF n [\<lparr>baddr = n, bsize = 0x7FFFFF - n - 12, bfree = True\<rparr>]"
    using kmalloc_init_ok [of n m] n by simp
  moreover have "\<not> frame_used (frames k') f (ram (machine k'))" if f: "unat n div 4096 + 3 \<le> unat f" "unat f < 0x800" for f
  proof (cases "0x401000 \<le> unat n")
    case True
    then show ?thesis unfolding k'(4) n_def header_keeps_bitmap [OF k'(6)] using k'(7) f by (simp add: n_def)
  next
    case False
    then have "unat n div 4096 = 0x400" using n(1) by linarith
    then have "kd = 0x400000" "64 \<le> unat f" using k'(3) f(1) by (simp_all add: word_unat_eq_iff)
    with k'(5) False show ?thesis unfolding k'(4) n_def header_keeps_bitmap [OF k'(6)]
      by (intro cleared_bitmap [OF k'(6)]) (simp_all add: n_def)
  qed
  ultimately show ?thesis using k'(1,2) n_def by blast
qed

theorem boot_heap_not_reserved_witness:
  "\<exists>k'. init_memory_management demo_image 0x10000 demo_kernel = Inr k' \<and> heap_start k' = 0x400FF4 \<and>
     heap_ok (ram (machine k')) 0x7FFFFF 0x400FF4 [\<lparr>baddr = 0x400FF4, bsize = 0x3FEFFF, bfree = True\<rparr>] \<and>
     \<not> frame_used (frames k') 0x500 (ram (machine k'))"
  using boot_heap_not_reserved [OF demo_boot_layout] by (fastforce simp: demo_boot_bytes)

end
