(* ===== verification/Start.thy ===== *)
theory Start
  imports Proc_Create Boot
begin

text \<open>
  The start of the processes (\<open>start_processes\<close>, the second half of \<open>kernel_main\<close> in
  \<^verbatim>\<open>src/kernel/kernel.c\<close>, with \<open>sched_init\<close>, \<open>create_pcb\<close> and \<open>sched_enqueue\<close>).  Heap, lists, page tables
  and scheduler are put together: from a kernel in the state \<open>kernel_ready\<close> the queues and control
  blocks are separate allocations, each process keeps its memory while the next is built, and
  the state meets the invariant under which the scheduler was verified.
\<close>

declare One_nat_def [simp del] upt_rec_numeral [simp del]

section \<open>Lists from a heap with a reserve\<close>

lemma list_init_room:
  assumes rd: "heap_ready hi a lim (308 + K) live m"
  obtains l live' m' where "list_init a e m = Some (l, e, m')" "dll m' l []" "live l = None" "live' l = Some 20"
    "live \<subseteq>\<^sub>m live'" "heap_ready hi a lim K live' m'" "same_contents live m m'" "same_off (heap_area a lim) m m'"
proof -
  obtain l m1 where l: "kmalloc a 20 m = Some (l, m1)" "l \<noteq> 0" "live l = None" "heap_ready hi a lim (272 + K) (live(l \<mapsto> 20)) m1"
    "same_contents live m m1" "same_off (heap_area a lim) m m1" and fl: "fits l 20"
    by (rule rh.alloc_reserved [OF rd, of 20 "272 + K"]) simp_all
  let ?l1 = "live(l \<mapsto> 20)"
  obtain msg m2 where g: "kmalloc a 256 m1 = Some (msg, m2)" "msg \<noteq> 0" "?l1 msg = None" "heap_ready hi a lim K (?l1(msg \<mapsto> 256)) m2"
    "same_contents ?l1 m1 m2" "same_off (heap_area a lim) m1 m2"
    by (rule rh.alloc_reserved [OF l(4), of 256 K]) simp_all
  let ?live = "live(l \<mapsto> 20, msg \<mapsto> 256)" and ?m = "root_self l (set_list_err_msg l msg m2)"
  have d: "l \<noteq> msg" "live msg = None" using g(3) by (auto split: if_splits)
  have sub: "live \<subseteq>\<^sub>m ?l1" "live \<subseteq>\<^sub>m ?live(l := None)" "live \<subseteq>\<^sub>m ?live" "?live l = Some 20" using d l(3) by (auto simp: map_le_def)
  have init: "list_init a e m = Some (l, e, ?m)"
    using l(1,2) g(1,2) by (simp add: list_init_def Let_def MAX_ERR_LENGTH_def err_fields [OF fl] root_self_def)
  have w: "same_off (bytes l 20) m2 ?m" by (rule same_off_trans [OF set_header_off(3) [OF fl subset_refl] root_self_dll(4) [OF l(2) fl]])
  note rw = rh.ready_write [OF g(4) sub(4) w]
  have "same_contents live m ?m"
    by (rule same_contents_trans [OF same_contents_trans [OF l(5) same_contents_sub [OF g(5) sub(1)]] same_contents_sub [OF rw(2) sub(2)]])
  moreover have "same_off (heap_area a lim) m ?m" by (rule same_off_trans [OF same_off_trans [OF l(6) g(6)] rw(3)])
  ultimately show ?thesis using that [OF init root_self_dll(1) [OF l(2) fl] l(3) sub(4,3) rw(1)] by blast
qed

text \<open>New empty lists: header blocks that were free before.\<close>

definition new_lists :: "allocations \<Rightarrow> allocations \<Rightarrow> u32 list \<Rightarrow> mem \<Rightarrow> bool" where
  "new_lists live live' qs m \<longleftrightarrow> distinct qs \<and> (\<forall>q \<in> set qs. live q = None \<and> live' q = Some 20 \<and> dll m q [])"

lemma dll_contents: "dll m q [] \<Longrightarrow> live q = Some 20 \<Longrightarrow> same_contents live m m' \<Longrightarrow> dll m' q []"
  by (rule dll_same) (auto simp: same_on_def list_bytes_def same_contents_def bytes_def)

lemma new_lists_step:
  assumes "new_lists live live' qs m" "live' \<subseteq>\<^sub>m live''" "same_contents live' m m'"
  shows "new_lists live live'' qs m'"
  using assms dll_contents [OF _ _ assms(3)] unfolding new_lists_def map_le_def by (metis domI)

lemma init_queues_room:
  assumes "heap_ready hi a lim (308 * n + K) live m"
  shows "\<exists>qs live' m'. init_queues a n e m = Some (qs, e, m') \<and> length qs = n \<and> live \<subseteq>\<^sub>m live' \<and> heap_ready hi a lim K live' m' \<and>
    same_contents live m m' \<and> same_off (heap_area a lim) m m' \<and> new_lists live live' qs m'"
  using assms
proof (induction n arbitrary: live m)
  case 0
  then show ?case by (intro exI [of _ "[]"] exI [of _ live] exI [of _ m]) (simp add: new_lists_def same_contents_def)
next
  case (Suc n)
  have room: "heap_ready hi a lim (308 + (308 * n + K)) live m" using Suc.prems by (simp add: add.assoc)
  obtain l live1 m1 where l: "list_init a e m = Some (l, e, m1)" "dll m1 l []" "live l = None" "live1 l = Some 20"
    "live \<subseteq>\<^sub>m live1" "heap_ready hi a lim (308 * n + K) live1 m1" "same_contents live m m1" "same_off (heap_area a lim) m m1"
    by (rule list_init_room [OF room])
  obtain qs live' m' where r: "init_queues a n e m1 = Some (qs, e, m')" "length qs = n" "live1 \<subseteq>\<^sub>m live'" "heap_ready hi a lim K live' m'"
    "same_contents live1 m1 m'" "same_off (heap_area a lim) m1 m'" "new_lists live1 live' qs m'"
    using Suc.IH [OF l(6)] by blast
  have "live' l = Some 20" using r(3) l(4) unfolding map_le_def by (metis domI)
  moreover have "live q = None" if "live1 q = None" for q using l(5) that unfolding map_le_def by (metis domIff)
  ultimately have "new_lists live live' (l # qs) m'"
    using r(7) l(3,4) dll_contents [OF l(2,4) r(5)] unfolding new_lists_def by auto
  moreover have "live \<subseteq>\<^sub>m live'" using l(5) r(3) by (rule map_le_trans)
  moreover have "same_contents live m m'" using same_contents_trans [OF l(7) same_contents_sub [OF r(5) l(5)]] .
  moreover have "same_off (heap_area a lim) m m'" by (rule same_off_trans [OF l(8) r(6)])
  ultimately show ?case using l(1) r(1,2,4) by auto
qed

section \<open>Steps that write only the heap\<close>

lemma ready_heap_write:
  assumes "kernel_ready p kd hi a lim N live r q s" "same_off (heap_area a lim) (ram s) m'" "heap_ready hi a lim K live' m'"
  shows "kernel_ready p kd hi a lim K live' r q (s\<lparr>ram := m'\<rparr>)" "calm p kd (heap_area a lim) s s (s\<lparr>ram := m'\<rparr>)"
proof -
  have ok: "vmm_ok p kd s" and use: "\<And>x. x \<in> heap_area a lim \<Longrightarrow> in_use p kd s x" and room: "room p kd r q s"
    using assms(1) by (simp_all add: kernel_ready_def)
  note w = calm_write [OF calm_refl [OF ok, of "{}"] use assms(2)]
  show c: "calm p kd (heap_area a lim) s s (s\<lparr>ram := m'\<rparr>)" by (rule w(1))
  show "kernel_ready p kd hi a lim K live' r q (s\<lparr>ram := m'\<rparr>)"
    using assms(1,3) w(3) room calm_ok [OF c] calm_in_use [OF c] use by (simp add: kernel_ready_def)
qed

lemma ready_inv: "kernel_ready p kd hi a lim N live r q s \<Longrightarrow> heap_inv hi a live (ram s)"
  by (auto simp: kernel_ready_def intro: heap_ready_inv)

lemma program_calm:
  assumes "program_at p kd lim a ep n prog s" "calm p kd (heap_area a lim) s s s'"
  shows "program_at p kd lim a ep n prog s'"
proof -
  obtain W where e: "extends p kd W s s'" using assms(2) by (auto simp: calm_def)
  have "readable p kd s' (ep + U32 i) (prog i) \<and> translate kd (ram s') (ep + U32 i) \<notin> Some ` heap_area a lim" if i: "i < n" for i
  proof -
    let ?x = "ep + U32 i"
    have rd: "readable p kd s ?x (prog i)" and off: "translate kd (ram s) ?x \<notin> Some ` heap_area a lim"
      using assms(1) i by (simp_all add: program_at_def)
    obtain pa where w: "\<not> in_window ?x" and pa: "translate kd (ram s) ?x = Some pa" "in_use p kd s pa" "ram s pa = prog i"
      using rd by (auto simp: readable_def in_use_def)
    have t: "translate kd (ram s') ?x = Some pa"
      using e w pa(1) by (auto simp: translate_def extends_def split: option.splits)
    have "pa \<notin> heap_area a lim" using off pa(1) by auto
    then have "ram s' pa = prog i" using assms(2) pa(2,3) by (simp add: calm_def)
    with w t calm_in_use [OF assms(2) pa(2)] \<open>pa \<notin> heap_area a lim\<close> show ?thesis by (auto simp: readable_def in_use_def)
  qed
  with assms(1) show ?thesis by (simp add: program_at_def)
qed

text \<open>A process whose tables and pages are in no frame of the heap.\<close>

definition process_up :: "pmm \<Rightarrow> u32 \<Rightarrow> nat \<Rightarrow> u32 \<Rightarrow> u8 list \<Rightarrow> u32 \<Rightarrow> u32 \<Rightarrow> vm \<Rightarrow> bool" where
  "process_up p kd lim a code pid pcb s \<longleftrightarrow>
     (\<exists>s0. (\<forall>x \<in> heap_area a lim. in_use p kd s0 x) \<and> process_at p kd True (nth code) (length code) s0 pid pcb s)"

lemma process_up_ready:
  "process_up p kd lim a code pid pcb s \<Longrightarrow> code \<noteq> [] \<Longrightarrow> process_ready kd (nth code) (length code) pid pcb (ram s)"
  unfolding process_up_def by (auto intro!: process_at_ready simp: pages_for_def div_greater_zero_iff Suc_le_eq)

lemma process_up_step:
  assumes "process_up p kd lim a code pid pcb s" "calm p kd (heap_area a lim) s s s'"
    and "\<And>j. j \<in> {0, 12, 16, 20, 24, 28, 32, 36} \<Longrightarrow> load32 (ram s') (pcb + U32 j) = load32 (ram s) (pcb + U32 j)"
  shows "process_up p kd lim a code pid pcb s'"
proof -
  obtain s0 where s0: "\<forall>x \<in> heap_area a lim. in_use p kd s0 x" "process_at p kd True (nth code) (length code) s0 pid pcb s"
    using assms(1) by (auto simp: process_up_def)
  have "u \<notin> page_start ` heap_area a lim" if "owns p kd s0 s u" for u
    using s0(1) by (intro owned_not_in [OF that]) blast
  from process_at_step [OF s0(2) calm_extends [OF assms(2)] this assms(3)] s0(1) show ?thesis
    unfolding process_up_def by blast
qed

lemma block_word_contents:
  assumes "heap_inv hi a live m0" "live pcb = Some 40" "same_contents live m m'" "j \<le> 36"
  shows "load32 m' (pcb + U32 j) = load32 m (pcb + U32 j)"
proof (rule load32_cong)
  fix i :: nat assume i: "i < 4"
  have f: "fits pcb 40" using kh.live_fits [OF assms(1,2)] by simp
  have eq: "pcb + U32 j + U32 i = pcb + U32 (j + i)" by simp
  have "in_range (pcb + U32 (j + i)) pcb 40" using i assms(4) unat_offset [OF f, of "j + i"] by (simp add: in_range_def)
  then show "m' (pcb + U32 j + U32 i) = m (pcb + U32 j + U32 i)"
    unfolding eq using assms(2,3) unfolding same_contents_def by blast
qed

lemma create_process_run:
  assumes rd: "kernel_ready p kd hi a lim (56 + K) live (8 + r) (3 + q) s"
    and prog: "program_at p kd lim a ep (length code) (nth code) s" and n: "length code \<le> 4096"
  obtains pcb s' where "create_pcb p kd a ep (of_nat (length code)) True (pid, s) = Some (Inr (pcb, pid + 1, s'))"
    "live pcb = None" "kernel_ready p kd hi a lim K (live(pcb \<mapsto> 40)) r (q + 1) s'"
    "calm p kd (heap_area a lim) s s s'" "same_contents live (ram s) (ram s')" "process_up p kd lim a code pid pcb s'"
proof -
  have sz: "unat (of_nat (length code) :: u32) = length code" using n by (intro unat_of_nat_u32) simp
  have "0 < length code" using prog by (simp add: program_at_def)
  then have k: "pages_for (length code) = 1" unfolding pages_for_def using n by linarith
  have rd': "kernel_ready p kd hi a lim (56 + K) live (2 * pages_for (unat (of_nat (length code) :: u32)) + 6 + r) (3 + q) s"
    using rd unfolding sz k by simp
  have prog': "program_at p kd lim a ep (unat (of_nat (length code) :: u32)) (nth code) s" using prog unfolding sz .
  obtain pcb s1 s' where r: "create_pcb p kd a ep (of_nat (length code)) True (pid, s) = Some (Inr (pcb, pid + 1, s'))"
    "live pcb = None" "kernel_ready p kd hi a lim K (live(pcb \<mapsto> 40)) r (q + 1) s'"
    "calm p kd (heap_area a lim) s s s'" "same_contents live (ram s) (ram s')"
    "\<forall>x \<in> heap_area a lim. in_use p kd s1 x" "process_at p kd True (nth code) (length code) s1 pid pcb s'"
    by (rule create_pcb_run [OF rd' prog', where us = True and next_pid = pid, unfolded sz])
  then show ?thesis using that unfolding process_up_def by blast
qed

section \<open>The scheduler over the heap\<close>

text \<open>The queue headers and the control blocks are allocations of the heap.\<close>

definition sched_blocks :: "allocations \<Rightarrow> u32 list \<Rightarrow> u32 set \<Rightarrow> bool" where
  "sched_blocks live H P \<longleftrightarrow> (\<forall>h \<in> set H. live h = Some 20) \<and> (\<forall>p \<in> P. live p = Some 40)"

lemma blocks_arena:
  assumes "heap_inv hi a live m" "sched_blocks live H P" "distinct H"
  shows "arena H P"
proof -
  have b: "\<And>h. h \<in> set H \<Longrightarrow> live h = Some 20" "\<And>p. p \<in> P \<Longrightarrow> live p = Some 40" using assms(2) by (simp_all add: sched_blocks_def)
  then have "h \<noteq> p" if "h \<in> set H" "p \<in> P" for h p using that by fastforce
  then show ?thesis
    using assms(3) b kh.live_fits [OF assms(1) b(1)] kh.live_fits [OF assms(1) b(2)] kh.live_apart [OF assms(1) b(1) b(1)]
      kh.live_apart [OF assms(1) b(1) b(2)] kh.live_apart [OF assms(1) b(2) b(2)]
    unfolding arena_def by simp
qed

lemma blocks_links:
  assumes "heap_ready hi a lim N live m" "sched_blocks live H P"
  shows "link_bytes H P \<subseteq> owned live" "link_bytes H P \<subseteq> heap_area a lim"
proof -
  have b: "\<And>h. h \<in> set H \<Longrightarrow> live h = Some 20" "\<And>p. p \<in> P \<Longrightarrow> live p = Some 40" using assms(2) by (simp_all add: sched_blocks_def)
  have "bytes (sched_node p) 8 \<subseteq> bytes p 40" if "p \<in> P" for p
    using sched_node_unat [of p] kh.live_fits [OF heap_ready_inv [OF assms(1)] b(2) [OF that]] by (auto simp: bytes_def in_range_def)
  moreover have "bytes l k \<subseteq> owned live" if "live l = Some k" for l k using that unfolding owned_def bytes_def by blast
  ultimately show o: "link_bytes H P \<subseteq> owned live" using b unfolding link_bytes_def by blast
  with rh.owned_area [OF assms(1)] show "link_bytes H P \<subseteq> heap_area a lim" by blast
qed

lemma enqueue_run:
  assumes rd: "kernel_ready p kd hi a lim N live r q s" and b: "sched_blocks live (heads sc) P"
    and qs: "queues (ram s) (heads sc) P (ls @ [[]])" and len: "length (priority_queues sc) = 4" "length ls = 4"
    and x: "x \<in> P" "x \<notin> set (concat ls)" and st: "pcb_state (ram s) x = state_code STATE_READY" "pcb_priority (ram s) x = 0"
  obtains m' where "sched_enqueue x sc (ram s) = Inr m'" "queues m' (heads sc) P (ls[0 := ls ! 0 @ [x]] @ [[]])"
    "kernel_ready p kd hi a lim N live r q (s\<lparr>ram := m'\<rparr>)"
    "\<forall>y \<in> P. \<forall>code i. process_up p kd lim a code i y s \<longrightarrow> process_up p kd lim a code i y (s\<lparr>ram := m'\<rparr>)"
proof -
  define v where "v = \<lparr>levels = ls, waiting = [], cur = 0, idle = 0, vstate = (\<lambda>_. 0), vprio = (\<lambda>_. 0), vquantum = (\<lambda>_. 0), vage = (\<lambda>_. 0)\<rparr>"
  have "queues (ram s) (heads sc) P (levels v @ [waiting v])" "length (levels v) = 4" "x \<notin> set (concat (levels v @ [waiting v]))"
    using qs len x by (simp_all add: v_def)
  from enqueue_ready_refines [OF this(1) len(1) this(2) x(1) this(3) st(1)] st(2)
  obtain m' where m': "sched_enqueue x sc (ram s) = Inr m'" "queues m' (heads sc) P (ls[0 := ls ! 0 @ [x]] @ [[]])"
    "same_off (link_bytes (heads sc) P) (ram s) m'" by (auto simp: v_def)
  have inv: "heap_ready hi a lim N live (ram s)" using rd by (simp add: kernel_ready_def)
  note lb = blocks_links [OF inv b]
  have inv': "heap_ready hi a lim N live m'" by (rule rh.ready_writes [OF inv same_off_mono [OF m'(3) lb(1)]])
  note w = ready_heap_write [OF rd same_off_mono [OF m'(3) lb(2)] inv']
  have ar: "arena (heads sc) P" using qs by (simp add: queues_def)
  have "process_up p kd lim a code i y (s\<lparr>ram := m'\<rparr>)" if "y \<in> P" "process_up p kd lim a code i y s" for code i y
    using pcb_word_link [OF ar that(1) m'(3)] by (intro process_up_step [OF that(2) w(2)]) simp
  then show ?thesis using that [OF m'(1,2) w(1)] by blast
qed

lemma sched_init_run:
  assumes rd: "kernel_ready p kd hi a lim (1596 + K) live (8 + r) (3 + q) s"
    and prog: "program_at p kd lim a ep (length code) (nth code) s" and n: "length code \<le> 4096"
  obtains sc live' s' where "sched_init p kd a ep (of_nat (length code)) True err (pid, s) = Some (Inr (sc, pid + 1, s'))"
    "length (priority_queues sc) = 4" "current_pcb sc = 0" "kernel_ready p kd hi a lim K live' r (q + 1) s'"
    "calm p kd (heap_area a lim) s s s'" "new_lists live live' (heads sc) (ram s')" "live' (idle_pcb sc) = Some 40"
    "process_up p kd lim a code pid (idle_pcb sc) s'"
proof -
  have room4: "heap_ready hi a lim (308 * MLFQ_LEVELS + (308 + (56 + K))) live (ram s)"
    using rd by (simp add: kernel_ready_def MLFQ_LEVELS_def add.assoc)
  obtain qs live1 m1 where i: "init_queues a MLFQ_LEVELS err (ram s) = Some (qs, err, m1)" "length qs = MLFQ_LEVELS" "live \<subseteq>\<^sub>m live1"
    "heap_ready hi a lim (308 + (56 + K)) live1 m1" "same_contents live (ram s) m1" "same_off (heap_area a lim) (ram s) m1"
    "new_lists live live1 qs m1"
    using init_queues_room [OF room4] by blast
  obtain w live2 m2 where l: "list_init a err m1 = Some (w, err, m2)" "dll m2 w []" "live1 w = None" "live2 w = Some 20"
    "live1 \<subseteq>\<^sub>m live2" "heap_ready hi a lim (56 + K) live2 m2" "same_contents live1 m1 m2" "same_off (heap_area a lim) m1 m2"
    by (rule list_init_room [OF i(4)])
  have w0: "live w = None" using i(3) l(3) unfolding map_le_def by (metis domIff)
  have wq: "w \<notin> set qs" using i(7) l(3) by (auto simp: new_lists_def)
  have lists: "new_lists live live2 (qs @ [w]) m2"
    using new_lists_step [OF i(7) l(5,7)] w0 wq l(2,4) by (simp add: new_lists_def)
  note h = ready_heap_write [OF rd same_off_trans [OF i(6) l(8)] l(6)]
  obtain pcb s' where c: "create_pcb p kd a ep (of_nat (length code)) True (pid, s\<lparr>ram := m2\<rparr>) = Some (Inr (pcb, pid + 1, s'))"
    "live2 pcb = None" "kernel_ready p kd hi a lim K (live2(pcb \<mapsto> 40)) r (q + 1) s'"
    "calm p kd (heap_area a lim) (s\<lparr>ram := m2\<rparr>) (s\<lparr>ram := m2\<rparr>) s'" "same_contents live2 (ram (s\<lparr>ram := m2\<rparr>)) (ram s')"
    "process_up p kd lim a code pid pcb s'"
    by (rule create_process_run [OF h(1) program_calm [OF prog h(2)] n])
  have sub: "live2 \<subseteq>\<^sub>m live2(pcb \<mapsto> 40)" using c(2) by (auto simp: map_le_def)
  let ?sc = "\<lparr>priority_queues = qs, waiting_queue = w, current_pcb = 0, idle_pcb = pcb\<rparr>"
  show ?thesis
  proof (rule that [of ?sc s' "live2(pcb \<mapsto> 40)"])
    show "sched_init p kd a ep (of_nat (length code)) True err (pid, s) = Some (Inr (?sc, pid + 1, s'))"
      using i(1) l(1) c(1) by (simp add: sched_init_def)
    show "new_lists live (live2(pcb \<mapsto> 40)) (heads ?sc) (ram s')"
      using new_lists_step [OF lists sub] c(5) by (simp add: heads_def)
    show "calm p kd (heap_area a lim) s s s'" by (rule calm_compose [OF h(2) c(4)])
  qed (use i(2) c in \<open>simp_all add: MLFQ_LEVELS_def\<close>)
qed

section \<open>Three processes\<close>

lemma new_lists_queues:
  assumes "heap_inv hi a live' m" "new_lists live live' H m" "sched_blocks live' H P"
  shows "queues m H P (replicate (length H) [])"
proof -
  have "arena H P" using assms by (intro blocks_arena) (simp_all add: new_lists_def)
  moreover have "dll m (H ! i) []" if "i < length H" for i using assms(2) that by (simp add: new_lists_def)
  moreover have "concat (replicate (length H) []) = ([] :: u32 list)" by (simp add: concat_eq_Nil_conv)
  ultimately show ?thesis by (simp add: queues_def)
qed

lemma process_up_other:
  assumes "process_up p kd lim a code pid pcb s" "calm p kd (heap_area a lim) s s s'" "heap_inv hi a live m" "live pcb = Some 40"
    "same_contents live (ram s) (ram s')"
  shows "process_up p kd lim a code pid pcb s'"
  by (rule process_up_step [OF assms(1,2)], rule block_word_contents [OF assms(3-5)]) auto

lemma three_processes:
  assumes rd: "kernel_ready p kd hi a lim 1708 live 24 7 s"
    and prog: "program_at p kd lim a ep0 (length c0) (nth c0) s" "program_at p kd lim a ep1 (length c1) (nth c1) s"
      "program_at p kd lim a ep2 (length c2) (nth c2) s"
    and n: "length c0 \<le> 4096" "length c1 \<le> 4096" "length c2 \<le> 4096"
  obtains sc p1 p2 live' s1 s2 s3 where
    "sched_init p kd a ep0 (of_nat (length c0)) True err (pid, s) = Some (Inr (sc, pid + 1, s1))"
    "create_pcb p kd a ep1 (of_nat (length c1)) True (pid + 1, s1) = Some (Inr (p1, pid + 1 + 1, s2))"
    "create_pcb p kd a ep2 (of_nat (length c2)) True (pid + 1 + 1, s2) = Some (Inr (p2, pid + 1 + 1 + 1, s3))"
    "length (priority_queues sc) = 4" "current_pcb sc = 0" "distinct [idle_pcb sc, p1, p2]"
    "kernel_ready p kd hi a lim 0 live' 0 1 s3" "sched_blocks live' (heads sc) {idle_pcb sc, p1, p2}"
    "queues (ram s3) (heads sc) {idle_pcb sc, p1, p2} ([[], [], [], []] @ [[]])"
    "process_up p kd lim a c0 pid (idle_pcb sc) s3" "process_up p kd lim a c1 (pid + 1) p1 s3" "process_up p kd lim a c2 (pid + 1 + 1) p2 s3"
proof -
  let ?H = "heap_area a lim"
  have r0: "kernel_ready p kd hi a lim (1596 + 112) live (8 + 16) (3 + 4) s" using rd by simp
  obtain sc live1 s1 where i: "sched_init p kd a ep0 (of_nat (length c0)) True err (pid, s) = Some (Inr (sc, pid + 1, s1))"
    "length (priority_queues sc) = 4" "current_pcb sc = 0" "kernel_ready p kd hi a lim 112 live1 16 (4 + 1) s1"
    "calm p kd ?H s s s1" "new_lists live live1 (heads sc) (ram s1)" "live1 (idle_pcb sc) = Some 40"
    "process_up p kd lim a c0 pid (idle_pcb sc) s1"
    by (rule sched_init_run [OF r0 prog(1) n(1)])
  have r1: "kernel_ready p kd hi a lim (56 + 56) live1 (8 + 8) (3 + 2) s1" using i(4) by simp
  obtain p1 s2 where c1: "create_pcb p kd a ep1 (of_nat (length c1)) True (pid + 1, s1) = Some (Inr (p1, pid + 1 + 1, s2))"
    "live1 p1 = None" "kernel_ready p kd hi a lim 56 (live1(p1 \<mapsto> 40)) 8 (2 + 1) s2"
    "calm p kd ?H s1 s1 s2" "same_contents live1 (ram s1) (ram s2)" "process_up p kd lim a c1 (pid + 1) p1 s2"
    by (rule create_process_run [OF r1 program_calm [OF prog(2) i(5)] n(2)])
  let ?l1 = "live1(p1 \<mapsto> 40)"
  have r2: "kernel_ready p kd hi a lim (56 + 0) ?l1 (8 + 0) (3 + 0) s2" using c1(3) by simp
  obtain p2 s3 where c2: "create_pcb p kd a ep2 (of_nat (length c2)) True (pid + 1 + 1, s2) = Some (Inr (p2, pid + 1 + 1 + 1, s3))"
    "?l1 p2 = None" "kernel_ready p kd hi a lim 0 (?l1(p2 \<mapsto> 40)) 0 (0 + 1) s3"
    "calm p kd ?H s2 s2 s3" "same_contents ?l1 (ram s2) (ram s3)" "process_up p kd lim a c2 (pid + 1 + 1) p2 s3"
    by (rule create_process_run [OF r2 program_calm [OF prog(3) calm_compose [OF i(5) c1(4)]] n(3)])
  let ?l2 = "?l1(p2 \<mapsto> 40)" and ?P = "{idle_pcb sc, p1, p2}"
  have inv: "heap_inv hi a live1 (ram s1)" "heap_inv hi a ?l1 (ram s2)" "heap_inv hi a ?l2 (ram s3)"
    using i(4) c1(3) c2(3) by (simp_all add: ready_inv)
  have d: "idle_pcb sc \<noteq> p1" "p2 \<noteq> p1" "idle_pcb sc \<noteq> p2" "live1 p2 = None" using i(7) c1(2) c2(2) by (auto split: if_splits)
  have sub: "live1 \<subseteq>\<^sub>m ?l1" "?l1 \<subseteq>\<^sub>m ?l2" using c1(2) c2(2) by (auto simp: map_le_def)
  have lists: "new_lists live ?l2 (heads sc) (ram s3)" by (rule new_lists_step [OF new_lists_step [OF i(6) sub(1) c1(5)] sub(2) c2(5)])
  then have bl: "sched_blocks ?l2 (heads sc) ?P" using i(7) d by (simp add: sched_blocks_def new_lists_def)
  have "process_up p kd lim a c0 pid (idle_pcb sc) s3"
    using i(7) d by (intro process_up_other [OF process_up_other [OF i(8) c1(4) inv(1) _ c1(5)] c2(4) inv(2) _ c2(5)]) simp_all
  moreover have "process_up p kd lim a c1 (pid + 1) p1 s3" by (rule process_up_other [OF c1(6) c2(4) inv(2) _ c2(5)]) simp
  moreover have "heads sc \<noteq> [] \<and> length (heads sc) = 5" using i(2) by (simp add: heads_def)
  then have "queues (ram s3) (heads sc) ?P ([[], [], [], []] @ [[]])"
    using new_lists_queues [OF inv(3) lists bl] by (simp add: numeral_eq_Suc)
  ultimately show ?thesis using that [OF i(1) c1(1) c2(1) i(2,3) _ _ bl] c2(3,6) d by simp
qed

lemma enqueue_two:
  assumes rd: "kernel_ready p kd hi a lim N live r q s" and b: "sched_blocks live (heads sc) {idle_pcb sc, p1, p2}"
    and qs: "queues (ram s) (heads sc) {idle_pcb sc, p1, p2} ([[], [], [], []] @ [[]])"
    and sc: "length (priority_queues sc) = 4" "current_pcb sc = 0" "distinct [idle_pcb sc, p1, p2]"
    and up: "process_up p kd lim a c0 i0 (idle_pcb sc) s" "process_up p kd lim a c1 i1 p1 s" "process_up p kd lim a c2 i2 p2 s"
    and ne: "c0 \<noteq> []" "c1 \<noteq> []" "c2 \<noteq> []"
  obtains m1 m2 v where "sched_enqueue p1 sc (ram s) = Inr m1" "sched_enqueue p2 sc m1 = Inr m2"
    "kernel_ready p kd hi a lim N live r q (s\<lparr>ram := m2\<rparr>)"
    "process_ready kd (nth c0) (length c0) i0 (idle_pcb sc) m2" "process_ready kd (nth c1) (length c1) i1 p1 m2"
    "process_ready kd (nth c2) (length c2) i2 p2 m2"
    "represents sc m2 {idle_pcb sc, p1, p2} v" "sched_wf {idle_pcb sc, p1, p2} v" "levels v = [[p1, p2], [], [], []]" "cur v = 0"
proof -
  let ?P = "{idle_pcb sc, p1, p2}"
  note ready1 = process_up_ready [OF up(2) ne(2)]
  have x1: "p1 \<in> ?P" "p1 \<notin> set (concat [[], [], [], []])" "length [[], [], [], [] :: u32 list] = 4"
    "pcb_state (ram s) p1 = state_code STATE_READY" "pcb_priority (ram s) p1 = 0" using ready1 by (simp_all add: process_ready_def)
  obtain m1 where e1: "sched_enqueue p1 sc (ram s) = Inr m1" "queues m1 (heads sc) ?P ([[], [], [], []][0 := [[], [], [], []] ! 0 @ [p1]] @ [[]])"
    "kernel_ready p kd hi a lim N live r q (s\<lparr>ram := m1\<rparr>)"
    "\<forall>y \<in> ?P. \<forall>code i. process_up p kd lim a code i y s \<longrightarrow> process_up p kd lim a code i y (s\<lparr>ram := m1\<rparr>)"
    by (rule enqueue_run [OF rd b qs sc(1) x1(3,1,2,4,5)])
  let ?s1 = "s\<lparr>ram := m1\<rparr>"
  have up1: "process_up p kd lim a c0 i0 (idle_pcb sc) ?s1" "process_up p kd lim a c1 i1 p1 ?s1" "process_up p kd lim a c2 i2 p2 ?s1"
    using e1(4) up by simp_all
  note ready2 = process_up_ready [OF up1(3) ne(3)]
  have qs1: "queues (ram ?s1) (heads sc) ?P ([[p1], [], [], []] @ [[]])" using e1(2) by simp
  have x2: "p2 \<in> ?P" "p2 \<notin> set (concat [[p1], [], [], []])" "length [[p1], [], [], []] = 4"
    "pcb_state (ram ?s1) p2 = state_code STATE_READY" "pcb_priority (ram ?s1) p2 = 0" using ready2 sc(3) by (auto simp: process_ready_def)
  obtain m2 where e2: "sched_enqueue p2 sc (ram ?s1) = Inr m2" "queues m2 (heads sc) ?P ([[p1], [], [], []][0 := [[p1], [], [], []] ! 0 @ [p2]] @ [[]])"
    "kernel_ready p kd hi a lim N live r q (?s1\<lparr>ram := m2\<rparr>)"
    "\<forall>y \<in> ?P. \<forall>code i. process_up p kd lim a code i y ?s1 \<longrightarrow> process_up p kd lim a code i y (?s1\<lparr>ram := m2\<rparr>)"
    by (rule enqueue_run [OF e1(3) b qs1 sc(1) x2(3,1,2,4,5)])
  let ?s2 = "?s1\<lparr>ram := m2\<rparr>"
  have up2: "process_up p kd lim a c0 i0 (idle_pcb sc) ?s2" "process_up p kd lim a c1 i1 p1 ?s2" "process_up p kd lim a c2 i2 p2 ?s2"
    using e2(4) up1 by simp_all
  have ready: "process_ready kd (nth c0) (length c0) i0 (idle_pcb sc) m2" "process_ready kd (nth c1) (length c1) i1 p1 m2"
      "process_ready kd (nth c2) (length c2) i2 p2 m2"
    using process_up_ready [OF up2(1) ne(1)] process_up_ready [OF up2(2) ne(2)] process_up_ready [OF up2(3) ne(3)] by simp_all
  define v where "v = \<lparr>levels = [[p1, p2], [], [], []], waiting = [], cur = 0, idle = idle_pcb sc,
    vstate = pcb_state m2, vprio = pcb_priority m2, vquantum = pcb_quantum m2, vage = pcb_age m2\<rparr>"
  have "represents sc m2 ?P v" using sc(1,2) e2(2) words_are_refl by (simp add: represents_def v_def)
  moreover have "sched_wf ?P v" using ready sc(3) by (auto simp: wf_defs all_less4 v_def process_ready_def One_nat_def)
  ultimately show ?thesis using that [OF e1(1) _ _ ready] e2(1,3) by (simp add: v_def)
qed

section \<open>Properties\<close>

lemma code_sizes:
  "length idle_process_code \<le> 4096" "length process_one_code \<le> 4096" "length process_two_code \<le> 4096"
  "idle_process_code \<noteq> []" "process_one_code \<noteq> []" "process_two_code \<noteq> []"
  by (simp_all add: idle_process_code_def process_one_code_def process_two_code_def)

text \<open>C1: Suppose the page tables are well formed, the heap has 1708 bytes left below \<open>lim\<close>, its part below \<open>lim\<close> lies
  in used frames of the identity mapping that hold no page table, 24 low frames and 7 slots are free and the three programs are readable
  outside that part of the heap.  Then \<open>start_processes\<close> (\<open>sched_init\<close>, two \<open>create_pcb\<close>, two
  \<open>sched_enqueue\<close>) returns without a fault.  Afterwards three distinct processes are ready, each with its own program and stack in
  its address space and consecutive identifiers; page tables and heap are well formed; the scheduler is in a state from
  which every run of timer interrupts and wake-ups is safe; and the first timer interrupt starts process one, on its prepared stack and
  in its address space.  A heap that \<open>kmalloc_init\<close> makes in frames taken from the allocator meets the hypotheses; the heap of
  \<open>kernel_main\<close>'s own boot order does not, since it starts in the frame of the page directory (C16).\<close>

theorem start_processes_schedules:
  assumes "kernel_ready (frames k) (kernel_directory k) hi (heap_start k) lim 1708 live 24 7 (machine k)"
    and "program_at (frames k) (kernel_directory k) lim (heap_start k) (idle_code_address img) (length idle_process_code)
      (nth idle_process_code) (machine k)"
    and "program_at (frames k) (kernel_directory k) lim (heap_start k) (one_code_address img) (length process_one_code)
      (nth process_one_code) (machine k)"
    and "program_at (frames k) (kernel_directory k) lim (heap_start k) (two_code_address img) (length process_two_code)
      (nth process_two_code) (machine k)"
  shows "\<exists>k' p0 p1 p2 live'. start_processes img err k = Some (Inr k') \<and>
    kernel_ready (frames k) (kernel_directory k) hi (heap_start k) lim 0 live' 0 1 (machine k') \<and>
    idle_pcb (scheduler k') = p0 \<and> distinct [p0, p1, p2] \<and>
    process_ready (kernel_directory k) (nth idle_process_code) (length idle_process_code) (pid_counter k) p0 (ram (machine k')) \<and>
    process_ready (kernel_directory k) (nth process_one_code) (length process_one_code) (pid_counter k + 1) p1 (ram (machine k')) \<and>
    process_ready (kernel_directory k) (nth process_two_code) (length process_two_code) (pid_counter k + 2) p2 (ram (machine k')) \<and>
    sched_run literal {p0, p1, p2} (scheduler k') (ram (machine k')) \<and>
    (\<exists>sc m. sched_timer_handler literal (scheduler k') (ram (machine k')) hw =
       Some (Inr (Bootstrap 0xC0001FD8 (pcb_space_phys (ram (machine k')) p1), sc, m, pic_send_eoi 0 hw)) \<and> current_pcb sc = p1)"
proof -
  let ?p = "frames k" and ?kd = "kernel_directory k" and ?a = "heap_start k" and ?i = "pid_counter k"
  obtain sc p1 p2 live' s1 s2 s3 where t:
    "sched_init ?p ?kd ?a (idle_code_address img) (of_nat (length idle_process_code)) True err (?i, machine k) = Some (Inr (sc, ?i + 1, s1))"
    "create_pcb ?p ?kd ?a (one_code_address img) (of_nat (length process_one_code)) True (?i + 1, s1) = Some (Inr (p1, ?i + 1 + 1, s2))"
    "create_pcb ?p ?kd ?a (two_code_address img) (of_nat (length process_two_code)) True (?i + 1 + 1, s2) = Some (Inr (p2, ?i + 1 + 1 + 1, s3))"
    and sc: "length (priority_queues sc) = 4" "current_pcb sc = 0" "distinct [idle_pcb sc, p1, p2]"
    and rd: "kernel_ready ?p ?kd hi ?a lim 0 live' 0 1 s3" "sched_blocks live' (heads sc) {idle_pcb sc, p1, p2}"
      "queues (ram s3) (heads sc) {idle_pcb sc, p1, p2} ([[], [], [], []] @ [[]])"
    and up: "process_up ?p ?kd lim ?a idle_process_code ?i (idle_pcb sc) s3" "process_up ?p ?kd lim ?a process_one_code (?i + 1) p1 s3"
      "process_up ?p ?kd lim ?a process_two_code (?i + 1 + 1) p2 s3"
    by (rule three_processes [OF assms code_sizes(1-3)])
  obtain m1 m2 v where e: "sched_enqueue p1 sc (ram s3) = Inr m1" "sched_enqueue p2 sc m1 = Inr m2"
    and fin: "kernel_ready ?p ?kd hi ?a lim 0 live' 0 1 (s3\<lparr>ram := m2\<rparr>)"
    "process_ready ?kd (nth idle_process_code) (length idle_process_code) ?i (idle_pcb sc) m2"
    "process_ready ?kd (nth process_one_code) (length process_one_code) (?i + 1) p1 m2"
    "process_ready ?kd (nth process_two_code) (length process_two_code) (?i + 1 + 1) p2 m2"
    and v: "represents sc m2 {idle_pcb sc, p1, p2} v" "sched_wf {idle_pcb sc, p1, p2} v" "levels v = [[p1, p2], [], [], []]" "cur v = 0"
    by (rule enqueue_two [OF rd sc up code_sizes(4-6)])
  let ?k = "k\<lparr>scheduler := sc, pid_counter := ?i + 1 + 1 + 1, machine := s3\<lparr>ram := m2\<rparr>\<rparr>"
  have run: "start_processes img err k = Some (Inr ?k)"
    using t e by (simp add: start_processes_def kernel_create_pcb_def kernel_enqueue_def Let_def)
  have tv: "cur (spec_timer v) = p1" using v(3,4) by (simp add: spec_timer_def spec_tick_def spec_pick_def Let_def)
  obtain sc' m' where tm: "sched_timer_handler literal sc m2 hw = Some (Inr (spec_switch m2 v, sc', m', pic_send_eoi 0 hw))"
      "represents sc' m' {idle_pcb sc, p1, p2} (spec_timer v)"
    using sched_timer_ok [OF v(1,2), of literal hw] by blast
  have "spec_switch m2 v = Bootstrap 0xC0001FD8 (pcb_space_phys m2 p1)"
    using v(4) tv fin(3) by (simp add: spec_switch_def process_ready_def)
  moreover have "current_pcb sc' = p1" using tm(2) tv by (simp add: represents_def)
  moreover have "sched_run literal {idle_pcb sc, p1, p2} sc m2" using v(1,2) by (rule sched_run.start)
  ultimately show ?thesis
    using run fin sc(3) tm(1) by (intro exI [of _ ?k] exI [of _ "idle_pcb sc"] exI [of _ p1] exI [of _ p2] exI [of _ live']) (simp add: add.assoc)
qed

text \<open>A machine with the programs in frame \<open>0x405\<close> and the heap that \<open>kmalloc_init\<close> makes at \<open>0x404000\<close>.\<close>

lemma demo_ready:
  assumes "length L \<le> 4096"
  obtains p s m0 where "kernel_ready p 0x401000 0x7FFFFF 0x404000 0x405000 1708 Map.empty 24 7 s" "ram s = snd (kmalloc_init 0x404000 m0)"
    "data_frame p 0x401000 s 0x405000" "frame_used p 0x405 (ram s)" "\<forall>j < length L. ram s (0x405000 + U32 j) = L ! j"
proof -
  obtain p s where d: "vmm_ok p 0x401000 s" "data_frame p 0x401000 s 0x404000" "data_frame p 0x401000 s 0x405000"
    "frame_used p 0x404 (ram s)" "frame_used p 0x405 (ram s)" "room p 0x401000 24 7 s" by (rule demo_space)
  define m where "m = (\<lambda>x. if x \<in> bytes 0x405000 4096 then L ! (unat x - 0x405000) else ram s x)"
  have off: "m x = ram s x" if "x \<notin> bytes 0x405000 4096" for x using that by (simp add: m_def)
  note w = write_extends [OF d(1,3) off]
  let ?s = "s\<lparr>ram := m\<rparr>"
  have d1: "data_frame p 0x401000 ?s 0x404000" "data_frame p 0x401000 ?s 0x405000" "frame_used p 0x404 (ram ?s)" "frame_used p 0x405 (ram ?s)"
    using w(1) d(2-5) by (simp_all add: extends_def)
  have room: "room p 0x401000 24 7 ?s" using w(2) d(6) by simp
  obtain s' where s': "kernel_ready p 0x401000 0x7FFFFF 0x404000 0x405000 4084 Map.empty 24 7 s'" "extends p 0x401000 {0x404000} ?s s'"
    "ram s' = snd (kmalloc_init 0x404000 (ram ?s))"
    by (rule demo_heap [OF extends_ok [OF w(1)] d1(1,3) room])
  have "ram s' (0x405000 + U32 j) = L ! j" if "j < length L" for j
  proof -
    have u: "unat (0x405000 + U32 j) = 0x405000 + j" using that assms unat_offset [of "0x405000" 4096 j] by (simp add: fits_def)
    then have "0x405000 + U32 j \<in> bytes 0x405000 4096" using that assms by (simp add: bytes_def in_range_def)
    then show ?thesis using s'(2) d1(2,4) u by (simp add: extends_def m_def)
  qed
  moreover have "kernel_ready p 0x401000 0x7FFFFF 0x404000 0x405000 1708 Map.empty 24 7 s'"
    using s'(1) heap_ready_less [of _ _ _ 4084 _ _ 1708] by (simp add: kernel_ready_def)
  moreover have "data_frame p 0x401000 s' 0x405000" "frame_used p 0x405 (ram s')" using s'(2) d1(2,4) by (simp_all add: extends_def)
  ultimately show ?thesis using that s'(3) by blast
qed

theorem start_processes_schedules_witness:
  "\<exists>img k m0 k' p1 sc m. heap_start k = 0x404000 \<and> ram (machine k) = snd (kmalloc_init 0x404000 m0) \<and>
     start_processes img 0 k = Some (Inr k') \<and>
     sched_timer_handler 0x500 (scheduler k') (ram (machine k')) \<lparr>ports = [], framebuffer = (\<lambda>_. 0)\<rparr> =
       Some (Inr (Bootstrap 0xC0001FD8 (pcb_space_phys (ram (machine k')) p1), sc, m,
         pic_send_eoi 0 \<lparr>ports = [], framebuffer = (\<lambda>_. 0)\<rparr>)) \<and>
     peek (ram (machine k')) (pcb_space_phys (ram (machine k')) p1) 0xC0000000 = Some 0xC6"
proof -
  let ?L = "idle_process_code @ process_one_code @ process_two_code"
  let ?n0 = "length idle_process_code" and ?n1 = "length process_one_code"
  have L: "length ?L \<le> 4096" by (simp add: idle_process_code_def process_one_code_def process_two_code_def)
  obtain p s m0 where d: "kernel_ready p 0x401000 0x7FFFFF 0x404000 0x405000 1708 Map.empty 24 7 s" "ram s = snd (kmalloc_init 0x404000 m0)"
    "data_frame p 0x401000 s 0x405000" "frame_used p 0x405 (ram s)" "\<forall>j < length ?L. ram s (0x405000 + U32 j) = ?L ! j"
    by (rule demo_ready [OF L])
  have ok: "vmm_ok p 0x401000 s" using d(1) by (simp add: kernel_ready_def)
  have prog: "program_at p 0x401000 0x405000 0x404000 (0x405000 + U32 j) (length c) (nth c) s"
    if "?L = as @ c @ bs" "j = length as" "c \<noteq> []" for as bs c j
  proof (rule demo_program [OF ok d(3,4)])
    show "0 < length c" "j + length c \<le> 4096" using that L by simp_all
    fix i assume i: "i < length c"
    then have "?L ! (j + i) = c ! i" "j + i < length ?L" unfolding that(1,2) by (simp_all add: nth_append)
    then show "c ! i = ram s (0x405000 + U32 j + U32 i)" using d(5) by (metis add.assoc of_nat_add)
  qed
  define img :: image where "img = undefined\<lparr>idle_code_address := 0x405000 + U32 0, one_code_address := 0x405000 + U32 ?n0,
    two_code_address := 0x405000 + U32 (?n0 + ?n1)\<rparr>"
  define k :: kernel where "k = undefined\<lparr>frames := p, kernel_directory := 0x401000, heap_start := 0x404000, machine := s\<rparr>"
  have k: "frames k = p" "kernel_directory k = 0x401000" "heap_start k = 0x404000" "machine k = s" by (simp_all add: k_def)
  have progs: "program_at p 0x401000 0x405000 0x404000 (idle_code_address img) ?n0 (nth idle_process_code) s"
    "program_at p 0x401000 0x405000 0x404000 (one_code_address img) ?n1 (nth process_one_code) s"
    "program_at p 0x401000 0x405000 0x404000 (two_code_address img) (length process_two_code) (nth process_two_code) s"
    using prog [of "[]" idle_process_code] prog [of idle_process_code process_one_code process_two_code]
      prog [of "idle_process_code @ process_one_code" process_two_code "[]"] code_sizes by (simp_all add: img_def)
  note r = start_processes_schedules [of k "0x7FFFFF" "0x405000" Map.empty img 0 "0x500" "\<lparr>ports = [], framebuffer = (\<lambda>_. 0)\<rparr>", unfolded k, OF d(1) progs]
  from r obtain k' p1 sc m where fin: "start_processes img 0 k = Some (Inr k')"
    "process_ready 0x401000 (nth process_one_code) ?n1 (pid_counter k + 1) p1 (ram (machine k'))"
    "sched_timer_handler 0x500 (scheduler k') (ram (machine k')) \<lparr>ports = [], framebuffer = (\<lambda>_. 0)\<rparr> =
       Some (Inr (Bootstrap 0xC0001FD8 (pcb_space_phys (ram (machine k')) p1), sc, m,
         pic_send_eoi 0 \<lparr>ports = [], framebuffer = (\<lambda>_. 0)\<rparr>))"
    by blast
  have "0 < pages_for ?n1" "process_one_code ! 0 = 0xC6" by (simp_all add: process_one_code_def pages_for_def)
  with fin(2) have "peek (ram (machine k')) (pcb_space_phys (ram (machine k')) p1) 0xC0000000 = Some 0xC6"
    using code_sizes(5) by (auto simp: process_ready_def process_image_def dir_index_div page_index_div Let_def One_nat_def)
  with fin(1,3) k(3,4) d(2) show ?thesis by blast
qed

end
