(* ===== verification/Spec2Isabelle.thy ===== *)
theory Spec2Isabelle
  imports Pmm Kheap Kmemory Kstring Klist Sched Vterm Tables Isr Keyboard Start
begin

text \<open>
  A verification of kdbOS, a small 32-bit kernel for the i386: the C code under
  \<^verbatim>\<open>src/kernel\<close> and \<^verbatim>\<open>src/include\<close>.

  \<^bold>\<open>The program.\<close>  The boot loader enters \<open>kernel_main\<close>.  It sets up the descriptor tables, the
  interrupt dispatch and the interrupt controllers, checks the boot loader's information, and starts the
  memory managers: a bitmap of physical frames at 4 MB, page tables that map the first 8 MB to themselves,
  and a heap behind the bitmap.  It creates three processes (control block, address space, stack), gives
  two of them to the scheduler and enables interrupts; from then on the timer drives a multi-level feedback
  queue, the keyboard writes to the console, and CPU exceptions end in a panic screen.

  \<^bold>\<open>State.\<close>  Memory is a function from 32-bit addresses to bytes (\<open>Memory\<close>); structures of the code are read
  and written at the offsets the compiler gives them, so that aliasing, overlapping and writing outside an
  object are visible.  Static variables of a module are a record, string literals and linker symbols are at
  parameter addresses.  Machine integers are words of their width (\<open>Prelude\<close>).  Ports and text memory are
  the record \<open>hardware\<close> (\<open>Io\<close>): a trace of port accesses, with the answers of devices as a
  parameter, and the cells of the text buffer.  Control registers and the invalidated addresses are the record
  \<open>mmu\<close> (\<open>Paging\<close>).

  \<^bold>\<open>Faults and loops.\<close>  A page fault, an index outside an array and a shift by the width are values of
  \<open>'a result\<close>.  Loops over linked structures and strings of unknown length are option-valued
  partial functions, where None is a loop that does not end; what is proved of them is that they return
  (from the invariant, or for NUL-terminated strings).  Bounded loops are folds or total functions; there is no
  fuel.

  \<^bold>\<open>Theories and sources.\<close>
  \<^item> \<open>Prelude\<close>, \<open>Memory\<close>: words, alignment, byte memory and its frame rules (\<^verbatim>\<open>types.h\<close>).
  \<^item> \<open>Bitmap\<close> (\<^verbatim>\<open>ds/bitmap.c\<close>): the operations implement a set of indices; the locale \<open>bit_store\<close>
    is interpreted on them.
  \<^item> \<open>Pmm\<close> (\<^verbatim>\<open>memory/pmm.c\<close>): initialisation, first fit, no frame is granted twice; the locale
    \<open>frame_source\<close> is what paging and the virtual memory manager use.
  \<^item> \<open>Kmemory\<close>, \<open>Kheap\<close> (\<^verbatim>\<open>klibc/kmemory.c\<close>): filling and copying; the heap as a list of blocks, first-fit
    allocation, merging on release, live allocations never overlap and keep their contents.  The invariant
    \<open>heap_inv\<close> is exact: the live pointers are the payloads of the blocks in use, no more and no fewer.  The locale
    \<open>kernel_heap\<close> is the contract of the clients; \<open>located_heap\<close> adds the area a heap occupies, and
    \<open>reserved_heap\<close> the space that is left: first fit takes from the front, so requests that fit in a reserve below an
    address \<open>lim\<close> touch nothing from \<open>lim\<close> on, however far the heap extends.
  \<^item> \<open>Kstring\<close> (\<^verbatim>\<open>klibc/kstring.c\<close>): bounded copies of NUL-terminated strings.
  \<^item> \<open>Klist\<close> (\<^verbatim>\<open>ds/list.c\<close>): the circular list refines a sequence of nodes; the locale \<open>node_list\<close>.
  \<^item> \<open>Pcb\<close>, \<open>Sched\<close> (\<^verbatim>\<open>proc/sched.c\<close>, \<^verbatim>\<open>proc/proc.h\<close>): several lists over one set of nodes, and the
    refinement of an abstract feedback queue by the timer interrupt.
  \<^item> \<open>Io\<close>, \<open>Pic\<close> (\<^verbatim>\<open>arch/i386/io.c\<close>, \<^verbatim>\<open>asm.h\<close>, \<^verbatim>\<open>interrupts/pic.c\<close>): ports and interrupt controllers.
  \<^item> \<open>Vterm\<close> (\<^verbatim>\<open>vterm/vterm.c\<close>): every sequence of console operations stays inside the screen, and when the text memory
    mirrors the buffer.
  \<^item> \<open>Tables\<close> (\<^verbatim>\<open>tables/gdt.c\<close>, \<^verbatim>\<open>tables/idt.c\<close>): the encoded descriptors decode to flat segments and
    to the interrupt stubs.
  \<^item> \<open>Isr\<close> (\<^verbatim>\<open>interrupts/isr.c\<close>): registering and dispatching handlers, wherever the linker puts the three arrays.
  \<^item> \<open>Keyboard\<close> (\<^verbatim>\<open>drivers/keyboard.c\<close>): what a key press types.
  \<^item> \<open>Panic\<close> (\<^verbatim>\<open>interrupts/panic.c\<close>): the text memory of the panic screen, cell by cell.
  \<^item> \<open>Pagetable\<close>, \<open>Paging\<close> (\<^verbatim>\<open>memory/paging.h\<close>, \<^verbatim>\<open>memory/paging.c\<close>): entries as bit fields, the two-level
    walk of the processor, and the address space \<open>paging_init\<close> makes.
  \<^item> \<open>Vmm\<close>, \<open>Vmm_Correct\<close> (\<^verbatim>\<open>memory/vmm.c\<close>): every access goes through the page tables being changed.  The
    invariant \<open>vmm_ok\<close> (identity mapping, tables in distinct used frames below 8 MB, apart from the bitmap) makes
    the manager's use of physical addresses as pointers right; under it a new page is mapped, looked up
    and freed as it should be, and where it fails the code faults.  Every translation theorem exempts page \<open>0x7FF000\<close>,
    the manager's temporary window, which the code leaves unmapped.
  \<^item> \<open>Kpage\<close>: accesses through a mapped page, and the relation \<open>extends\<close>: a step that keeps the invariant, the used
    frames, the kernel's mappings and the contents of the data frames in use outside a given set.  It composes, so that
    the routines below are proved step by step.
  \<^item> \<open>Addrspace\<close> (\<open>vmm_create_virtual_address_space\<close> of \<^verbatim>\<open>memory/vmm.c\<close>): what a process reads through its new directory.
  \<^item> \<open>Proc\<close>, \<open>Proc_Correct\<close>, \<open>Proc_Create\<close> (\<^verbatim>\<open>proc/proc.c\<close>, \<^verbatim>\<open>arch/i386/proc/proc.c\<close>, \<open>sched_init\<close>): the prepared
    stack, and the process \<open>create_pcb\<close> makes of a heap block, an address space and a stack page; what happens
    without free frames.
  \<^item> \<open>Boot\<close> (\<^verbatim>\<open>kernel.c\<close>, \<^verbatim>\<open>multiboot.h\<close>): the whole start-up over the state of all modules, and what becomes of the
    memory managers when they are started in this order.
  \<^item> \<open>Start\<close> (the processes of \<open>kernel_main\<close>): heap, lists, page tables and scheduler together, up to the first timer
    interrupt.

  \<^bold>\<open>Bounds.\<close>  Memory that has to be free is counted: a process of \<open>n\<close> pages needs at most \<open>2 n + 6\<close>
  frames below 8 MB (a frame and possibly a kernel page table for each page, the directory, its table and the stack)
  and three unmapped pages of the kernel, one of which it gives back; a list needs a reserve of 308 bytes of the heap and a
  control block one of 56, headers and the rest of a split block included.  Programs are at most 4 MB, one page table.

  \<^bold>\<open>What the process theorems assume.\<close>  The state \<open>kernel_ready\<close>: well-formed page tables, free frames and slots, and a
  heap with a reserve below \<open>lim\<close> such that its part below \<open>lim\<close> is in used frames without page tables, between page 0 and the
  temporary window.  There a pointer and the physical address it means are the same (\<open>ready_identity\<close>), which is how the
  model accesses heap and control blocks.  Nothing is assumed of the rest of the heap, and the heap \<open>kmalloc_init\<close> makes,
  up to \<open>0x7FFFFF\<close>, meets this once the frames up to \<open>lim\<close> are taken from the allocator: the witnesses run
  \<open>pmm_init\<close>, \<open>paging_init\<close> and \<open>kmalloc_init\<close> this way.  \<open>kernel_main\<close> itself never takes them: \<open>Boot\<close> shows
  that in its order the heap starts inside the frame of the page directory and all its other frames are free.

  \<^bold>\<open>What does not hold.\<close>  Several properties state precisely how the code departs from its intent: merging in
  \<open>kfree\<close> loses space; the frame with the end of the bitmap is not reserved, so that the heap header
  overwrites the kernel directory and, on small machines, the directory the bitmap; no frame of the heap is reserved, so that
  both allocators hand out the same memory; the temporary window takes a page of the heap away; a page table above 8 MB
  makes the next request for a page fault; a frame is lost when a table cannot be allocated; without free frames
  the creation of a process faults instead of failing; the stack page replaces the second page of a longer program; the idle
  process is never preempted; a blocked process that is still current corrupts the queues; a newline on the last row
  does not scroll; a backspace over other colours makes screen and buffer differ; handlers of interrupt lines are stored behind their array; popping an empty list loses
  the message.

  \<^bold>\<open>Not modelled.\<close>  The assembly (boot entry, interrupt stubs, context switch): the model ends at the calls, whose
  arguments it returns.  The translation cache: accesses always use the tables in memory, and the invalidations are
  recorded in order.  After \<open>paging_init\<close> the bitmap, the control blocks and the heap are accessed at their
  physical addresses, which is what the identity mapping of 4 to 8 MB gives, except for the first heap header, which is
  written through the page tables, and except for page \<open>0x7FF000\<close>, where a heap access would fault once the window has been
  used; the process theorems stay below it.
  The boot loader's memory map, which the code does not read.
\<close>

end
